(* ===== verification/Wendy_Prelude.thy ===== *)
theory Wendy_Prelude
  imports Main "HOL-Library.Word" "HOL-Library.Multiset"
begin

text \<open>
  Shared vocabulary of the development: the machine integers of the C sources, byte strings and
  the big-endian codecs every wire format of the firmware uses, C library helpers
  (\<open>memcmp\<close>, \<open>memcpy\<close> at an offset), searches in tables of slots, and the collections of
  facts the component theories extend.
\<close>

unbundle bit_operations_syntax

section \<open>Machine integers and bytes\<close>

type_synonym u8 = "8 word"
type_synonym u16 = "16 word"
type_synonym u32 = "32 word"
type_synonym u64 = "64 word"
type_synonym bytes = "u8 list"

abbreviation (input) UINT16_MAX :: u16 where "UINT16_MAX \<equiv> 65535"
abbreviation (input) UINT64_MAX :: u64 where "UINT64_MAX \<equiv> 18446744073709551615"

text \<open>
  Fact collections: \<open>frame_simps\<close> holds what an operation leaves unchanged, \<open>inv_intros\<close>
  the preservation lemmas of the invariants, \<open>wire_simps\<close> the equations of the codecs.
\<close>

named_theorems frame_simps \<open>fields an operation does not write\<close>
named_theorems inv_intros \<open>preservation of the invariants\<close>
named_theorems wire_simps \<open>codec equations\<close>

section \<open>Big-endian codecs\<close>

text \<open>
  \<open>put16\<close>, \<open>put64\<close>, \<open>u16\<close>, \<open>u64\<close> of the sources all are the two loops below at a
  fixed width: byte \<open>i\<close> from the right is \<open>(uint8_t)(v >> (8 * i))\<close>, and reading folds
  \<open>v << 8 | p[i]\<close>.
\<close>

definition put_be :: "nat \<Rightarrow> 'a::len word \<Rightarrow> bytes" where
  "put_be n v = map (\<lambda>i. ucast (drop_bit (8 * i) v)) (rev [0..<n])"

definition get_be :: "bytes \<Rightarrow> 'a::len word" where
  "get_be p = foldl (\<lambda>v b. push_bit 8 v OR ucast b) 0 p"

lemma length_put_be [simp]: "length (put_be n v) = n"
  by (simp add: put_be_def)

lemma put_be_0 [simp]: "put_be 0 v = []"
  by (simp add: put_be_def)

lemma put_be_Suc: "put_be (Suc n) v = ucast (drop_bit (8 * n) v) # put_be n v"
  by (simp add: put_be_def)

lemma put_be_snoc: "put_be (Suc n) v = put_be n (drop_bit 8 v) @ [ucast v]"
  by (induction n) (simp_all add: put_be_Suc add.commute)

lemma get_be_Nil [simp]: "get_be [] = 0"
  by (simp add: get_be_def)

lemma get_be_snoc: "get_be (p @ [b]) = push_bit 8 (get_be p) OR ucast b"
  by (simp add: get_be_def)

lemma get_be_put_be_take_bit: "get_be (put_be n v) = take_bit (8 * n) (v :: 'a::len word)"
proof (induction n arbitrary: v)
  case 0
  then show ?case by simp
next
  case (Suc n)
  have "get_be (put_be (Suc n) v)
      = push_bit 8 (take_bit (8 * n) (drop_bit 8 v)) OR (ucast (ucast v :: u8) :: 'a word)"
    by (simp add: put_be_snoc get_be_snoc Suc.IH)
  also have "\<dots> = take_bit (8 * Suc n) v"
    by (rule bit_word_eqI)
      (auto simp: bit_simps intro: le_neq_implies_less simp flip: not_less)
  finally show ?case .
qed

lemma get_be_put_be [simp]:
  "LENGTH('a) \<le> 8 * n \<Longrightarrow> get_be (put_be n v) = (v :: 'a::len word)"
  by (simp add: get_be_put_be_take_bit take_bit_word_eq_self)

lemma put_be_get_be [simp]:
  "length p = n \<Longrightarrow> 8 * n \<le> LENGTH('a) \<Longrightarrow> put_be n (get_be p :: 'a::len word) = p"
proof (induction n arbitrary: p)
  case 0
  then show ?case by simp
next
  case (Suc n)
  then obtain q b where p: "p = q @ [b]" and q: "length q = n"
    by (cases p rule: rev_cases) auto
  let ?g = "get_be q :: 'a word"
  have shift: "drop_bit 8 (push_bit 8 ?g OR ucast b) = take_bit (LENGTH('a) - 8) ?g"
    by (rule bit_word_eqI) (auto simp: bit_simps dest: bit_imp_le_length)
  have low: "(ucast (push_bit 8 ?g OR ucast b) :: u8) = b"
    using Suc.prems(2) by (intro bit_word_eqI) (auto simp: bit_simps)
  have tb: "put_be n (take_bit (LENGTH('a) - 8) ?g) = put_be n ?g"
    using Suc.prems(2)
    by (auto simp: put_be_def bit_simps intro!: bit_word_eqI)
  have "put_be (Suc n) (get_be p :: 'a word) = put_be n ?g @ [b]"
    by (simp only: p put_be_snoc get_be_snoc shift low tb)
  with Suc.IH [of q] q Suc.prems(2) show ?case by (simp add: p)
qed

text \<open>
  The contract of a fixed-width codec: what is written reads back, every run of the right width
  is a code, and reading at the offset where a value was written in a longer buffer returns it.
\<close>

locale fixed_codec =
  fixes width :: nat
    and put :: "'v \<Rightarrow> bytes"
    and get :: "bytes \<Rightarrow> 'v"
  assumes put_width: "length (put v) = width"
    and get_put: "get (put v) = v"
    and put_get: "length p = width \<Longrightarrow> put (get p) = p"
begin

lemma get_at: "length xs = k \<Longrightarrow> get (take width (drop k (xs @ put v @ ys))) = v"
  by (simp add: put_width get_put)

lemma put_inject: "put v = put w \<longleftrightarrow> v = w"
  by (metis get_put)

lemma get_inject: "length p = width \<Longrightarrow> length q = width \<Longrightarrow> get p = get q \<longleftrightarrow> p = q"
  by (metis put_get)

end

definition put16 :: "u16 \<Rightarrow> bytes" where
  "put16 v = put_be 2 v"

definition get16 :: "bytes \<Rightarrow> u16" where
  "get16 p = get_be p"

definition put32 :: "u32 \<Rightarrow> bytes" where
  "put32 v = put_be 4 v"

definition get32 :: "bytes \<Rightarrow> u32" where
  "get32 p = get_be p"

definition put64 :: "u64 \<Rightarrow> bytes" where
  "put64 v = put_be 8 v"

definition get64 :: "bytes \<Rightarrow> u64" where
  "get64 p = get_be p"

interpretation be16: fixed_codec 2 put16 get16
  by unfold_locales (simp_all add: put16_def get16_def)

interpretation be32: fixed_codec 4 put32 get32
  by unfold_locales (simp_all add: put32_def get32_def)

interpretation be64: fixed_codec 8 put64 get64
  by unfold_locales (simp_all add: put64_def get64_def)

lemmas codec_laws [simp, wire_simps] =
  be16.put_width be16.get_put be16.put_get
  be32.put_width be32.get_put be32.put_get
  be64.put_width be64.get_put be64.put_get

section \<open>C library helpers\<close>

text \<open>
  \<open>memcmp\<close> compares byte by byte as unsigned values; the sources use only the sign of its
  result. \<open>memcpy_at\<close> is \<open>memcpy(base + off, src, n)\<close> into a buffer of fixed size.
\<close>

fun memcmp :: "bytes \<Rightarrow> bytes \<Rightarrow> int" where
  "memcmp (a # as) (b # bs) = (if a < b then - 1 else if b < a then 1 else memcmp as bs)"
| "memcmp _ _ = 0"

definition memcpy_at :: "nat \<Rightarrow> bytes \<Rightarrow> bytes \<Rightarrow> bytes" where
  "memcpy_at off src base = take off base @ src @ drop (off + length src) base"

definition zeros :: "nat \<Rightarrow> bytes" where
  "zeros n = replicate n 0"

lemma length_zeros [simp]: "length (zeros n) = n"
  by (simp add: zeros_def)

lemma length_memcpy_at [simp]:
  "off + length src \<le> length base \<Longrightarrow> length (memcpy_at off src base) = length base"
  by (simp add: memcpy_at_def)

lemma memcmp_0_iff:
  "length a = length b \<Longrightarrow> memcmp a b = 0 \<longleftrightarrow> a = b"
  by (induction a b rule: memcmp.induct) auto

lemma memcmp_antisym: "memcmp b a = - memcmp a b"
  by (induction a b rule: memcmp.induct) auto

lemma memcmp_trans:
  "memcmp a b < 0 \<Longrightarrow> memcmp b c \<le> 0 \<Longrightarrow> length a = length b \<Longrightarrow> length b = length c \<Longrightarrow>
    memcmp a c < 0"
proof (induction a b arbitrary: c rule: memcmp.induct)
  case (1 x as y bs)
  then obtain z cs where c: "c = z # cs" by (cases c) auto
  show ?case
    using 1 by (auto simp: c split: if_splits)
qed auto

section \<open>Tables of slots\<close>

text \<open>
  The engines keep arrays of slots and search them by index; a pointer to a slot is the index of
  the first match, NULL is \<open>None\<close>.
\<close>

fun find_slot :: "('a \<Rightarrow> bool) \<Rightarrow> 'a list \<Rightarrow> nat option" where
  "find_slot P [] = None"
| "find_slot P (x # xs) = (if P x then Some 0 else map_option Suc (find_slot P xs))"

lemma find_slot_SomeD:
  "find_slot P xs = Some i \<Longrightarrow> i < length xs \<and> P (xs ! i) \<and> (\<forall>j<i. \<not> P (xs ! j))"
proof (induction xs arbitrary: i)
  case Nil
  then show ?case by simp
next
  case (Cons x xs)
  then show ?case
    by (auto split: if_splits simp: less_Suc_eq_0_disj)
qed

lemma find_slot_None [simp]: "find_slot P xs = None \<longleftrightarrow> (\<forall>x\<in>set xs. \<not> P x)"
  by (induction xs) auto

lemma find_slot_None_eq: "None = find_slot P xs \<longleftrightarrow> (\<forall>x\<in>set xs. \<not> P x)"
  by (metis find_slot_None)

lemma find_slot_Some_less [dest]: "find_slot P xs = Some i \<Longrightarrow> i < length xs"
  by (simp add: find_slot_SomeD)

lemma find_slot_Some_sat: "find_slot P xs = Some i \<Longrightarrow> P (xs ! i)"
  by (simp add: find_slot_SomeD)

lemma find_slot_append:
  "find_slot P (xs @ ys) =
    (case find_slot P xs of Some i \<Rightarrow> Some i | None \<Rightarrow> map_option (\<lambda>i. length xs + i) (find_slot P ys))"
  by (cases "find_slot P ys"; induction xs) (auto simp del: find_slot_None split: option.splits)

lemma find_slot_cong:
  "(\<And>x. x \<in> set xs \<Longrightarrow> P x = Q x) \<Longrightarrow> find_slot P xs = find_slot Q xs"
  by (induction xs) auto

lemma set_list_updateD: "y \<in> set (xs[i := x]) \<Longrightarrow> y = x \<or> y \<in> set xs"
  using set_update_subset_insert [of xs i x] by auto

lemma set_updateI [intro]:
  "(\<And>y. y \<in> set xs \<Longrightarrow> Q y) \<Longrightarrow> Q x \<Longrightarrow> y \<in> set (xs[i := x]) \<Longrightarrow> Q y"
  by (auto dest: set_list_updateD)

end
