(* ===== verification/Babel_Wire.thy ===== *)
theory Babel_Wire
  imports Wendy_Prelude
begin

text \<open>
  The Babel v2 codec of \<open>components/wendy_babel/src/wire.c\<close>: prefixes and their masks, the
  two-pass packet decoder with its packet-local contexts, and the TLV encoder. A packet is the
  byte list the C code indexes; the visitor calls of \<open>wb_decode\<close> are the list of messages it
  is called with, in order, and \<open>WB_INVALID\<close> is \<open>None\<close>.
\<close>

section \<open>Prefixes and messages\<close>

abbreviation (input) WB_INFINITY :: u16 where "WB_INFINITY \<equiv> 65535"

abbreviation (input) WB_ACK_REQUEST :: u8 where "WB_ACK_REQUEST \<equiv> 2"
abbreviation (input) WB_ACK :: u8 where "WB_ACK \<equiv> 3"
abbreviation (input) WB_HELLO :: u8 where "WB_HELLO \<equiv> 4"
abbreviation (input) WB_IHU :: u8 where "WB_IHU \<equiv> 5"
abbreviation (input) WB_ROUTER :: u8 where "WB_ROUTER \<equiv> 6"
abbreviation (input) WB_NEXT_HOP :: u8 where "WB_NEXT_HOP \<equiv> 7"
abbreviation (input) WB_UPDATE :: u8 where "WB_UPDATE \<equiv> 8"
abbreviation (input) WB_REQUEST :: u8 where "WB_REQUEST \<equiv> 9"
abbreviation (input) WB_SEQ_REQUEST :: u8 where "WB_SEQ_REQUEST \<equiv> 10"

record wb_prefix =
  p_bytes :: bytes
  p_bits :: u8
  p_family :: u8

record wb_message =
  m_prefix :: wb_prefix
  m_address :: bytes
  m_address_family :: u8
  m_type :: u8
  m_hops :: u8
  m_unicast :: bool
  m_wildcard :: bool
  m_via6 :: bool
  m_seqno :: u16
  m_metric :: u16
  m_interval :: u16
  m_opaque :: u16
  m_router :: u64

text \<open>\<open>{0}\<close> initialisers.\<close>

definition zero_prefix :: wb_prefix where
  "zero_prefix = \<lparr>p_bytes = zeros 16, p_bits = 0, p_family = 0\<rparr>"

definition message :: "u8 \<Rightarrow> wb_message" where
  "message t = \<lparr>m_prefix = zero_prefix, m_address = zeros 16, m_address_family = 0, m_type = t,
     m_hops = 0, m_unicast = False, m_wildcard = False, m_via6 = False, m_seqno = 0,
     m_metric = 0, m_interval = 0, m_opaque = 0, m_router = 0\<rparr>"

definition wb_prefix_equal :: "wb_prefix \<Rightarrow> wb_prefix \<Rightarrow> bool" where
  "wb_prefix_equal a b \<longleftrightarrow>
     p_family a = p_family b \<and> p_bits a = p_bits b \<and> p_bytes a = p_bytes b"

fun mask_bytes :: "nat \<Rightarrow> bytes \<Rightarrow> bytes" where
  "mask_bytes bits [] = []"
| "mask_bytes bits (b # bs) =
     (if 8 \<le> bits then b # mask_bytes (bits - 8) bs
      else (b AND (if bits \<noteq> 0 then push_bit (8 - bits) 255 else 0)) # mask_bytes 0 bs)"

definition wb_prefix_mask :: "wb_prefix \<Rightarrow> wb_prefix" where
  "wb_prefix_mask p = p\<lparr>p_bytes := mask_bytes (unat (p_bits p)) (p_bytes p)\<rparr>"

definition family_bits :: "u8 \<Rightarrow> u8" where
  "family_bits family = (if family = 4 then 32 else 128)"

definition wb_prefix_valid :: "wb_prefix \<Rightarrow> bool" where
  "wb_prefix_valid p \<longleftrightarrow>
     (p_family p = 4 \<or> p_family p = 6) \<and> p_bits p \<le> family_bits (p_family p) \<and>
     p_bytes p = p_bytes (wb_prefix_mask p)"

section \<open>The decoder\<close>

definition u16_at :: "bytes \<Rightarrow> nat \<Rightarrow> u16" where
  "u16_at p k = get16 (take 2 (drop k p))"

definition u64_at :: "bytes \<Rightarrow> nat \<Rightarrow> u64" where
  "u64_at p k = get64 (take 8 (drop k p))"

text \<open>The sub-TLV check: Pad1 is skipped, a mandatory (high bit) or overlong sub-TLV fails.\<close>

fun subs :: "bytes \<Rightarrow> bool" where
  "subs [] = True"
| "subs (t # p) =
     (if t = 0 then subs p
      else case p of
        [] \<Rightarrow> False
      | k # q \<Rightarrow> if length q < unat k \<or> t AND 128 \<noteq> 0 then False else subs (drop (unat k) q))"

text \<open>An address of encoding \<open>ae\<close>: (bytes, family, used).\<close>

definition address :: "u8 \<Rightarrow> bytes \<Rightarrow> (bytes \<times> u8 \<times> nat) option" where
  "address ae p =
     (if ae = 0 then Some (zeros 16, 0, 0)
      else if ae = 1 \<and> 4 \<le> length p then Some (memcpy_at 0 (take 4 p) (zeros 16), 4, 4)
      else if ae = 2 \<and> 16 \<le> length p then Some (take 16 p, 6, 16)
      else if ae = 3 \<and> 8 \<le> length p
        then Some (memcpy_at 8 (take 8 p) ((zeros 16)[0 := 0xfe, 1 := 0x80]), 6, 8)
      else None)"

text \<open>
  A prefix of encoding \<open>ae\<close> with \<open>omitted\<close> bytes taken from the previous one: (prefix,
  used). \<open>prefix_refused\<close> collects the early \<open>return false\<close> tests, in their order.
\<close>

definition ae_v4 :: "u8 \<Rightarrow> bool" where
  "ae_v4 ae \<longleftrightarrow> ae = 1 \<or> ae = 4"

definition prefix_start :: "u8 \<Rightarrow> nat" where
  "prefix_start ae = (if ae = 3 then 8 else 0)"

definition prefix_refused :: "u8 \<Rightarrow> u8 \<Rightarrow> u8 \<Rightarrow> bytes \<Rightarrow> wb_prefix \<Rightarrow> bool" where
  "prefix_refused ae bits omitted p previous \<longleftrightarrow>
     ae < 1 \<or> 4 < ae \<or> (if ae_v4 ae then 32 else 128) < bits \<or>
     (ae = 3 \<and> (omitted \<noteq> 0 \<or> bits < 64)) \<or>
     (unat bits + 7) div 8 < prefix_start ae + unat omitted \<or>
     length p < (unat bits + 7) div 8 - prefix_start ae - unat omitted \<or>
     (omitted \<noteq> 0 \<and> p_family previous = 0)"

definition prefix_base :: "u8 \<Rightarrow> u8 \<Rightarrow> wb_prefix \<Rightarrow> bytes" where
  "prefix_base ae omitted previous =
     (let base = (if omitted \<noteq> 0 then p_bytes previous else zeros 16)
      in if ae = 3 then base[0 := 0xfe, 1 := 0x80] else base)"

definition prefix ::
  "u8 \<Rightarrow> u8 \<Rightarrow> u8 \<Rightarrow> bytes \<Rightarrow> wb_prefix \<Rightarrow> (wb_prefix \<times> nat) option" where
  "prefix ae bits omitted p previous =
     (if prefix_refused ae bits omitted p previous then None
      else
        let off = prefix_start ae + unat omitted;
            used = (unat bits + 7) div 8 - prefix_start ae - unat omitted
        in Some (wb_prefix_mask
                   \<lparr>p_bytes = memcpy_at off (take used p) (prefix_base ae omitted previous),
                    p_bits = bits, p_family = (if ae_v4 ae then 4 else 6)\<rparr>, used))"

text \<open>The packet-local context: previous prefix per encoding, next hop per family, router.\<close>

record wb_context =
  x_previous :: "wb_prefix list"
  x_hop4 :: bytes
  x_family4 :: u8
  x_hop6 :: bytes
  x_family6 :: u8
  x_router :: u64

definition initial_context :: "bytes \<Rightarrow> wb_context" where
  "initial_context source =
     \<lparr>x_previous = replicate 5 zero_prefix, x_hop4 = zeros 16, x_family4 = 0,
      x_hop6 = source, x_family6 = 6, x_router = 0\<rparr>"

text \<open>
  One arm of the switch of \<open>wb_decode\<close> each: the context after the TLV and, unless the arm
  skips the TLV, the message with the number of body bytes it used. A skipped TLV may already
  have changed the context, as in the source.
\<close>

type_synonym tlv_result = "wb_context \<times> (wb_message \<times> nat) option"

definition decode_hello :: "wb_context \<Rightarrow> u8 \<Rightarrow> bytes \<Rightarrow> tlv_result" where
  "decode_hello ctx t p =
     (if length p < 6 then (ctx, None)
      else let m = (message t)\<lparr>m_seqno := u16_at p 2, m_opaque := u16_at p 2,
                     m_interval := u16_at p 4, m_unicast := (p ! 0 AND 128 \<noteq> 0)\<rparr>
           in if t = WB_ACK_REQUEST \<and> m_interval m = 0 then (ctx, None) else (ctx, Some (m, 6)))"

definition decode_ack :: "wb_context \<Rightarrow> bytes \<Rightarrow> tlv_result" where
  "decode_ack ctx p =
     (if length p < 2 then (ctx, None)
      else (ctx, Some ((message WB_ACK)\<lparr>m_opaque := u16_at p 0\<rparr>, 2)))"

definition decode_ihu :: "wb_context \<Rightarrow> bytes \<Rightarrow> tlv_result" where
  "decode_ihu ctx p =
     (if length p < 6 then (ctx, None)
      else case address (p ! 0) (drop 6 p) of
        None \<Rightarrow> (ctx, None)
      | Some (a, family, z) \<Rightarrow>
          let m = (message WB_IHU)\<lparr>m_address := a, m_address_family := family,
                    m_metric := u16_at p 2, m_interval := u16_at p 4\<rparr>
          in if m_interval m = 0 then (ctx, None) else (ctx, Some (m, 6 + z)))"

definition decode_next_hop :: "wb_context \<Rightarrow> bytes \<Rightarrow> tlv_result" where
  "decode_next_hop ctx p =
     (if length p < 2 then (ctx, None)
      else case address (p ! 0) (drop 2 p) of
        None \<Rightarrow> (ctx, None)
      | Some (a, family, z) \<Rightarrow>
          if p ! 0 = 0 then (ctx, None)
          else ((if family = 4 then ctx\<lparr>x_hop4 := a, x_family4 := family\<rparr>
                 else ctx\<lparr>x_hop6 := a, x_family6 := family\<rparr>),
                Some ((message WB_NEXT_HOP)\<lparr>m_address := a, m_address_family := family\<rparr>, 2 + z)))"

definition decode_router :: "wb_context \<Rightarrow> bytes \<Rightarrow> tlv_result" where
  "decode_router ctx p =
     (if length p < 10 then (ctx, None)
      else (ctx\<lparr>x_router := u64_at p 2\<rparr>,
            Some ((message WB_ROUTER)\<lparr>m_router := u64_at p 2\<rparr>, 10)))"

definition prefix_router :: "wb_prefix \<Rightarrow> u64" where
  "prefix_router p =
     (if p_family p = 4 then get_be (take 4 (p_bytes p)) else get64 (take 8 (drop 8 (p_bytes p))))"

definition decode_update :: "wb_context \<Rightarrow> bytes \<Rightarrow> tlv_result" where
  "decode_update ctx p =
     (if length p < 10 then (ctx, None)
      else
        let ae = p ! 0;
            m0 = (message WB_UPDATE)\<lparr>m_interval := u16_at p 4, m_seqno := u16_at p 6,
                   m_metric := u16_at p 8, m_via6 := (ae = 4)\<rparr>
        in if ae = 0 then
             (if p ! 2 \<noteq> 0 \<or> p ! 3 \<noteq> 0 \<or> m_metric m0 \<noteq> WB_INFINITY then (ctx, None)
              else if m_interval m0 = 0 then (ctx, None)
              else (ctx, Some (m0\<lparr>m_wildcard := True\<rparr>, 10)))
           else if 4 < ae then (ctx, None)
           else case prefix ae (p ! 2) (p ! 3) (drop 10 p) (x_previous ctx ! unat ae) of
             None \<Rightarrow> (ctx, None)
           | Some (pre, z) \<Rightarrow>
               let ctx1 = (if p ! 1 AND 128 \<noteq> 0 \<and> ae \<noteq> 3
                           then ctx\<lparr>x_previous := (x_previous ctx)[unat ae := pre]\<rparr> else ctx);
                   router = (if p ! 1 AND 64 \<noteq> 0 then prefix_router pre else x_router ctx1);
                   ctx2 = ctx1\<lparr>x_router := router\<rparr>;
                   m = m0\<lparr>m_prefix := pre, m_router := router,
                         m_address := (if ae = 1 then x_hop4 ctx2 else x_hop6 ctx2),
                         m_address_family := (if ae = 1 then x_family4 ctx2 else x_family6 ctx2)\<rparr>
               in if m_metric m \<noteq> WB_INFINITY \<and>
                     (router = 0 \<or> router = UINT64_MAX \<or> m_address_family m = 0) then (ctx2, None)
                  else if m_interval m = 0 then (ctx2, None)
                  else (ctx2, Some (m, 10 + z)))"

definition decode_request :: "wb_context \<Rightarrow> u8 \<Rightarrow> bytes \<Rightarrow> tlv_result" where
  "decode_request ctx t p =
     (let base = (if t = WB_REQUEST then 2 else 14) in
      if length p < base then (ctx, None)
      else
        let head = (if p ! 0 = 0 then
                      (if t \<noteq> WB_REQUEST \<or> p ! 1 \<noteq> 0 then None
                       else Some ((message t)\<lparr>m_wildcard := True\<rparr>, base))
                    else map_option (\<lambda>(pre, z). ((message t)\<lparr>m_prefix := pre\<rparr>, base + z))
                           (prefix (p ! 0) (p ! 1) 0 (drop base p) zero_prefix))
        in case head of
          None \<Rightarrow> (ctx, None)
        | Some (m, used) \<Rightarrow>
            if t = WB_SEQ_REQUEST then
              let m' = m\<lparr>m_seqno := u16_at p 2, m_hops := p ! 4, m_router := u64_at p 6\<rparr>
              in if m_hops m' = 0 \<or> m_router m' = 0 \<or> m_router m' = UINT64_MAX then (ctx, None)
                 else (ctx, Some (m', used))
            else (ctx, Some (m, used)))"

definition decode_tlv :: "wb_context \<Rightarrow> u8 \<Rightarrow> bytes \<Rightarrow> tlv_result" where
  "decode_tlv ctx t p =
     (if t = WB_HELLO \<or> t = WB_ACK_REQUEST then decode_hello ctx t p
      else if t = WB_ACK then decode_ack ctx p
      else if t = WB_IHU then decode_ihu ctx p
      else if t = WB_NEXT_HOP then decode_next_hop ctx p
      else if t = WB_ROUTER then decode_router ctx p
      else if t = WB_UPDATE then decode_update ctx p
      else if t = WB_REQUEST \<or> t = WB_SEQ_REQUEST then decode_request ctx t p
      else (ctx, None))"

text \<open>First pass: every outer TLV length stays inside the packet body.\<close>

fun frame_ok :: "bytes \<Rightarrow> bool" where
  "frame_ok [] = True"
| "frame_ok (t # p) =
     (if t = 0 then frame_ok p
      else case p of
        [] \<Rightarrow> False
      | n # q \<Rightarrow> if length q < unat n then False else frame_ok (drop (unat n) q))"

text \<open>Second pass over a body whose framing the first pass accepted.\<close>

fun decode_tlvs :: "wb_context \<Rightarrow> bytes \<Rightarrow> wb_message list" where
  "decode_tlvs ctx [] = []"
| "decode_tlvs ctx (t # p) =
     (if t = 0 then decode_tlvs ctx p
      else case p of
        [] \<Rightarrow> []
      | n # q \<Rightarrow>
          let body = take (unat n) q;
              rest = drop (unat n) q
          in case decode_tlv ctx t body of
               (ctx', None) \<Rightarrow> decode_tlvs ctx' rest
             | (ctx', Some (m, used)) \<Rightarrow>
                 if \<not> subs (drop used body) then decode_tlvs ctx' rest
                 else if t \<noteq> WB_ROUTER \<and> t \<noteq> WB_NEXT_HOP then m # decode_tlvs ctx' rest
                 else decode_tlvs ctx' rest)"

definition wb_decode :: "bytes \<Rightarrow> bytes \<Rightarrow> wb_message list option" where
  "wb_decode packet source =
     (if length packet < 4 \<or> packet ! 0 \<noteq> 42 \<or> packet ! 1 \<noteq> 2 \<or>
         length packet - 4 < unat (u16_at packet 2) then None
      else
        let body = take (unat (u16_at packet 2)) (drop 4 packet)
        in if \<not> frame_ok body then None else Some (decode_tlvs (initial_context source) body))"

section \<open>The encoder\<close>

definition prefix_size :: "wb_prefix \<Rightarrow> nat" where
  "prefix_size p = (unat (p_bits p) + 7) div 8"

definition encode_address :: "wb_message \<Rightarrow> bytes" where
  "encode_address m = take (if m_address_family m = 4 then 4 else 16) (m_address m)"

definition update_ae :: "wb_message \<Rightarrow> u8" where
  "update_ae m = (if p_family (m_prefix m) = 4 then (if m_via6 m then 4 else 1) else 2)"

definition encode_update :: "wb_message \<Rightarrow> bytes" where
  "encode_update m =
     (if m_metric m \<noteq> WB_INFINITY
      then [WB_ROUTER, 10, 0, 0] @ put64 (m_router m) @
           (if m_address_family m \<noteq> 0
            then [WB_NEXT_HOP, of_nat (length (encode_address m)) + 2,
                  if m_address_family m = 4 then 1 else 2, 0] @ encode_address m
            else [])
      else []) @
     (if m_wildcard m
      then [WB_UPDATE, 10, 0, 0, 0, 0] @
           put16 (m_interval m) @ put16 (m_seqno m) @ put16 (m_metric m)
      else [WB_UPDATE, 10 + of_nat (prefix_size (m_prefix m)),
            update_ae m, 0, p_bits (m_prefix m), 0] @
           put16 (m_interval m) @ put16 (m_seqno m) @ put16 (m_metric m) @
           take (prefix_size (m_prefix m)) (p_bytes (m_prefix m)))"

definition encode_request :: "wb_message \<Rightarrow> bytes" where
  "encode_request m =
     (let tail = (if m_type m = WB_SEQ_REQUEST
                  then put16 (m_seqno m) @ [m_hops m, 0] @ put64 (m_router m) else []);
          base = (if m_type m = WB_REQUEST then 2 else 14)
      in if m_wildcard m then [m_type m, base, 0, 0] @ tail
         else [m_type m, base + of_nat (prefix_size (m_prefix m)),
               if p_family (m_prefix m) = 4 then 1 else 2, p_bits (m_prefix m)] @ tail @
              take (prefix_size (m_prefix m)) (p_bytes (m_prefix m)))"

text \<open>The bytes written; \<open>[]\<close> is the return value 0 (not encodable, or no room).\<close>

definition wb_encode :: "wb_message \<Rightarrow> nat \<Rightarrow> bytes" where
  "wb_encode m cap =
     (let t = m_type m in
      if (t = WB_UPDATE \<or> t = WB_REQUEST \<or> t = WB_SEQ_REQUEST) \<and> \<not> m_wildcard m \<and>
           \<not> wb_prefix_valid (m_prefix m) then []
      else if m_address_family m \<noteq> 0 \<and> m_address_family m \<noteq> 4 \<and> m_address_family m \<noteq> 6 then []
      else
        let p = (if t = WB_HELLO \<or> t = WB_ACK_REQUEST then
                   [t, 6, if m_unicast m \<and> t = WB_HELLO then 128 else 0, 0] @
                   put16 (if t = WB_ACK_REQUEST then m_opaque m else m_seqno m) @
                   put16 (m_interval m)
                 else if t = WB_ACK then [WB_ACK, 2] @ put16 (m_opaque m)
                 else if t = WB_IHU then
                   (if m_address_family m \<noteq> 0
                    then [WB_IHU, 6 + of_nat (length (encode_address m)),
                          if m_address_family m = 4 then 1 else 2, 0] @
                         put16 (m_metric m) @ put16 (m_interval m) @ encode_address m
                    else [WB_IHU, 6, 0, 0] @ put16 (m_metric m) @ put16 (m_interval m))
                 else if t = WB_UPDATE then encode_update m
                 else if t = WB_REQUEST \<or> t = WB_SEQ_REQUEST then encode_request m
                 else [])
        in if cap < length p then [] else p)"

section \<open>Masks as sets of leading bits\<close>

lemma wb_prefix_equal_iff [simp]: "wb_prefix_equal a b \<longleftrightarrow> a = b"
  by (cases a; cases b) (auto simp: wb_prefix_equal_def)

lemma length_mask_bytes [simp]: "length (mask_bytes n bs) = length bs"
  by (induction n bs rule: mask_bytes.induct) auto

lemma mask_bytes_0: "mask_bytes 0 bs = zeros (length bs)"
  by (induction bs) (auto simp: zeros_def)

lemma mask_bytes_idem [simp]: "mask_bytes n (mask_bytes n bs) = mask_bytes n bs"
  by (induction n bs rule: mask_bytes.induct) (auto simp: mask_bytes_0 and.assoc)

lemma mask_bytes_take:
  "mask_bytes n (take ((n + 7) div 8) bs @ zeros (length bs - (n + 7) div 8)) = mask_bytes n bs"
proof (induction n bs rule: mask_bytes.induct)
  case (1 bits)
  then show ?case by (simp add: zeros_def)
next
  case (2 bits b bs)
  show ?case
  proof (cases "8 \<le> bits")
    case True
    then obtain k where k: "bits = 8 + k" using le_Suc_ex by blast
    then have "(bits + 7) div 8 = Suc ((k + 7) div 8)" by simp
    with 2(1) [OF True] k show ?thesis by simp
  next
    case False
    then have "(bits + 7) div 8 = (if bits = 0 then 0 else 1)" by auto
    with False show ?thesis by (simp add: mask_bytes_0 zeros_def flip: replicate_Suc)
  qed
qed


text \<open>Bit \<open>i\<close> of an address, counted from the most significant bit of the first byte.\<close>

definition addr_bit :: "bytes \<Rightarrow> nat \<Rightarrow> bool" where
  "addr_bit bs i = bit (bs ! (i div 8)) (7 - i mod 8)"

lemma addr_bit_Cons: "addr_bit (b # bs) i = (if i < 8 then bit b (7 - i) else addr_bit bs (i - 8))"
proof (cases "i < 8")
  case False
  then obtain k where "i = 8 + k" using le_Suc_ex not_less by metis
  then have "i div 8 = Suc (k div 8)" "i mod 8 = k mod 8" "i - 8 = k" by simp_all
  with False show ?thesis by (simp add: addr_bit_def)
qed (simp add: addr_bit_def)

lemma bit_high_ones: "bit (push_bit n (255 :: u8)) k \<longleftrightarrow> n \<le> k \<and> k < 8"
proof -
  have ones: "(255 :: u8) = - 1" by simp
  show ?thesis unfolding ones by (auto simp: bit_simps)
qed

lemma addr_bit_mask:
  "i < 8 * length bs \<Longrightarrow> addr_bit (mask_bytes n bs) i \<longleftrightarrow> i < n \<and> addr_bit bs i"
proof (induction n bs arbitrary: i rule: mask_bytes.induct)
  case (1 bits)
  then show ?case by simp
next
  case (2 bits b bs)
  show ?case
  proof (cases "8 \<le> bits")
    case True
    with 2(1) [OF True, of "i - 8"] 2(3) show ?thesis
      by (auto simp: addr_bit_Cons)
  next
    case False
    have zero: "\<not> addr_bit (mask_bytes 0 bs) (i - 8)" if "8 \<le> i"
      using 2(2) [OF False, of "i - 8"] 2(3) that by auto
    show ?thesis
    proof (cases "i < 8")
      case True
      with False show ?thesis
        by (auto simp: addr_bit_Cons bit_and_iff bit_high_ones)
    next
      case i: False
      with zero False show ?thesis by (simp add: addr_bit_Cons)
    qed
  qed
qed

lemma addr_bit_ext:
  assumes "length as = length bs" "\<And>i. i < 8 * length bs \<Longrightarrow> addr_bit as i = addr_bit bs i"
  shows "as = bs"
  using assms
proof (induction as bs rule: list_induct2)
  case Nil
  then show ?case by simp
next
  case (Cons a as b bs)
  have "a = b"
  proof (rule bit_word_eqI)
    fix k assume k: "k < LENGTH(8)"
    then have "7 - k < 8 * length (b # bs)" "7 - k < 8" "7 - (7 - k) = k" by auto
    with Cons.prems [of "7 - k"] show "bit a k = bit b k" by (simp add: addr_bit_Cons)
  qed
  moreover have "as = bs"
  proof (rule Cons.IH)
    fix i assume "i < 8 * length bs"
    then show "addr_bit as i = addr_bit bs i"
      using Cons.prems [of "i + 8"] by (simp add: addr_bit_Cons)
  qed
  ultimately show ?case by simp
qed

lemma mask_bytes_eq_iff:
  assumes "length as = length bs"
  shows "mask_bytes n as = mask_bytes n bs \<longleftrightarrow>
    (\<forall>i. i < n \<and> i < 8 * length bs \<longrightarrow> addr_bit as i = addr_bit bs i)"
proof
  assume "mask_bytes n as = mask_bytes n bs"
  then have eq: "addr_bit (mask_bytes n as) i = addr_bit (mask_bytes n bs) i" for i by simp
  show "\<forall>i. i < n \<and> i < 8 * length bs \<longrightarrow> addr_bit as i = addr_bit bs i"
  proof (intro allI impI)
    fix i assume "i < n \<and> i < 8 * length bs"
    with eq [of i] assms show "addr_bit as i = addr_bit bs i" by (simp add: addr_bit_mask)
  qed
next
  assume "\<forall>i. i < n \<and> i < 8 * length bs \<longrightarrow> addr_bit as i = addr_bit bs i"
  then show "mask_bytes n as = mask_bytes n bs"
    using assms by (intro addr_bit_ext) (auto simp: addr_bit_mask)
qed

section \<open>Round trip of prefixes and TLVs\<close>

text \<open>What the fixed array of \<open>struct wb_prefix\<close> and \<open>wb_prefix_valid\<close> give together.\<close>

lemma wb_prefix_valid_mask [simp]:
  "p_family p = 4 \<or> p_family p = 6 \<Longrightarrow> p_bits p \<le> family_bits (p_family p) \<Longrightarrow>
    wb_prefix_valid (wb_prefix_mask p)"
  by (simp add: wb_prefix_valid_def wb_prefix_mask_def)

definition prefix_ok :: "wb_prefix \<Rightarrow> bool" where
  "prefix_ok p \<longleftrightarrow> wb_prefix_valid p \<and> length (p_bytes p) = 16"

lemma bits_size_le: "(if v4 then 32 else 128 :: u8) \<ge> b \<Longrightarrow> (unat b + 7) div 8 \<le> 16"
  by (auto simp: word_le_nat_alt split: if_splits)


lemma prefix_SomeE:
  assumes "prefix ae bits om p prev = Some (q, z)" and "length (p_bytes prev) = 16"
  obtains off base where "q = wb_prefix_mask \<lparr>p_bytes = memcpy_at off (take z p) base,
      p_bits = bits, p_family = (if ae_v4 ae then 4 else 6)\<rparr>"
    "length base = 16" "off + z = (unat bits + 7) div 8" "z \<le> length p"
    "bits \<le> (if ae_v4 ae then 32 else 128)"
proof -
  have ok: "\<not> prefix_refused ae bits om p prev"
    using assms(1) by (simp add: prefix_def split: if_split_asm)
  have q: "q = wb_prefix_mask \<lparr>p_bytes = memcpy_at (prefix_start ae + unat om) (take z p)
        (prefix_base ae om prev), p_bits = bits, p_family = (if ae_v4 ae then 4 else 6)\<rparr>"
    and z: "z = (unat bits + 7) div 8 - prefix_start ae - unat om"
    using assms(1) ok by (auto simp: prefix_def Let_def)
  have base: "length (prefix_base ae om prev) = 16"
    using assms(2) by (simp add: prefix_base_def Let_def)
  have "prefix_start ae + unat om + z = (unat bits + 7) div 8" "z \<le> length p"
      "bits \<le> (if ae_v4 ae then 32 else 128)"
    using ok by (simp_all add: z prefix_refused_def not_less)
  then show thesis by (rule that [OF q base])
qed

lemma prefix_SomeD:
  assumes "prefix ae bits om p prev = Some (q, z)" and "length (p_bytes prev) = 16"
  shows "prefix_ok q" "z \<le> length p" "p_bits q = bits"
    "p_family q = (if ae_v4 ae then 4 else 6)"
proof -
  obtain off base where q: "q = wb_prefix_mask \<lparr>p_bytes = memcpy_at off (take z p) base,
      p_bits = bits, p_family = (if ae_v4 ae then 4 else 6)\<rparr>"
    and base: "length base = 16" "off + z = (unat bits + 7) div 8" and z: "z \<le> length p"
    and bits: "bits \<le> (if ae_v4 ae then 32 else 128)"
    using assms by (rule prefix_SomeE)
  have "length (memcpy_at off (take z p) base) = 16"
    using base z bits_size_le [OF bits] by simp
  then have "length (p_bytes q) = 16"
    by (simp add: q wb_prefix_mask_def)
  moreover have "wb_prefix_valid q"
    unfolding q by (rule wb_prefix_valid_mask) (use bits in \<open>auto simp: family_bits_def\<close>)
  ultimately show "prefix_ok q" by (simp add: prefix_ok_def)
  show "z \<le> length p" "p_bits q = bits" "p_family q = (if ae_v4 ae then 4 else 6)"
    using z by (simp_all add: q wb_prefix_mask_def)
qed

lemma prefix_encoded:
  assumes "prefix_ok q" and ae: "ae = (if p_family q = 4 then 1 else 2) \<or> (ae = 4 \<and> p_family q = 4)"
  shows "prefix ae (p_bits q) 0 (take (prefix_size q) (p_bytes q)) prev = Some (q, prefix_size q)"
proof -
  have fam: "p_family q = (if ae_v4 ae then 4 else 6)" and bits: "p_bits q \<le> (if ae_v4 ae then 32 else 128)"
    and mask: "mask_bytes (unat (p_bits q)) (p_bytes q) = p_bytes q" and len: "length (p_bytes q) = 16"
    using assms by (auto simp: prefix_ok_def wb_prefix_valid_def wb_prefix_mask_def family_bits_def ae_v4_def)
  have aes: "ae = 1 \<or> ae = 2 \<or> ae = 4"
    using ae by (auto split: if_splits)
  have size: "prefix_size q \<le> 16"
    using bits_size_le [OF bits] by (simp add: prefix_size_def)
  have start: "prefix_start ae = 0" "prefix_base ae 0 prev = zeros 16"
    using aes by (auto simp: prefix_start_def prefix_base_def)
  have "\<not> prefix_refused ae (p_bits q) 0 (take (prefix_size q) (p_bytes q)) prev"
    using aes bits len size by (auto simp: prefix_refused_def start not_less prefix_size_def)
  moreover have "mask_bytes (unat (p_bits q)) (memcpy_at 0 (take (prefix_size q) (p_bytes q)) (zeros 16)) = p_bytes q"
    using mask_bytes_take [of "unat (p_bits q)" "p_bytes q"] mask len size
    by (simp add: memcpy_at_def prefix_size_def zeros_def)
  ultimately show ?thesis
    using start fam by (simp add: prefix_def Let_def wb_prefix_mask_def prefix_size_def)
qed

lemma decode_tlvs_tlv:
  "t \<noteq> 0 \<Longrightarrow> length body = unat n \<Longrightarrow> decode_tlvs ctx (t # n # body @ rest) =
    (case decode_tlv ctx t body of
       (ctx', None) \<Rightarrow> decode_tlvs ctx' rest
     | (ctx', Some (m, used)) \<Rightarrow>
         if \<not> subs (drop used body) \<or> t = WB_ROUTER \<or> t = WB_NEXT_HOP then decode_tlvs ctx' rest
         else m # decode_tlvs ctx' rest)"
  by (simp add: Let_def split: prod.split option.split)

lemma frame_ok_tlv [simp]:
  "t \<noteq> 0 \<Longrightarrow> length body = unat n \<Longrightarrow> frame_ok (t # n # body @ rest) = frame_ok rest"
  by simp

text \<open>
  The messages a sender may put on the wire: the parameters that matter for each type are in the
  range the decoder accepts. \<open>delivered source m m'\<close> says that the receiver, whose peer has
  address \<open>source\<close>, sees in \<open>m'\<close> the parameters of \<open>m\<close>; a retraction carries no
  router or next hop of its own.
\<close>

definition sendable :: "wb_message \<Rightarrow> bool" where
  "sendable m \<longleftrightarrow> length (m_address m) = 16 \<and>
     m_address_family m \<in> {0, 4, 6} \<and>
     (m_address_family m = 4 \<longrightarrow> drop 4 (m_address m) = zeros 12) \<and>
     (m_address_family m = 0 \<longrightarrow> m_address m = zeros 16) \<and>
     (m_type m = WB_HELLO \<or>
      m_type m = WB_ACK \<or>
      m_type m \<in> {WB_ACK_REQUEST, WB_IHU} \<and> m_interval m \<noteq> 0 \<or>
      m_type m = WB_REQUEST \<and> (m_wildcard m \<or> prefix_ok (m_prefix m)) \<or>
      m_type m = WB_SEQ_REQUEST \<and> \<not> m_wildcard m \<and> prefix_ok (m_prefix m) \<and> m_hops m \<noteq> 0 \<and>
        m_router m \<noteq> 0 \<and> m_router m \<noteq> UINT64_MAX \<or>
      m_type m = WB_UPDATE \<and> m_interval m \<noteq> 0 \<and>
        (m_wildcard m \<and> m_metric m = WB_INFINITY \<or>
         \<not> m_wildcard m \<and> prefix_ok (m_prefix m) \<and>
         (m_metric m \<noteq> WB_INFINITY \<longrightarrow> m_router m \<noteq> 0 \<and> m_router m \<noteq> UINT64_MAX \<and>
            m_address_family m = (if p_family (m_prefix m) = 4 \<and> \<not> m_via6 m then 4 else 0))))"

definition delivered :: "bytes \<Rightarrow> wb_message \<Rightarrow> wb_message \<Rightarrow> bool" where
  "delivered source m m' \<longleftrightarrow> m_type m' = m_type m \<and>
     (m_type m = WB_HELLO \<longrightarrow>
        m_seqno m' = m_seqno m \<and> m_interval m' = m_interval m \<and> m_unicast m' = m_unicast m) \<and>
     (m_type m = WB_ACK_REQUEST \<longrightarrow> m_opaque m' = m_opaque m \<and> m_interval m' = m_interval m) \<and>
     (m_type m = WB_ACK \<longrightarrow> m_opaque m' = m_opaque m) \<and>
     (m_type m = WB_IHU \<longrightarrow> m_metric m' = m_metric m \<and> m_interval m' = m_interval m \<and>
        m_address_family m' = m_address_family m \<and> m_address m' = m_address m) \<and>
     (m_type m \<in> {WB_REQUEST, WB_SEQ_REQUEST, WB_UPDATE} \<longrightarrow> m_wildcard m' = m_wildcard m \<and>
        (\<not> m_wildcard m \<longrightarrow> m_prefix m' = m_prefix m)) \<and>
     (m_type m = WB_SEQ_REQUEST \<longrightarrow>
        m_seqno m' = m_seqno m \<and> m_hops m' = m_hops m \<and> m_router m' = m_router m) \<and>
     (m_type m = WB_UPDATE \<longrightarrow>
        m_interval m' = m_interval m \<and> m_seqno m' = m_seqno m \<and> m_metric m' = m_metric m \<and>
        (m_metric m \<noteq> WB_INFINITY \<longrightarrow> m_router m' = m_router m \<and>
           m_via6 m' = (m_via6 m \<and> p_family (m_prefix m) = 4) \<and>
           (m_address_family m', m_address m') =
             (if m_address_family m = 4 then (4, m_address m) else (6, source))))"

definition hop6_is :: "bytes \<Rightarrow> wb_context \<Rightarrow> bool" where
  "hop6_is source ctx \<longleftrightarrow> x_hop6 ctx = source \<and> x_family6 ctx = 6 \<and> length (x_previous ctx) = 5"

lemma prefix_size_le: "prefix_ok p \<Longrightarrow> prefix_size p \<le> 16"
  using bits_size_le [of "p_bits p" "p_family p = 4"]
  by (simp add: prefix_ok_def wb_prefix_valid_def prefix_size_def family_bits_def)

lemma unat_plus_of_nat: "unat (b :: u8) + n < 256 \<Longrightarrow> unat (b + of_nat n) = unat b + n"
  by (simp add: unat_word_ariths unat_of_nat)

lemma address_encoded4:
  assumes "length a = 16" "drop 4 a = zeros 12"
  shows "address 1 (take 4 a) = Some (a, 4, 4)"
proof -
  have "take 4 a @ zeros 12 = a"
    by (simp flip: assms(2))
  then show ?thesis
    using assms(1) by (simp add: address_def memcpy_at_def zeros_def)
qed

lemma address_encoded6: "length a = 16 \<Longrightarrow> address 2 a = Some (a, 6, 16)"
  by (simp add: address_def)

lemma prefix_ok_length: "prefix_ok p \<Longrightarrow> length (p_bytes p) = 16"
  by (simp add: prefix_ok_def)

lemma address_0: "address 0 p = Some (zeros 16, 0, 0)"
  by (simp add: address_def)

lemma length_encode_address:
  "length (m_address m) = 16 \<Longrightarrow>
    length (encode_address m) = (if m_address_family m = 4 then 4 else 16)"
  by (simp add: encode_address_def)


definition round_trip :: "bytes \<Rightarrow> wb_context \<Rightarrow> wb_message \<Rightarrow> bytes \<Rightarrow> bool" where
  "round_trip source ctx m bs \<longleftrightarrow> (\<exists>ctx' m'. hop6_is source ctx' \<and> delivered source m m' \<and>
     (\<forall>rest. frame_ok (bs @ rest) = frame_ok rest \<and>
       decode_tlvs ctx (bs @ rest) = m' # decode_tlvs ctx' rest))"


lemma round_tripI:
  assumes "t \<noteq> 0" "t \<noteq> WB_ROUTER" "t \<noteq> WB_NEXT_HOP" "length body = unat n"
    and "decode_tlv ctx t body = (ctx', Some (m', used))" "subs (drop used body)"
    and "hop6_is source ctx'" "delivered source m m'"
  shows "round_trip source ctx m (t # n # body)"
proof -
  have "frame_ok ((t # n # body) @ rest) = frame_ok rest \<and>
       decode_tlvs ctx ((t # n # body) @ rest) = m' # decode_tlvs ctx' rest" for rest
    using assms(1-6) by (simp only: append_Cons decode_tlvs_tlv frame_ok_tlv) simp
  with assms(7,8) show ?thesis unfolding round_trip_def by blast
qed

lemmas tlv_defs = decode_tlv_def decode_hello_def decode_ack_def decode_ihu_def decode_request_def
  u16_at_def u64_at_def message_def

lemma round_hello:
  assumes "m_type m = WB_HELLO" "hop6_is source ctx"
  shows "round_trip source ctx m (WB_HELLO # 6 # (if m_unicast m then 128 else 0) # 0 #
                   put16 (m_seqno m) @ put16 (m_interval m))"
  by (rule round_tripI [where ctx' = ctx and used = 6 and
        m' = "(message WB_HELLO)\<lparr>m_seqno := m_seqno m, m_opaque := m_seqno m,
               m_interval := m_interval m, m_unicast := m_unicast m\<rparr>"])
    (use assms in \<open>simp_all add: tlv_defs delivered_def\<close>)

lemma round_ack_request:
  assumes "m_type m = WB_ACK_REQUEST" "hop6_is source ctx" "m_interval m \<noteq> 0"
  shows "round_trip source ctx m (WB_ACK_REQUEST # 6 # 0 # 0 #
                   put16 (m_opaque m) @ put16 (m_interval m))"
  by (rule round_tripI [where ctx' = ctx and used = 6 and
        m' = "(message WB_ACK_REQUEST)\<lparr>m_seqno := m_opaque m, m_opaque := m_opaque m,
               m_interval := m_interval m\<rparr>"])
    (use assms in \<open>simp_all add: tlv_defs delivered_def\<close>)

lemma round_ack:
  assumes "m_type m = WB_ACK" "hop6_is source ctx"
  shows "round_trip source ctx m (WB_ACK # 2 # put16 (m_opaque m))"
  by (rule round_tripI [where ctx' = ctx and used = 2 and
        m' = "(message WB_ACK)\<lparr>m_opaque := m_opaque m\<rparr>"])
    (use assms in \<open>simp_all add: tlv_defs delivered_def\<close>)

lemma round_ihu:
  assumes "m_type m = WB_IHU" "hop6_is source ctx" "m_interval m \<noteq> 0"
    "length (m_address m) = 16"
    "ae = 0 \<and> m_address_family m = 0 \<and> m_address m = zeros 16 \<and> a = [] \<or>
     ae = 1 \<and> m_address_family m = 4 \<and> drop 4 (m_address m) = zeros 12 \<and> a = take 4 (m_address m) \<or>
     ae = 2 \<and> m_address_family m = 6 \<and> a = m_address m"
  shows "round_trip source ctx m (WB_IHU # (6 + of_nat (length a)) # ae # 0 #
                   put16 (m_metric m) @ put16 (m_interval m) @ a)"
proof -
  have "address ae a = Some (m_address m, m_address_family m, length a)"
    using assms(4,5) by (elim disjE) (simp_all add: address_encoded4 address_encoded6 address_0)
  moreover have "length a \<le> 16"
    using assms(4,5) by auto
  ultimately show ?thesis
    by (intro round_tripI [where ctx' = ctx and used = "6 + length a" and
        m' = "(message WB_IHU)\<lparr>m_address := m_address m, m_address_family := m_address_family m,
               m_metric := m_metric m, m_interval := m_interval m\<rparr>"])
      (use assms(1,2,3) in \<open>simp_all add: tlv_defs delivered_def unat_plus_of_nat\<close>)
qed

lemma round_request:
  assumes "m_type m = WB_REQUEST" "hop6_is source ctx" "\<not> m_wildcard m" "prefix_ok (m_prefix m)"
  shows "round_trip source ctx m (WB_REQUEST # (2 + of_nat (prefix_size (m_prefix m))) #
     (if p_family (m_prefix m) = 4 then 1 else 2) # p_bits (m_prefix m) #
     take (prefix_size (m_prefix m)) (p_bytes (m_prefix m)))"
  by (rule round_tripI [where ctx' = ctx and used = "2 + prefix_size (m_prefix m)" and
        m' = "(message WB_REQUEST)\<lparr>m_prefix := m_prefix m\<rparr>"])
    (use assms prefix_size_le [OF assms(4)] in \<open>simp_all add: tlv_defs delivered_def unat_plus_of_nat
      prefix_encoded prefix_ok_length\<close>)

lemma round_request_wildcard:
  assumes "m_type m = WB_REQUEST" "hop6_is source ctx" "m_wildcard m"
  shows "round_trip source ctx m [WB_REQUEST, 2, 0, 0]"
  by (rule round_tripI [where ctx' = ctx and used = 2 and
        m' = "(message WB_REQUEST)\<lparr>m_wildcard := True\<rparr>"])
    (use assms in \<open>simp_all add: tlv_defs delivered_def\<close>)

lemma round_seq_request:
  assumes "m_type m = WB_SEQ_REQUEST" "hop6_is source ctx" "\<not> m_wildcard m" "prefix_ok (m_prefix m)"
    "m_hops m \<noteq> 0" "m_router m \<noteq> 0" "m_router m \<noteq> UINT64_MAX"
  shows "round_trip source ctx m (WB_SEQ_REQUEST # (14 + of_nat (prefix_size (m_prefix m))) #
     (if p_family (m_prefix m) = 4 then 1 else 2) # p_bits (m_prefix m) #
     put16 (m_seqno m) @ m_hops m # 0 # put64 (m_router m) @
     take (prefix_size (m_prefix m)) (p_bytes (m_prefix m)))"
  by (rule round_tripI [where ctx' = ctx and used = "14 + prefix_size (m_prefix m)" and
        m' = "(message WB_SEQ_REQUEST)\<lparr>m_prefix := m_prefix m, m_seqno := m_seqno m,
          m_hops := m_hops m, m_router := m_router m\<rparr>"])
    (use assms prefix_size_le [OF assms(4)] in \<open>simp_all add: tlv_defs delivered_def unat_plus_of_nat
      nth_append
      prefix_encoded prefix_ok_length\<close>)

lemma round_trip_silent:
  assumes "t = WB_ROUTER \<or> t = WB_NEXT_HOP" "length body = unat n"
    and "decode_tlv ctx t body = (ctx1, r)" and "round_trip source ctx1 m bs"
  shows "round_trip source ctx m (t # n # body @ bs)"
proof -
  obtain ctx' m' where r: "hop6_is source ctx'" "delivered source m m'"
    "\<And>rest. frame_ok (bs @ rest) = frame_ok rest"
    "\<And>rest. decode_tlvs ctx1 (bs @ rest) = m' # decode_tlvs ctx' rest"
    using assms(4) unfolding round_trip_def by blast
  have t: "t \<noteq> 0" using assms(1) by auto
  have "frame_ok ((t # n # body @ bs) @ rest) = frame_ok rest \<and>
       decode_tlvs ctx ((t # n # body @ bs) @ rest) = m' # decode_tlvs ctx' rest" for rest
    using assms(1,3)
    by (simp only: append_Cons append_assoc decode_tlvs_tlv [OF t assms(2)] frame_ok_tlv [OF t assms(2)] r)
      (auto split: option.split simp: r)
  with r(1,2) show ?thesis unfolding round_trip_def by blast
qed

lemma decode_update_encoded:
  fixes m ctx ae
  defines "family \<equiv> (if ae = 1 then x_family4 ctx else x_family6 ctx)"
  assumes ae: "ae \<noteq> 0" "\<not> 4 < ae" and "m_interval m \<noteq> 0"
    and pre: "\<And>prev. prefix ae (p_bits (m_prefix m)) 0 rest prev = Some (m_prefix m, n)"
    and fin: "m_metric m \<noteq> WB_INFINITY \<longrightarrow>
      x_router ctx \<noteq> 0 \<and> x_router ctx \<noteq> UINT64_MAX \<and> family \<noteq> 0"
  shows "decode_update ctx (ae # 0 # p_bits (m_prefix m) # 0 #
      put16 (m_interval m) @ put16 (m_seqno m) @ put16 (m_metric m) @ rest) =
    (ctx, Some ((message WB_UPDATE)\<lparr>m_interval := m_interval m, m_seqno := m_seqno m,
      m_metric := m_metric m, m_via6 := (ae = 4), m_prefix := m_prefix m, m_router := x_router ctx,
      m_address := (if ae = 1 then x_hop4 ctx else x_hop6 ctx), m_address_family := family\<rparr>, 10 + n))"
  unfolding decode_update_def using assms(4) ae fin pre
  by (cases "ae = 1"; cases "m_metric m = WB_INFINITY")
    (simp_all add: Let_def u16_at_def message_def family_def)

lemma round_update_tail:
  assumes "m_type m = WB_UPDATE" "hop6_is source ctx" "\<not> m_wildcard m" "prefix_ok (m_prefix m)"
    "m_interval m \<noteq> 0"
    and fin: "m_metric m \<noteq> WB_INFINITY \<Longrightarrow> x_router ctx = m_router m \<and> m_router m \<noteq> 0 \<and>
      m_router m \<noteq> UINT64_MAX \<and>
      (if update_ae m = 1 then m_address_family m = 4 \<and> x_family4 ctx = 4 \<and> x_hop4 ctx = m_address m
       else m_address_family m \<noteq> 4)"
  shows "round_trip source ctx m (WB_UPDATE # (10 + of_nat (prefix_size (m_prefix m))) #
     update_ae m # 0 # p_bits (m_prefix m) # 0 # put16 (m_interval m) @ put16 (m_seqno m) @
     put16 (m_metric m) @ take (prefix_size (m_prefix m)) (p_bytes (m_prefix m)))"
proof -
  let ?ae = "update_ae m" let ?n = "prefix_size (m_prefix m)"
  let ?m' = "(message WB_UPDATE)\<lparr>m_interval := m_interval m, m_seqno := m_seqno m,
      m_metric := m_metric m, m_via6 := (?ae = 4), m_prefix := m_prefix m, m_router := x_router ctx,
      m_address := (if ?ae = 1 then x_hop4 ctx else x_hop6 ctx),
      m_address_family := (if ?ae = 1 then x_family4 ctx else x_family6 ctx)\<rparr>"
  have ae: "?ae \<noteq> 0" "\<not> 4 < ?ae" "?ae = 4 \<longleftrightarrow> m_via6 m \<and> p_family (m_prefix m) = 4"
    by (simp_all add: update_ae_def)
  have dec: "decode_update ctx (?ae # 0 # p_bits (m_prefix m) # 0 # put16 (m_interval m) @
      put16 (m_seqno m) @ put16 (m_metric m) @ take ?n (p_bytes (m_prefix m))) = (ctx, Some (?m', 10 + ?n))"
  proof (rule decode_update_encoded [OF ae(1,2) assms(5)])
    show "prefix ?ae (p_bits (m_prefix m)) 0 (take ?n (p_bytes (m_prefix m))) prev
        = Some (m_prefix m, ?n)" for prev
      by (rule prefix_encoded [OF assms(4)]) (simp add: update_ae_def)
    show "m_metric m \<noteq> WB_INFINITY \<longrightarrow> x_router ctx \<noteq> 0 \<and> x_router ctx \<noteq> UINT64_MAX \<and>
        (if ?ae = 1 then x_family4 ctx else x_family6 ctx) \<noteq> 0"
      using fin assms(2) by (auto simp: hop6_is_def)
  qed
  have del: "delivered source m ?m'"
    using assms(1,2,3) fin by (auto simp: delivered_def message_def hop6_is_def ae(3))
  show ?thesis
    by (rule round_tripI [where ctx' = ctx and m' = ?m' and used = "10 + ?n"])
      (use prefix_size_le [OF assms(4)] prefix_ok_length [OF assms(4)] assms(2) dec del
        in \<open>simp_all add: decode_tlv_def unat_plus_of_nat\<close>)
qed

lemma round_update_wildcard:
  assumes "m_type m = WB_UPDATE" "hop6_is source ctx" "m_wildcard m" "m_interval m \<noteq> 0"
    "m_metric m = WB_INFINITY"
  shows "round_trip source ctx m (WB_UPDATE # 10 # 0 # 0 # 0 # 0 # put16 (m_interval m) @
     put16 (m_seqno m) @ put16 (m_metric m))"
  by (rule round_tripI [where ctx' = ctx and used = 10 and
        m' = "(message WB_UPDATE)\<lparr>m_wildcard := True, m_interval := m_interval m,
          m_seqno := m_seqno m, m_metric := m_metric m\<rparr>"])
    (use assms in \<open>simp_all add: decode_tlv_def decode_update_def Let_def u16_at_def message_def delivered_def\<close>)

lemma round_update:
  assumes "m_type m = WB_UPDATE" "sendable m" "hop6_is source ctx"
  shows "round_trip source ctx m (encode_update m)"
proof (cases "m_metric m = WB_INFINITY")
  case True
  with assms show ?thesis
    using round_update_wildcard [of m source ctx] round_update_tail [of m source ctx]
    by (auto simp: encode_update_def sendable_def)
next
  case False
  let ?ctx1 = "ctx\<lparr>x_router := m_router m\<rparr>"
  let ?tail = "WB_UPDATE # (10 + of_nat (prefix_size (m_prefix m))) #
     update_ae m # 0 # p_bits (m_prefix m) # 0 # put16 (m_interval m) @ put16 (m_seqno m) @
     put16 (m_metric m) @ take (prefix_size (m_prefix m)) (p_bytes (m_prefix m))"
  have s: "\<not> m_wildcard m" "prefix_ok (m_prefix m)" "m_interval m \<noteq> 0" "m_router m \<noteq> 0"
    "m_router m \<noteq> UINT64_MAX" "length (m_address m) = 16"
    "m_address_family m = (if update_ae m = 1 then 4 else 0)"
    "m_address_family m = 4 \<longrightarrow> drop 4 (m_address m) = zeros 12"
    using assms(1,2) False by (auto simp: sendable_def update_ae_def split: if_splits)
  have router: "decode_tlv ctx WB_ROUTER (0 # 0 # put64 (m_router m)) =
      (?ctx1, Some ((message WB_ROUTER)\<lparr>m_router := m_router m\<rparr>, 10))"
    by (simp add: decode_tlv_def decode_router_def u64_at_def)
  have hop6: "hop6_is source ?ctx1" "hop6_is source (?ctx1\<lparr>x_hop4 := a, x_family4 := f\<rparr>)" for a f
    using assms(3) by (simp_all add: hop6_is_def)
  show ?thesis
  proof (cases "update_ae m = 1")
    case True
    let ?ctx2 = "?ctx1\<lparr>x_hop4 := m_address m, x_family4 := 4\<rparr>"
    have nh: "decode_tlv ?ctx1 WB_NEXT_HOP (1 # 0 # take 4 (m_address m)) =
        (?ctx2, Some ((message WB_NEXT_HOP)\<lparr>m_address := m_address m, m_address_family := 4\<rparr>, 6))"
      using s True by (simp add: decode_tlv_def decode_next_hop_def address_encoded4)
    have "round_trip source ?ctx2 m ?tail"
      by (rule round_update_tail) (use assms s True hop6 in simp_all)
    then have "round_trip source ?ctx1 m (WB_NEXT_HOP # 6 # (1 # 0 # take 4 (m_address m)) @ ?tail)"
      by (rule round_trip_silent [OF _ _ nh, rotated -1]) (use s in simp_all)
    then have "round_trip source ctx m (WB_ROUTER # 10 # (0 # 0 # put64 (m_router m)) @
        (WB_NEXT_HOP # 6 # (1 # 0 # take 4 (m_address m)) @ ?tail))"
      by (rule round_trip_silent [OF _ _ router, rotated -1]) simp_all
    with s True False show ?thesis
      by (simp add: encode_update_def encode_address_def)
  next
    case ae: False
    have "round_trip source ?ctx1 m ?tail"
      by (rule round_update_tail) (use assms s ae hop6 in simp_all)
    then have "round_trip source ctx m (WB_ROUTER # 10 # (0 # 0 # put64 (m_router m)) @ ?tail)"
      by (rule round_trip_silent [OF _ _ router, rotated -1]) simp_all
    with s ae False show ?thesis by (simp add: encode_update_def)
  qed
qed

lemma prefix_size_valid: "wb_prefix_valid p \<Longrightarrow> prefix_size p \<le> 16"
  using bits_size_le [of "p_bits p" "p_family p = 4"]
  by (simp add: wb_prefix_valid_def prefix_size_def family_bits_def)

lemma length_encode_update:
  "m_wildcard m \<or> wb_prefix_valid (m_prefix m) \<Longrightarrow> length (encode_update m) \<le> 60"
  using prefix_size_valid [of "m_prefix m"] by (auto simp: encode_update_def encode_address_def)

lemma length_encode_request:
  "m_wildcard m \<or> wb_prefix_valid (m_prefix m) \<Longrightarrow> length (encode_request m) \<le> 32"
  using prefix_size_valid [of "m_prefix m"] by (auto simp: encode_request_def Let_def)

lemma length_wb_encode: "length (wb_encode m cap) \<le> min 60 cap"
  using length_encode_update [of m] length_encode_request [of m]
  by (auto simp: wb_encode_def Let_def encode_address_def not_less)

lemma sendable_valid:
  "sendable m \<Longrightarrow> m_type m \<in> {WB_UPDATE, WB_REQUEST, WB_SEQ_REQUEST} \<Longrightarrow>
    m_wildcard m \<or> wb_prefix_valid (m_prefix m)"
  by (auto simp: sendable_def prefix_ok_def)

lemma wb_encode_update:
  assumes "sendable m" "m_type m = WB_UPDATE"
  shows "wb_encode m 64 = encode_update m"
proof -
  have v: "m_wildcard m \<or> wb_prefix_valid (m_prefix m)"
    using sendable_valid [OF assms(1)] assms(2) by simp
  have "m_address_family m = 0 \<or> m_address_family m = 4 \<or> m_address_family m = 6"
    using assms(1) by (simp add: sendable_def)
  then show ?thesis
    using v length_encode_update [OF v] assms(2) by (auto simp: wb_encode_def)
qed

lemma wb_encode_request:
  assumes "sendable m" "m_type m = WB_REQUEST \<or> m_type m = WB_SEQ_REQUEST"
  shows "wb_encode m 64 = encode_request m"
proof -
  have v: "m_wildcard m \<or> wb_prefix_valid (m_prefix m)"
    using sendable_valid [OF assms(1)] assms(2) by auto
  have "m_address_family m = 0 \<or> m_address_family m = 4 \<or> m_address_family m = 6"
    using assms(1) by (simp add: sendable_def)
  then show ?thesis
    using v length_encode_request [OF v] assms(2) by (auto simp: wb_encode_def)
qed

lemma sendable_types:
  "sendable m \<Longrightarrow> m_type m \<in> {WB_HELLO, WB_ACK, WB_ACK_REQUEST, WB_IHU, WB_REQUEST,
     WB_SEQ_REQUEST, WB_UPDATE}"
  by (auto simp: sendable_def)

lemma round_trip_encode:
  assumes "sendable m" "hop6_is source ctx"
  shows "round_trip source ctx m (wb_encode m 64)"
proof -
  have fam: "m_address_family m = 0 \<or> m_address_family m = 4 \<or> m_address_family m = 6"
    and len: "length (m_address m) = 16"
    using assms(1) by (simp_all add: sendable_def)
  consider "m_type m = WB_HELLO" | "m_type m = WB_ACK" | "m_type m = WB_ACK_REQUEST"
    | "m_type m = WB_IHU" | "m_type m = WB_REQUEST" | "m_type m = WB_SEQ_REQUEST"
    | "m_type m = WB_UPDATE"
    using sendable_types [OF assms(1)] by blast
  then show ?thesis
  proof cases
    case 1
    with round_hello [OF 1 assms(2)] fam show ?thesis by (auto simp: wb_encode_def)
  next
    case 2
    with round_ack [OF 2 assms(2)] fam show ?thesis by (auto simp: wb_encode_def)
  next
    case 3
    with assms have "m_interval m \<noteq> 0" by (simp add: sendable_def)
    with 3 round_ack_request [OF 3 assms(2)] fam show ?thesis by (auto simp: wb_encode_def)
  next
    case 4
    with assms have i: "m_interval m \<noteq> 0" by (simp add: sendable_def)
    show ?thesis
      using fam
    proof (elim disjE)
      assume "m_address_family m = 0"
      with 4 assms(1) round_ihu [OF 4 assms(2) i len, of 0 "[]"] show ?thesis
        by (simp add: wb_encode_def sendable_def)
    next
      assume "m_address_family m = 4"
      with 4 len assms(1) round_ihu [OF 4 assms(2) i len, of 1 "take 4 (m_address m)"] show ?thesis
        by (simp add: wb_encode_def sendable_def encode_address_def)
    next
      assume "m_address_family m = 6"
      with 4 len assms(1) round_ihu [OF 4 assms(2) i len, of 2 "m_address m"] show ?thesis
        by (simp add: wb_encode_def sendable_def encode_address_def)
    qed
  next
    case 5
    with assms(1) have "m_wildcard m \<or> prefix_ok (m_prefix m)" by (simp add: sendable_def)
    with 5 assms wb_encode_request [OF assms(1)] round_request [OF 5 assms(2)]
      round_request_wildcard [OF 5 assms(2)] show ?thesis
      by (cases "m_wildcard m") (auto simp: encode_request_def)
  next
    case 6
    with assms(1) have s: "\<not> m_wildcard m" "prefix_ok (m_prefix m)" "m_hops m \<noteq> 0" "m_router m \<noteq> 0"
      "m_router m \<noteq> UINT64_MAX" by (simp_all add: sendable_def)
    with 6 assms wb_encode_request [OF assms(1)] round_seq_request [OF 6 assms(2) s] show ?thesis
      by (simp add: encode_request_def)
  next
    case 7
    then show ?thesis
      using round_update [OF 7 assms] wb_encode_update [OF assms(1) 7] by simp
  qed
qed

lemma round_trips:
  "\<forall>m\<in>set ms. sendable m \<Longrightarrow> hop6_is source ctx \<Longrightarrow>
    frame_ok (concat (map (\<lambda>m. wb_encode m 64) ms)) \<and>
    list_all2 (delivered source) ms (decode_tlvs ctx (concat (map (\<lambda>m. wb_encode m 64) ms)))"
proof (induction ms arbitrary: ctx)
  case Nil
  then show ?case by simp
next
  case (Cons m ms)
  then have "round_trip source ctx m (wb_encode m 64)"
    by (simp add: round_trip_encode)
  then obtain ctx' m' where "hop6_is source ctx'" "delivered source m m'"
    "\<And>rest. frame_ok (wb_encode m 64 @ rest) = frame_ok rest"
    "\<And>rest. decode_tlvs ctx (wb_encode m 64 @ rest) = m' # decode_tlvs ctx' rest"
    unfolding round_trip_def by blast
  with Cons.IH [of ctx'] Cons.prems(1) show ?case by simp
qed

definition wb_frame :: "bytes \<Rightarrow> bytes" where
  "wb_frame body = [42, 2] @ put16 (of_nat (length body)) @ body"

lemma packet_round_trip:
  assumes "\<forall>m\<in>set ms. sendable m" "length (concat (map (\<lambda>m. wb_encode m 64) ms)) < 65536"
  shows "\<exists>ms'. wb_decode (wb_frame (concat (map (\<lambda>m. wb_encode m 64) ms))) source = Some ms' \<and>
    list_all2 (delivered source) ms ms'"
proof -
  let ?b = "concat (map (\<lambda>m. wb_encode m 64) ms)"
  have "hop6_is source (initial_context source)"
    by (simp add: hop6_is_def initial_context_def)
  note rt = round_trips [OF assms(1) this]
  have len: "unat (of_nat (length ?b) :: u16) = length ?b"
    using assms(2) by (simp add: unat_of_nat)
  have "wb_decode (wb_frame ?b) source = Some (decode_tlvs (initial_context source) ?b)"
    using rt by (simp add: wb_decode_def wb_frame_def u16_at_def len Let_def del: length_concat)
  with rt show ?thesis by blast
qed

section \<open>What the decoder hands to its visitor\<close>

definition received_ok :: "wb_message \<Rightarrow> bool" where
  "received_ok m \<longleftrightarrow> length (m_address m) = 16 \<and> m_address_family m \<in> {0, 4, 6} \<and>
     (m_type m \<in> {WB_HELLO, WB_ACK} \<or>
      m_type m \<in> {WB_ACK_REQUEST, WB_IHU} \<and> m_interval m \<noteq> 0 \<or>
      m_type m = WB_REQUEST \<and> (m_wildcard m \<or> prefix_ok (m_prefix m)) \<or>
      m_type m = WB_SEQ_REQUEST \<and> \<not> m_wildcard m \<and> prefix_ok (m_prefix m) \<and> m_hops m \<noteq> 0 \<and>
        m_router m \<noteq> 0 \<and> m_router m \<noteq> UINT64_MAX \<or>
      m_type m = WB_UPDATE \<and> m_interval m \<noteq> 0 \<and>
        (m_wildcard m \<and> m_metric m = WB_INFINITY \<or>
         \<not> m_wildcard m \<and> prefix_ok (m_prefix m) \<and>
         (m_metric m \<noteq> WB_INFINITY \<longrightarrow> m_router m \<noteq> 0 \<and> m_router m \<noteq> UINT64_MAX \<and>
            m_address_family m \<noteq> 0)))"

definition context_ok :: "wb_context \<Rightarrow> bool" where
  "context_ok ctx \<longleftrightarrow> length (x_previous ctx) = 5 \<and>
     (\<forall>p\<in>set (x_previous ctx). length (p_bytes p) = 16) \<and>
     length (x_hop4 ctx) = 16 \<and> x_family4 ctx \<in> {0, 4} \<and>
     length (x_hop6 ctx) = 16 \<and> x_family6 ctx = 6"

definition arm_ok :: "u8 \<Rightarrow> tlv_result \<Rightarrow> bool" where
  "arm_ok t r \<longleftrightarrow> context_ok (fst r) \<and>
     (t \<noteq> WB_ROUTER \<longrightarrow> t \<noteq> WB_NEXT_HOP \<longrightarrow>
       (case snd r of None \<Rightarrow> True | Some (m, _) \<Rightarrow> received_ok m))"

lemma address_SomeD:
  "address ae p = Some (a, f, z) \<Longrightarrow> length a = 16 \<and> f = (if ae = 0 then 0 else if ae = 1 then 4 else 6)"
  by (auto simp: address_def split: if_split_asm)

lemma zero_prefix_length [simp]: "length (p_bytes zero_prefix) = 16"
  by (simp add: zero_prefix_def)

lemma message_simps [simp]:
  "length (m_address (message t)) = 16" "m_address_family (message t) = 0" "m_type (message t) = t"
  "\<not> m_wildcard (message t)" "m_metric (message t) = 0"
  by (simp_all add: message_def)

lemma decode_hello_ok: "context_ok ctx \<Longrightarrow> t = WB_HELLO \<or> t = WB_ACK_REQUEST \<Longrightarrow> arm_ok t (decode_hello ctx t p)"
  by (auto simp: arm_ok_def decode_hello_def Let_def received_ok_def)

lemma decode_ack_ok: "context_ok ctx \<Longrightarrow> arm_ok WB_ACK (decode_ack ctx p)"
  by (auto simp: arm_ok_def decode_ack_def received_ok_def)

lemma decode_ihu_ok: "context_ok ctx \<Longrightarrow> arm_ok WB_IHU (decode_ihu ctx p)"
  by (auto simp: arm_ok_def decode_ihu_def Let_def received_ok_def dest!: address_SomeD
      split: option.split if_splits)

lemma decode_router_ok: "context_ok ctx \<Longrightarrow> arm_ok WB_ROUTER (decode_router ctx p)"
  by (auto simp: arm_ok_def decode_router_def context_ok_def)

lemma decode_next_hop_ok: "context_ok ctx \<Longrightarrow> arm_ok WB_NEXT_HOP (decode_next_hop ctx p)"
  by (auto simp: arm_ok_def decode_next_hop_def context_ok_def dest!: address_SomeD
      split: option.split if_splits)

lemma decode_request_ok:
  assumes "context_ok ctx" "t = WB_REQUEST \<or> t = WB_SEQ_REQUEST"
  shows "arm_ok t (decode_request ctx t p)"
  using assms(2)
proof
  assume t: "t = WB_REQUEST"
  show ?thesis
    using assms(1)
    by (auto simp: t arm_ok_def decode_request_def Let_def received_ok_def
        dest!: prefix_SomeD(1) split: option.split)
next
  assume t: "t = WB_SEQ_REQUEST"
  show ?thesis
    using assms(1)
    by (auto simp: t arm_ok_def decode_request_def Let_def received_ok_def
        dest!: prefix_SomeD(1) split: option.split)
qed

lemma context_ok_router: "context_ok (ctx\<lparr>x_router := r\<rparr>) = context_ok ctx"
  by (simp add: context_ok_def)

lemma decode_update_ok:
  assumes "context_ok ctx"
  shows "arm_ok WB_UPDATE (decode_update ctx p)"
proof (cases "prefix (p ! 0) (p ! 2) (p ! 3) (drop 10 p) (x_previous ctx ! unat (p ! 0))")
  case None
  with assms show ?thesis
    by (simp add: arm_ok_def decode_update_def Let_def received_ok_def)
next
  case (Some r)
  obtain pre z where r: "r = (pre, z)" by (cases r)
  show ?thesis
  proof (cases "4 < p ! 0")
    case True
    with assms show ?thesis
      by (simp add: arm_ok_def decode_update_def Let_def received_ok_def)
  next
    case False
    then have "unat (p ! 0) < 5" by (simp add: not_less word_le_nat_alt)
    then have "length (p_bytes (x_previous ctx ! unat (p ! 0))) = 16"
      using assms by (auto simp: context_ok_def)
    with Some r have pre: "prefix_ok pre" by (auto dest: prefix_SomeD(1))
    then have ctx: "context_ok (ctx\<lparr>x_previous := (x_previous ctx)[k := pre]\<rparr>)" for k
      using assms by (auto simp: context_ok_def prefix_ok_length dest!: set_list_updateD)
    have hops: "length (x_hop4 ctx) = 16" "length (x_hop6 ctx) = 16" "x_family6 ctx = 6"
      "x_family4 ctx = 0 \<or> x_family4 ctx = 4"
      using assms by (auto simp: context_ok_def)
    show ?thesis
      using hops(4) assms Some r False pre ctx hops(1-3)
      by (elim disjE) (simp_all add: arm_ok_def decode_update_def Let_def received_ok_def context_ok_router)
  qed
qed

lemma decode_tlv_ok: "context_ok ctx \<Longrightarrow> arm_ok t (decode_tlv ctx t p)"
  unfolding decode_tlv_def
  by (simp add: decode_hello_ok decode_ack_ok decode_ihu_ok decode_next_hop_ok decode_router_ok
      decode_update_ok decode_request_ok) (simp add: arm_ok_def)

lemma decode_tlvs_ok: "context_ok ctx \<Longrightarrow> m \<in> set (decode_tlvs ctx p) \<Longrightarrow> received_ok m"
proof (induction ctx p rule: decode_tlvs.induct)
  case (1 ctx)
  then show ?case by simp
next
  case (2 ctx t p)
  show ?case
  proof (cases "t = 0 \<or> p = []")
    case True
    with 2 show ?thesis by (auto split: list.splits)
  next
    case False
    then obtain n q where p: "p = n # q" and t: "t \<noteq> 0" by (cases p) auto
    obtain ctx' r where d: "decode_tlv ctx t (take (unat n) q) = (ctx', r)" by fastforce
    have ok: "arm_ok t (ctx', r)" using decode_tlv_ok [OF "2.prems"(1), of t "take (unat n) q"] d by simp
    then have ctx': "context_ok ctx'" by (simp add: arm_ok_def)
    show ?thesis
    proof (cases r)
      case None
      then show ?thesis
        using "2.IH"(2) [OF t p refl refl d [symmetric]] "2.prems"(2) ctx' t d p by simp
    next
      case (Some mu)
      obtain m' used where mu: "mu = (m', used)" by (cases mu)
      have "m = m' \<and> t \<noteq> WB_ROUTER \<and> t \<noteq> WB_NEXT_HOP \<or> m \<in> set (decode_tlvs ctx' (drop (unat n) q))"
        using "2.prems"(2) t d p Some mu by (auto simp: Let_def split: if_splits)
      then show ?thesis
      proof
        assume "m = m' \<and> t \<noteq> WB_ROUTER \<and> t \<noteq> WB_NEXT_HOP"
        with ok Some mu show ?thesis by (simp add: arm_ok_def)
      next
        assume m: "m \<in> set (decode_tlvs ctx' (drop (unat n) q))"
        then show ?thesis
          using "2.IH"(3-5) [OF t p refl refl d [symmetric]] "2.prems"(1) Some mu ctx'
          by blast
      qed
    qed
  qed
qed

section \<open>Properties of the codec\<close>

text \<open>C5: every list of sendable messages that fits a packet, encoded and framed as
  \<open>wb_next_packet\<close> frames it, decodes at the receiver to exactly those messages, in order.\<close>

theorem wire_round_trip:
  assumes "\<forall>m\<in>set ms. sendable m"
    and "length (concat (map (\<lambda>m. wb_encode m 64) ms)) < 65536"
  shows "\<exists>ms'. wb_decode (wb_frame (concat (map (\<lambda>m. wb_encode m 64) ms))) source = Some ms' \<and>
    list_all2 (delivered source) ms ms'"
  using assms by (rule packet_round_trip)

theorem wire_round_trip_witness:
  "\<exists>ms'. wb_decode (wb_frame (concat (map (\<lambda>m. wb_encode m 64)
        [(message WB_HELLO)\<lparr>m_seqno := 7, m_interval := 400\<rparr>,
         (message WB_REQUEST)\<lparr>m_wildcard := True\<rparr>]))) (zeros 16) = Some ms' \<and>
    list_all2 (delivered (zeros 16))
      [(message WB_HELLO)\<lparr>m_seqno := 7, m_interval := 400\<rparr>,
       (message WB_REQUEST)\<lparr>m_wildcard := True\<rparr>] ms'"
  by (rule wire_round_trip) (simp_all add: sendable_def message_def wb_encode_def encode_request_def)

text \<open>C6: whatever bytes arrive, each message the decoder hands to its visitor is well formed: its
  prefix is valid, its router id is not reserved, hop counts and intervals are non-zero, and only a
  retraction may be a wildcard update.\<close>

theorem wb_decode_received_ok:
  assumes "length source = 16" and "wb_decode packet source = Some ms" and "m \<in> set ms"
  shows "received_ok m"
proof -
  have "context_ok (initial_context source)"
    using assms(1) by (simp add: context_ok_def initial_context_def zero_prefix_def)
  then show ?thesis
    using assms(2,3) by (auto simp: wb_decode_def Let_def split: if_splits dest: decode_tlvs_ok)
qed

theorem wb_decode_received_ok_witness:
  "received_ok ((message WB_ACK)\<lparr>m_opaque := 258\<rparr>)"
  by (rule wb_decode_received_ok [of "zeros 16" "[42, 2, 0, 4, 3, 2, 1, 2]"
        "[(message WB_ACK)\<lparr>m_opaque := 258\<rparr>]"])
    (simp_all add: wb_decode_def u16_at_def get16_def get_be_def decode_tlv_def decode_ack_def)

text \<open>C11: the encoder never writes past the capacity it is given, and never more than 60 of the 64
  bytes of its scratch buffer, for any message and any capacity.\<close>

theorem wb_encode_bounds: "length (wb_encode m cap) \<le> cap \<and> length (wb_encode m cap) \<le> 60"
  using length_wb_encode [of m cap] by simp

text \<open>C12: masking a prefix keeps exactly the first \<open>bits\<close> bits of its address and clears the
  others, so two addresses agree under the mask iff they agree on those bits.\<close>

theorem wb_prefix_mask_bits:
  "(i < 8 * length (p_bytes p) \<longrightarrow>
      addr_bit (p_bytes (wb_prefix_mask p)) i \<longleftrightarrow> i < unat (p_bits p) \<and> addr_bit (p_bytes p) i)"
  by (simp add: wb_prefix_mask_def addr_bit_mask)

theorem wb_prefix_mask_bits_witness:
  "addr_bit (p_bytes (wb_prefix_mask \<lparr>p_bytes = [0xff, 0xff], p_bits = 9, p_family = 6\<rparr>)) 8"
  using wb_prefix_mask_bits [of 8 "\<lparr>p_bytes = [0xff, 0xff], p_bits = 9, p_family = 6\<rparr>"]
  by (simp add: addr_bit_def)

end
