(* ===== verification/Babel_Storage.thy ===== *)
theory Babel_Storage
  imports Babel_Wire
begin

text \<open>
  The engine's state (\<open>components/wendy_babel/include/wendy_babel.h\<close>) and its lazily grown
  tables (\<open>src/storage.c\<close>). An array with a capacity is a list of that many slots; the arrays
  that are filled from the front up to a count (routes, before, messages) are the list of the
  entries below the count, with the capacity beside it. Sizes and counts are natural numbers, all
  other integers keep their width.

  Compile-time ceilings (\<open>WB_*\<close>) and the item sizes of the target are the record
  \<open>wb_build\<close>. The allocator is outside this component: \<open>allocate k n\<close> says whether call
  number \<open>k\<close> for \<open>n\<close> bytes returns memory, so every theorem holds for every pattern of
  allocation failures.
\<close>

section \<open>The engine's records\<close>

record wb_route =
  r_prefix :: wb_prefix
  r_next_hop :: bytes
  r_next_family :: u8
  r_router :: u64
  r_link :: u64
  r_seqno :: u16
  r_metric :: u16
  r_local :: bool
  r_unreachable :: bool

record wb_link =
  l_id :: u64
  l_local :: bytes
  l_peer :: bytes
  l_ipv4 :: bytes
  l_cost :: u16
  l_max_packet :: u16
  l_hello_ms :: u32

record wb_link_state =
  ls_config :: wb_link
  ls_hello_expires :: "u64 list"
  ls_ihu_expires :: u64
  ls_next_hello :: u64
  ls_next_ihu :: u64
  ls_next_update :: u64
  ls_last_dump :: u64
  ls_hello_rx :: "u16 list"
  ls_hello_seq :: u16
  ls_tx :: u16
  ls_hello_seen :: "bool list"
  ls_dumped :: bool

record wb_candidate =
  c_route :: wb_route
  c_expires :: u64
  c_interval_ms :: u32
  c_advertised :: u16
  c_used :: bool
  c_refresh_requested :: bool

record wb_source =
  s_prefix :: wb_prefix
  s_router :: u64
  s_expires :: u64
  s_seqno :: u16
  s_metric :: u16
  s_used :: bool

record wb_local =
  lo_prefix :: wb_prefix
  lo_metric :: u16
  lo_used :: bool

record wb_drop =
  d_prefix :: wb_prefix
  d_expires :: u64
  d_used :: bool

record wb_request_state =
  q_message :: wb_message
  q_targets :: "u64 list"
  q_from :: u64
  q_next :: u64
  q_expires :: u64
  q_remaining :: u8
  q_used :: bool

record wb_queued =
  qd_message :: wb_message
  qd_link :: u64

record wb_build =
  b_links :: nat
  b_routes :: nat
  b_candidates :: nat
  b_sources :: nat
  b_requests :: nat
  b_messages :: nat
  b_sizeof_link :: nat
  b_sizeof_candidate :: nat
  b_sizeof_source :: nat
  b_sizeof_local :: nat
  b_sizeof_drop :: nat
  b_sizeof_request :: nat
  b_sizeof_route :: nat
  b_sizeof_queued :: nat
  b_sizeof_engine :: nat
  b_size_max :: nat
  b_malloc :: "nat \<Rightarrow> nat \<Rightarrow> bool"

record wb_config =
  cfg_router :: u64
  cfg_seed :: u64
  cfg_seqno :: u16
  cfg_hello_ms :: u32
  cfg_update_ms :: u32
  cfg_source_ms :: u32
  cfg_ipv4_via_ipv6 :: bool
  cfg_local_only :: bool
  cfg_allow :: "(u64 \<Rightarrow> wb_prefix \<Rightarrow> u16 \<Rightarrow> bool) option"
  cfg_allocate :: "(nat \<Rightarrow> nat \<Rightarrow> bool) option"
  cfg_deallocate :: bool
  cfg_build :: wb_build

record wb_counters =
  n_received :: u64
  n_malformed :: u64
  n_rejected :: u64
  n_sent :: u64
  n_queue_drops :: u64
  n_allocation_failures :: u64

text \<open>
  What the allocator knows: how often it was called, and the blocks it has handed out and not got back.
  A block is named by its size.
\<close>

record wb_heap =
  h_calls :: nat
  h_blocks :: "nat multiset"

record wb_engine =
  e_config :: wb_config
  e_now :: u64
  e_rng :: u64
  e_last_link :: u64
  e_revision :: u64
  e_pending :: u64
  e_trigger_at :: u64
  e_seqno :: u16
  e_repeats :: u8
  e_trigger :: bool
  e_stopped :: bool
  e_ready :: bool
  e_links :: "wb_link_state list"
  e_candidates :: "wb_candidate list"
  e_sources :: "wb_source list"
  e_local :: "wb_local list"
  e_drops :: "wb_drop list"
  e_requests :: "wb_request_state list"
  e_routes :: "wb_route list"
  e_routes_capacity :: nat
  e_before :: "wb_route list"
  e_before_capacity :: nat
  e_scratch_capacity :: nat
  e_allocated_bytes :: nat
  e_peak_bytes :: nat
  e_heap :: wb_heap
  e_messages :: "wb_queued list"
  e_messages_capacity :: nat
  e_message_cursor :: nat
  e_counters :: wb_counters

abbreviation e_build :: "wb_engine \<Rightarrow> wb_build" where
  "e_build e \<equiv> cfg_build (e_config e)"

text \<open>Zeroed slots, as \<open>memset\<close> and \<open>calloc\<close> leave them.\<close>

definition zero_route :: wb_route where
  "zero_route = \<lparr>r_prefix = zero_prefix, r_next_hop = zeros 16, r_next_family = 0, r_router = 0,
     r_link = 0, r_seqno = 0, r_metric = 0, r_local = False, r_unreachable = False\<rparr>"

definition zero_link :: wb_link where
  "zero_link = \<lparr>l_id = 0, l_local = zeros 16, l_peer = zeros 16, l_ipv4 = zeros 4, l_cost = 0,
     l_max_packet = 0, l_hello_ms = 0\<rparr>"

definition zero_link_state :: wb_link_state where
  "zero_link_state = \<lparr>ls_config = zero_link, ls_hello_expires = [0, 0], ls_ihu_expires = 0,
     ls_next_hello = 0, ls_next_ihu = 0, ls_next_update = 0, ls_last_dump = 0,
     ls_hello_rx = [0, 0], ls_hello_seq = 0, ls_tx = 0, ls_hello_seen = [False, False],
     ls_dumped = False\<rparr>"

definition zero_candidate :: wb_candidate where
  "zero_candidate = \<lparr>c_route = zero_route, c_expires = 0, c_interval_ms = 0, c_advertised = 0,
     c_used = False, c_refresh_requested = False\<rparr>"

definition zero_source :: wb_source where
  "zero_source = \<lparr>s_prefix = zero_prefix, s_router = 0, s_expires = 0, s_seqno = 0, s_metric = 0,
     s_used = False\<rparr>"

definition zero_local :: wb_local where
  "zero_local = \<lparr>lo_prefix = zero_prefix, lo_metric = 0, lo_used = False\<rparr>"

definition zero_drop :: wb_drop where
  "zero_drop = \<lparr>d_prefix = zero_prefix, d_expires = 0, d_used = False\<rparr>"

definition zero_request :: wb_request_state where
  "zero_request = \<lparr>q_message = message 0, q_targets = [], q_from = 0, q_next = 0, q_expires = 0,
     q_remaining = 0, q_used = False\<rparr>"

definition zero_counters :: wb_counters where
  "zero_counters = \<lparr>n_received = 0, n_malformed = 0, n_rejected = 0, n_sent = 0, n_queue_drops = 0,
     n_allocation_failures = 0\<rparr>"

section \<open>Allocation and growth\<close>

text \<open>The block of a table of so many bytes; an empty table has the null pointer.\<close>

definition block_of :: "nat \<Rightarrow> nat multiset" where
  "block_of n = (if n = 0 then {#} else {#n#})"

definition allocate :: "wb_engine \<Rightarrow> nat \<Rightarrow> bool \<times> wb_engine" where
  "allocate e n =
     (let k = h_calls (e_heap e);
          ok = (case cfg_allocate (e_config e) of Some f \<Rightarrow> f k n | None \<Rightarrow> b_malloc (e_build e) k n)
      in (ok, e\<lparr>e_heap := \<lparr>h_calls = Suc k,
                 h_blocks = h_blocks (e_heap e) + (if ok then block_of n else {#})\<rparr>\<rparr>))"

text \<open>\<open>deallocate\<close> and \<open>wendy_net_free\<close> both give the block back.\<close>

definition deallocate :: "wb_engine \<Rightarrow> nat \<Rightarrow> wb_engine" where
  "deallocate e p = e\<lparr>e_heap := (e_heap e)\<lparr>h_blocks := h_blocks (e_heap e) - block_of p\<rparr>\<rparr>"

text \<open>
  A block \<open>p\<close> (0 is the null pointer) and the bytes that it counted for. The subtraction is that of
  \<open>size_t\<close>, which wraps. The sum of the sizes of live blocks fits \<open>size_t\<close>, so the addition in
  \<open>resize\<close> does not.
\<close>

definition release :: "wb_engine \<Rightarrow> nat \<Rightarrow> nat \<Rightarrow> wb_engine" where
  "release e p n =
     (if p = 0 then e
      else
        let e = deallocate e p; a = e_allocated_bytes e
        in e\<lparr>e_allocated_bytes := (if n \<le> a then a - n else a + b_size_max (e_build e) + 1 - n)\<rparr>)"

text \<open>The block of a table has room for exactly its capacity.\<close>

abbreviation release_table :: "wb_engine \<Rightarrow> nat \<Rightarrow> nat \<Rightarrow> wb_engine" where
  "release_table e cap item \<equiv> release e (cap * item) (cap * item)"

definition resize :: "wb_engine \<Rightarrow> nat \<Rightarrow> nat \<Rightarrow> nat \<Rightarrow> bool \<times> wb_engine" where
  "resize e old_count n_items item =
     (if n_items = 0 then (False, release_table e old_count item)
      else if b_size_max (e_build e) div item < n_items then (False, e)
      else
        let (ok, e1) = allocate e (n_items * item)
        in if \<not> ok then
             (False, e1\<lparr>e_counters := (e_counters e1)
                \<lparr>n_allocation_failures := n_allocation_failures (e_counters e1) + 1\<rparr>\<rparr>)
           else
             let e2 = e1\<lparr>e_allocated_bytes := e_allocated_bytes e1 + n_items * item\<rparr>;
                 e3 = (if e_peak_bytes e2 < e_allocated_bytes e2
                       then e2\<lparr>e_peak_bytes := e_allocated_bytes e2\<rparr> else e2)
             in (True, release_table e3 old_count item))"

text \<open>
  The doubling loop of \<open>wb_reserve_*\<close>. Its caller has checked \<open>count \<le> maximum\<close> and starts
  from a capacity of at least one; outside those the C loop would not end, so they are part of the
  loop's guard here.
\<close>

function grow :: "nat \<Rightarrow> nat \<Rightarrow> nat \<Rightarrow> nat" where
  "grow maximum cap n_items =
     (if cap < n_items \<and> n_items \<le> maximum \<and> 0 < cap
      then grow maximum (if maximum div 2 < cap then maximum else cap * 2) n_items
      else cap)"
  by pat_completeness auto
termination
  by (relation "measure (\<lambda>(maximum, cap, n_items). n_items - cap)") auto

declare grow.simps [simp del]

definition reserve_capacity ::
  "nat \<Rightarrow> nat \<Rightarrow> nat \<Rightarrow> nat \<Rightarrow> wb_engine \<Rightarrow> bool \<times> nat \<times> wb_engine" where
  "reserve_capacity maximum item cap n_items e =
     (if maximum < n_items then (False, cap, e)
      else if n_items \<le> cap then (True, cap, e)
      else
        let cap' = grow maximum (if cap \<noteq> 0 then cap else 1) n_items;
            (ok, e') = resize e cap cap' item
        in if ok then (True, cap', e') else (False, cap, e'))"

definition reserve_slots ::
  "nat \<Rightarrow> nat \<Rightarrow> 'a \<Rightarrow> 'a list \<Rightarrow> nat \<Rightarrow> wb_engine \<Rightarrow> bool \<times> 'a list \<times> wb_engine" where
  "reserve_slots maximum item z xs n_items e =
     (case reserve_capacity maximum item (length xs) n_items e of
        (ok, cap, e') \<Rightarrow> (ok, xs @ replicate (cap - length xs) z, e'))"

definition wb_reserve_links :: "wb_engine \<Rightarrow> nat \<Rightarrow> bool \<times> wb_engine" where
  "wb_reserve_links e n_items =
     (case reserve_slots (b_links (e_build e)) (b_sizeof_link (e_build e)) zero_link_state
             (e_links e) n_items e of (ok, xs, e') \<Rightarrow> (ok, e'\<lparr>e_links := xs\<rparr>))"

definition wb_reserve_candidates :: "wb_engine \<Rightarrow> nat \<Rightarrow> bool \<times> wb_engine" where
  "wb_reserve_candidates e n_items =
     (case reserve_slots (b_candidates (e_build e)) (b_sizeof_candidate (e_build e)) zero_candidate
             (e_candidates e) n_items e of (ok, xs, e') \<Rightarrow> (ok, e'\<lparr>e_candidates := xs\<rparr>))"

definition wb_reserve_sources :: "wb_engine \<Rightarrow> nat \<Rightarrow> bool \<times> wb_engine" where
  "wb_reserve_sources e n_items =
     (case reserve_slots (b_sources (e_build e)) (b_sizeof_source (e_build e)) zero_source
             (e_sources e) n_items e of (ok, xs, e') \<Rightarrow> (ok, e'\<lparr>e_sources := xs\<rparr>))"

definition wb_reserve_local :: "wb_engine \<Rightarrow> nat \<Rightarrow> bool \<times> wb_engine" where
  "wb_reserve_local e n_items =
     (case reserve_slots (b_routes (e_build e)) (b_sizeof_local (e_build e)) zero_local
             (e_local e) n_items e of (ok, xs, e') \<Rightarrow> (ok, e'\<lparr>e_local := xs\<rparr>))"

definition wb_reserve_drops :: "wb_engine \<Rightarrow> nat \<Rightarrow> bool \<times> wb_engine" where
  "wb_reserve_drops e n_items =
     (case reserve_slots (b_routes (e_build e)) (b_sizeof_drop (e_build e)) zero_drop
             (e_drops e) n_items e of (ok, xs, e') \<Rightarrow> (ok, e'\<lparr>e_drops := xs\<rparr>))"

definition wb_reserve_requests :: "wb_engine \<Rightarrow> nat \<Rightarrow> bool \<times> wb_engine" where
  "wb_reserve_requests e n_items =
     (case reserve_slots (b_requests (e_build e)) (b_sizeof_request (e_build e)) zero_request
             (e_requests e) n_items e of (ok, xs, e') \<Rightarrow> (ok, e'\<lparr>e_requests := xs\<rparr>))"

definition wb_reserve_routes :: "wb_engine \<Rightarrow> nat \<Rightarrow> bool \<times> wb_engine" where
  "wb_reserve_routes e n_items =
     (case reserve_capacity (b_routes (e_build e)) (b_sizeof_route (e_build e))
             (e_routes_capacity e) n_items e of (ok, cap, e') \<Rightarrow> (ok, e'\<lparr>e_routes_capacity := cap\<rparr>))"

definition wb_reserve_before :: "wb_engine \<Rightarrow> nat \<Rightarrow> bool \<times> wb_engine" where
  "wb_reserve_before e n_items =
     (case reserve_capacity (b_routes (e_build e)) (b_sizeof_route (e_build e))
             (e_before_capacity e) n_items e of (ok, cap, e') \<Rightarrow> (ok, e'\<lparr>e_before_capacity := cap\<rparr>))"

definition wb_reserve_scratch :: "wb_engine \<Rightarrow> nat \<Rightarrow> bool \<times> wb_engine" where
  "wb_reserve_scratch e n_items =
     (case reserve_capacity (b_routes (e_build e)) (b_sizeof_route (e_build e))
             (e_scratch_capacity e) n_items e of (ok, cap, e') \<Rightarrow> (ok, e'\<lparr>e_scratch_capacity := cap\<rparr>))"

definition wb_reserve_messages :: "wb_engine \<Rightarrow> nat \<Rightarrow> bool \<times> wb_engine" where
  "wb_reserve_messages e n_items =
     (case reserve_capacity (b_messages (e_build e)) (b_sizeof_queued (e_build e))
             (e_messages_capacity e) n_items e of (ok, cap, e') \<Rightarrow> (ok, e'\<lparr>e_messages_capacity := cap\<rparr>))"

definition wb_free_links :: "wb_engine \<Rightarrow> wb_engine" where
  "wb_free_links e = (release_table e (length (e_links e)) (b_sizeof_link (e_build e)))\<lparr>e_links := []\<rparr>"

definition wb_free_candidates :: "wb_engine \<Rightarrow> wb_engine" where
  "wb_free_candidates e =
     (release_table e (length (e_candidates e)) (b_sizeof_candidate (e_build e)))\<lparr>e_candidates := []\<rparr>"

definition wb_free_sources :: "wb_engine \<Rightarrow> wb_engine" where
  "wb_free_sources e =
     (release_table e (length (e_sources e)) (b_sizeof_source (e_build e)))\<lparr>e_sources := []\<rparr>"

definition wb_free_local :: "wb_engine \<Rightarrow> wb_engine" where
  "wb_free_local e = (release_table e (length (e_local e)) (b_sizeof_local (e_build e)))\<lparr>e_local := []\<rparr>"

definition wb_free_drops :: "wb_engine \<Rightarrow> wb_engine" where
  "wb_free_drops e = (release_table e (length (e_drops e)) (b_sizeof_drop (e_build e)))\<lparr>e_drops := []\<rparr>"

definition wb_free_requests :: "wb_engine \<Rightarrow> wb_engine" where
  "wb_free_requests e =
     (release_table e (length (e_requests e)) (b_sizeof_request (e_build e)))\<lparr>e_requests := []\<rparr>"

text \<open>
  Freeing the routes leaves \<open>route_count\<close> alone in the C code, which calls it only with a count
  of zero or on the way to a zeroed engine; the same holds for the messages, whose callers reset
  the count and the cursor next to the call.
\<close>

definition wb_free_routes :: "wb_engine \<Rightarrow> wb_engine" where
  "wb_free_routes e =
     (release_table e (e_routes_capacity e) (b_sizeof_route (e_build e)))\<lparr>e_routes := [], e_routes_capacity := 0\<rparr>"

definition wb_free_before :: "wb_engine \<Rightarrow> wb_engine" where
  "wb_free_before e =
     (release_table e (e_before_capacity e) (b_sizeof_route (e_build e)))\<lparr>e_before := [], e_before_capacity := 0\<rparr>"

definition wb_free_scratch :: "wb_engine \<Rightarrow> wb_engine" where
  "wb_free_scratch e =
     (release_table e (e_scratch_capacity e) (b_sizeof_route (e_build e)))\<lparr>e_scratch_capacity := 0\<rparr>"

definition wb_free_messages :: "wb_engine \<Rightarrow> wb_engine" where
  "wb_free_messages e =
     (release_table e (e_messages_capacity e) (b_sizeof_queued (e_build e)))
       \<lparr>e_messages := [], e_messages_capacity := 0, e_message_cursor := 0\<rparr>"

definition zero_engine :: "wb_config \<Rightarrow> wb_heap \<Rightarrow> wb_engine" where
  "zero_engine c k = \<lparr>e_config = c, e_now = 0, e_rng = 0, e_last_link = 0, e_revision = 0,
     e_pending = 0, e_trigger_at = 0, e_seqno = 0, e_repeats = 0, e_trigger = False,
     e_stopped = False, e_ready = False, e_links = [], e_candidates = [], e_sources = [],
     e_local = [], e_drops = [], e_requests = [], e_routes = [], e_routes_capacity = 0,
     e_before = [], e_before_capacity = 0, e_scratch_capacity = 0, e_allocated_bytes = 0,
     e_peak_bytes = 0, e_heap = k, e_messages = [], e_messages_capacity = 0,
     e_message_cursor = 0, e_counters = zero_counters\<rparr>"

text \<open>
  \<open>memset\<close> clears the configuration too. The build's constants stay, and so does the allocator's view.
\<close>

definition zero_config :: "wb_build \<Rightarrow> wb_config" where
  "zero_config b = \<lparr>cfg_router = 0, cfg_seed = 0, cfg_seqno = 0, cfg_hello_ms = 0, cfg_update_ms = 0, cfg_source_ms = 0,
     cfg_ipv4_via_ipv6 = False, cfg_local_only = False, cfg_allow = None, cfg_allocate = None, cfg_deallocate = False,
     cfg_build = b\<rparr>"

definition free_all :: "wb_engine \<Rightarrow> wb_engine" where
  "free_all e = wb_free_messages (wb_free_scratch (wb_free_before (wb_free_routes (wb_free_requests
     (wb_free_drops (wb_free_local (wb_free_sources (wb_free_candidates (wb_free_links e)))))))))"

definition wb_deinit :: "wb_engine \<Rightarrow> wb_engine" where
  "wb_deinit e = (let e = free_all e in zero_engine (zero_config (e_build e)) (e_heap e))"

definition wb_memory :: "wb_engine \<Rightarrow> nat \<times> nat" where
  "wb_memory e = (b_sizeof_engine (e_build e) + e_allocated_bytes e,
                  b_sizeof_engine (e_build e) + e_peak_bytes e)"

text \<open>The shared pattern "first free slot, else grow the table by one slot".\<close>

definition claim_slot ::
  "('a \<Rightarrow> bool) \<Rightarrow> (wb_engine \<Rightarrow> 'a list) \<Rightarrow> (wb_engine \<Rightarrow> nat \<Rightarrow> bool \<times> wb_engine) \<Rightarrow>
   wb_engine \<Rightarrow> nat option \<times> wb_engine" where
  "claim_slot free slots reserve e =
     (case find_slot free (slots e) of
        Some i \<Rightarrow> (Some i, e)
      | None \<Rightarrow> (case reserve e (length (slots e) + 1) of
          (True, e') \<Rightarrow> (Some (length (slots e)), e')
        | (False, e') \<Rightarrow> (None, e')))"

section \<open>Compaction\<close>

text \<open>The loop of \<open>COLLECT\<close>: \<open>n\<close> live entries have been moved to the front.\<close>

fun compact_slot :: "('a \<Rightarrow> bool) \<Rightarrow> nat \<Rightarrow> nat \<times> 'a list \<Rightarrow> nat \<times> 'a list" where
  "compact_slot live i (n, xs) = (if live (xs ! i) then (n + 1, xs[n := xs ! i]) else (n, xs))"

definition collect_slots ::
  "nat \<Rightarrow> 'a \<Rightarrow> ('a \<Rightarrow> bool) \<Rightarrow> 'a list \<Rightarrow> wb_engine \<Rightarrow> 'a list \<times> wb_engine" where
  "collect_slots item z live xs e =
     (let (n, ys) = fold (compact_slot live) [0..<length xs] (0, xs);
          ys = take n ys @ replicate (length xs - n) z
      in if n = 0 then ([], release_table e (length xs) item)
         else if n \<le> length xs div 2 then
           (case resize e (length xs) n item of (ok, e') \<Rightarrow> (if ok then take n ys else ys, e'))
         else (ys, e))"

lemma compact_slots:
  assumes "i \<le> length xs"
  obtains ys where "fold (compact_slot live) [0..<i] (0, xs) = (length (filter live (take i xs)), ys)"
    "length ys = length xs" "take (length (filter live (take i xs))) ys = filter live (take i xs)" "drop i ys = drop i xs"
  using assms
proof (induction i arbitrary: thesis)
  case (Suc i)
  let ?n = "length (filter live (take i xs))"
  obtain ys where ys: "fold (compact_slot live) [0..<i] (0, xs) = (?n, ys)" "length ys = length xs"
    "take ?n ys = filter live (take i xs)" "drop i ys = drop i xs"
    using Suc.IH Suc.prems(2) by (metis Suc_leD)
  have i: "i < length xs" using Suc.prems(2) by simp
  have x: "ys ! i = xs ! i" using ys(2,4) i by (metis Cons_nth_drop_Suc list.inject)
  have n: "?n \<le> i" using length_filter_le [of live "take i xs"] i by simp
  have rest: "drop (Suc i) ys = drop (Suc i) xs" using ys(4) by (metis drop_Suc tl_drop)
  have split: "take (Suc i) xs = take i xs @ [xs ! i]" using i by (rule take_Suc_conv_app_nth)
  show ?case
  proof (cases "live (xs ! i)")
    case True
    have "take (Suc ?n) (ys[?n := xs ! i]) = filter live (take i xs) @ [xs ! i]"
      using ys(2,3) n i by (simp add: take_Suc_conv_app_nth)
    moreover have "drop (Suc i) (ys[?n := xs ! i]) = drop (Suc i) xs" using rest n by (simp add: drop_update_cancel)
    ultimately show ?thesis
      using ys(1,2) True x split by (intro Suc.prems(1) [of "ys[?n := xs ! i]"]) simp_all
  next
    case False
    then show ?thesis using ys x rest split by (intro Suc.prems(1) [of ys]) simp_all
  qed
qed simp

text \<open>The loop keeps the live entries, in order.\<close>

lemma collect_slots_eq:
  "collect_slots item z live xs e =
     (let kept = filter live xs;
          n = length kept;
          padded = kept @ replicate (length xs - n) z
      in if n = 0 then ([], release_table e (length xs) item)
         else if n \<le> length xs div 2 then
           (case resize e (length xs) n item of (ok, e') \<Rightarrow> (if ok then kept else padded, e'))
         else (padded, e))"
proof -
  obtain ys where ys: "fold (compact_slot live) [0..<length xs] (0, xs) = (length (filter live xs), ys)"
    "take (length (filter live xs)) ys = filter live xs"
    using compact_slots [of "length xs" xs live] by (metis order_refl take_all)
  show ?thesis by (simp only: collect_slots_def ys Let_def prod.case) (simp split: prod.split)
qed

text \<open>A front-filled array of capacity \<open>cap\<close> shrinks to its count when at most half full.\<close>

definition shrink_capacity :: "nat \<Rightarrow> nat \<Rightarrow> nat \<Rightarrow> wb_engine \<Rightarrow> nat \<times> wb_engine" where
  "shrink_capacity item n_items cap e =
     (if n_items \<le> cap div 2 then
        (case resize e cap n_items item of (ok, e') \<Rightarrow> (if ok then n_items else cap, e'))
      else (cap, e))"

definition collect_tables :: "wb_engine \<Rightarrow> wb_engine" where
  "collect_tables e =
     (let b = e_build e;
          (links, e) = collect_slots (b_sizeof_link b) zero_link_state
                         (\<lambda>l. l_id (ls_config l) \<noteq> 0) (e_links e) e;
          e = e\<lparr>e_links := links\<rparr>;
          (candidates, e) = collect_slots (b_sizeof_candidate b) zero_candidate c_used (e_candidates e) e;
          e = e\<lparr>e_candidates := candidates\<rparr>;
          (sources, e) = collect_slots (b_sizeof_source b) zero_source s_used (e_sources e) e;
          e = e\<lparr>e_sources := sources\<rparr>;
          (local, e) = collect_slots (b_sizeof_local b) zero_local lo_used (e_local e) e;
          e = e\<lparr>e_local := local\<rparr>;
          (drops, e) = collect_slots (b_sizeof_drop b) zero_drop d_used (e_drops e) e;
          e = e\<lparr>e_drops := drops\<rparr>;
          (requests, e) = collect_slots (b_sizeof_request b) zero_request q_used (e_requests e) e
      in e\<lparr>e_requests := requests\<rparr>)"

definition collect_routes :: "wb_engine \<Rightarrow> wb_engine" where
  "collect_routes e =
     (if e_routes e = [] then wb_free_routes e
      else case shrink_capacity (b_sizeof_route (e_build e)) (length (e_routes e))
                  (e_routes_capacity e) e of
        (cap, e') \<Rightarrow> e'\<lparr>e_routes_capacity := cap\<rparr>)"

definition collect_before :: "wb_engine \<Rightarrow> wb_engine" where
  "collect_before e =
     (if e_links e = [] \<or> e_routes e = [] then wb_free_before e
      else case shrink_capacity (b_sizeof_route (e_build e)) (length (e_routes e))
                  (e_before_capacity e) e of
        (cap, e') \<Rightarrow> e'\<lparr>e_before_capacity := cap\<rparr>)"

definition collect_scratch :: "wb_engine \<Rightarrow> wb_engine" where
  "collect_scratch e =
     (if e_links e = [] \<or> e_routes e = [] then wb_free_scratch e
      else case shrink_capacity (b_sizeof_route (e_build e)) (length (e_routes e))
                  (e_scratch_capacity e) e of
        (cap, e') \<Rightarrow> e'\<lparr>e_scratch_capacity := cap\<rparr>)"

definition wb_collect :: "wb_engine \<Rightarrow> wb_engine" where
  "wb_collect e = collect_scratch (collect_before (collect_routes (collect_tables e)))"

section \<open>What the tables occupy\<close>

definition table_bytes :: "wb_engine \<Rightarrow> nat" where
  "table_bytes e =
     length (e_links e) * b_sizeof_link (e_build e) +
     length (e_candidates e) * b_sizeof_candidate (e_build e) +
     length (e_sources e) * b_sizeof_source (e_build e) +
     length (e_local e) * b_sizeof_local (e_build e) +
     length (e_drops e) * b_sizeof_drop (e_build e) +
     length (e_requests e) * b_sizeof_request (e_build e) +
     e_routes_capacity e * b_sizeof_route (e_build e) +
     e_before_capacity e * b_sizeof_route (e_build e) +
     e_scratch_capacity e * b_sizeof_route (e_build e) +
     e_messages_capacity e * b_sizeof_queued (e_build e)"

definition table_blocks :: "wb_engine \<Rightarrow> nat multiset" where
  "table_blocks e =
     block_of (length (e_links e) * b_sizeof_link (e_build e)) +
     block_of (length (e_candidates e) * b_sizeof_candidate (e_build e)) +
     block_of (length (e_sources e) * b_sizeof_source (e_build e)) +
     block_of (length (e_local e) * b_sizeof_local (e_build e)) +
     block_of (length (e_drops e) * b_sizeof_drop (e_build e)) +
     block_of (length (e_requests e) * b_sizeof_request (e_build e)) +
     block_of (e_routes_capacity e * b_sizeof_route (e_build e)) +
     block_of (e_before_capacity e * b_sizeof_route (e_build e)) +
     block_of (e_scratch_capacity e * b_sizeof_route (e_build e)) +
     block_of (e_messages_capacity e * b_sizeof_queued (e_build e))"

definition within_limits :: "wb_engine \<Rightarrow> bool" where
  "within_limits e \<longleftrightarrow>
     length (e_links e) \<le> b_links (e_build e) \<and>
     length (e_candidates e) \<le> b_candidates (e_build e) \<and>
     length (e_sources e) \<le> b_sources (e_build e) \<and>
     length (e_local e) \<le> b_routes (e_build e) \<and>
     length (e_drops e) \<le> b_routes (e_build e) \<and>
     length (e_requests e) \<le> b_requests (e_build e) \<and>
     length (e_routes e) \<le> e_routes_capacity e \<and> e_routes_capacity e \<le> b_routes (e_build e) \<and>
     length (e_before e) \<le> e_before_capacity e \<and> e_before_capacity e \<le> b_routes (e_build e) \<and>
     e_scratch_capacity e \<le> b_routes (e_build e) \<and>
     length (e_messages e) \<le> e_messages_capacity e \<and>
     e_messages_capacity e \<le> b_messages (e_build e) \<and>
     e_message_cursor e \<le> length (e_messages e)"

definition accounted :: "wb_engine \<Rightarrow> bool" where
  "accounted e \<longleftrightarrow> e_allocated_bytes e = table_bytes e \<and> e_allocated_bytes e \<le> e_peak_bytes e \<and>
     h_blocks (e_heap e) = table_blocks e"

definition storage_ok :: "wb_engine \<Rightarrow> bool" where
  "storage_ok e \<longleftrightarrow> within_limits e \<and> accounted e"

lemmas storage_defs = storage_ok_def within_limits_def accounted_def table_bytes_def table_blocks_def

section \<open>Allocation\<close>

text \<open>Allocation touches only the engine's bookkeeping fields.\<close>

definition rebook :: "wb_engine \<Rightarrow> nat \<Rightarrow> nat \<Rightarrow> wb_heap \<Rightarrow> u64 \<Rightarrow> wb_engine" where
  "rebook e a p k f =
     e\<lparr>e_allocated_bytes := a, e_peak_bytes := p, e_heap := k,
       e_counters := (e_counters e)\<lparr>n_allocation_failures := f\<rparr>\<rparr>"

abbreviation without :: "wb_engine \<Rightarrow> nat \<Rightarrow> wb_heap" where
  "without e n \<equiv> (e_heap e)\<lparr>h_blocks := h_blocks (e_heap e) - block_of n\<rparr>"

lemma release_rebook_any:
  obtains a k where "release e p n = rebook e a (e_peak_bytes e) k (n_allocation_failures (e_counters e))"
proof (cases "p = 0")
  case True
  then show ?thesis by (intro that [of "e_allocated_bytes e" "e_heap e"]) (simp add: release_def rebook_def)
next
  case False
  then show ?thesis
    by (intro that [of "if n \<le> e_allocated_bytes e then e_allocated_bytes e - n else e_allocated_bytes e + b_size_max (e_build e) + 1 - n"
          "without e p"]) (simp add: release_def deallocate_def rebook_def Let_def)
qed

lemma release_rebook:
  "n \<le> e_allocated_bytes e \<Longrightarrow> release e n n = rebook e (e_allocated_bytes e - n) (e_peak_bytes e) (without e n)
     (n_allocation_failures (e_counters e))"
  by (cases "n = 0") (simp_all add: release_def deallocate_def rebook_def block_of_def)

lemma resize_cases:
  assumes "resize e old n item = (ok, e')" and "0 < n" and "old * item \<le> e_allocated_bytes e"
  obtains (refused) k f where "\<not> ok" and "h_blocks k = h_blocks (e_heap e)"
      and "e' = rebook e (e_allocated_bytes e) (e_peak_bytes e) k f"
  | (moved) k where "ok" and "h_blocks k = h_blocks (e_heap e) + block_of (n * item) - block_of (old * item)"
      and "e' = rebook e (e_allocated_bytes e + n * item - old * item)
                  (max (e_peak_bytes e) (e_allocated_bytes e + n * item)) k
                  (n_allocation_failures (e_counters e))"
proof (cases "b_size_max (e_build e) div item < n")
  case True
  then show ?thesis
    using assms
    by (intro refused [of "e_heap e" "n_allocation_failures (e_counters e)"])
      (simp_all add: resize_def rebook_def)
next
  case False
  obtain got h where got: "allocate e (n * item) = (got, e\<lparr>e_heap := h\<rparr>)"
    and h: "h_blocks h = h_blocks (e_heap e) + (if got then block_of (n * item) else {#})"
    by (simp add: allocate_def Let_def)
  show ?thesis
  proof (cases got)
    case True
    let ?e = "e\<lparr>e_heap := h, e_allocated_bytes := e_allocated_bytes e + n * item,
      e_peak_bytes := max (e_peak_bytes e) (e_allocated_bytes e + n * item)\<rparr>"
    have "resize e old n item = (True, release_table ?e old item)"
      using True False got assms(2) by (simp add: resize_def max_def Let_def)
    moreover have "old * item \<le> e_allocated_bytes ?e" using assms(3) by simp
    ultimately show ?thesis
      using assms(1) True h
      by (intro moved [of "without ?e (old * item)"]) (simp_all add: release_rebook rebook_def)
  next
    case no: False
    with False got h assms show ?thesis
      by (intro refused [of h "n_allocation_failures (e_counters e) + 1"])
        (auto simp: resize_def rebook_def)
  qed
qed

lemma resize_rebook:
  obtains a p k f where "snd (resize e old n item) = rebook e a p k f"
proof -
  obtain got h where got: "allocate e (n * item) = (got, e\<lparr>e_heap := h\<rparr>)"
    by (simp add: allocate_def Let_def)
  let ?e = "e\<lparr>e_heap := h, e_allocated_bytes := e_allocated_bytes e + n * item,
    e_peak_bytes := max (e_peak_bytes e) (e_allocated_bytes e + n * item)\<rparr>"
  obtain a k where 1: "release_table e old item = rebook e a (e_peak_bytes e) k (n_allocation_failures (e_counters e))"
    by (rule release_rebook_any)
  obtain b l where 2: "release_table ?e old item = rebook ?e b (e_peak_bytes ?e) l (n_allocation_failures (e_counters ?e))"
    by (rule release_rebook_any)
  consider "n = 0" | "n \<noteq> 0" "b_size_max (e_build e) div item < n" | "n \<noteq> 0" "\<not> b_size_max (e_build e) div item < n" "\<not> got"
    | "n \<noteq> 0" "\<not> b_size_max (e_build e) div item < n" got by blast
  then show ?thesis
  proof cases
    case 1
    then show ?thesis using \<open>release_table e old item = _\<close> that by (simp add: resize_def)
  next
    case 2
    then show ?thesis
      using that [of "e_allocated_bytes e" "e_peak_bytes e" "e_heap e" "n_allocation_failures (e_counters e)"]
      by (simp add: resize_def rebook_def)
  next
    case 3
    then show ?thesis
      using that [of "e_allocated_bytes e" "e_peak_bytes e" h "n_allocation_failures (e_counters e) + 1"] got
      by (simp add: resize_def rebook_def)
  next
    case 4
    then have "snd (resize e old n item) = release_table ?e old item" using got by (simp add: resize_def max_def Let_def)
    then show ?thesis using 2
        that [of b "max (e_peak_bytes e) (e_allocated_bytes e + n * item)" l "n_allocation_failures (e_counters e)"]
      by (simp add: rebook_def)
  qed
qed

lemma grow_done: "wanted \<le> cap \<Longrightarrow> grow maximum cap wanted = cap"
  by (subst grow.simps) simp

lemma grow_step:
  "cap < wanted \<Longrightarrow> wanted \<le> maximum \<Longrightarrow> 0 < cap \<Longrightarrow>
   grow maximum cap wanted = grow maximum (if maximum div 2 < cap then maximum else cap * 2) wanted"
  by (subst grow.simps) simp

lemma grow_bounds:
  assumes "0 < cap" and "wanted \<le> maximum" and "cap \<le> maximum"
  shows "cap \<le> grow maximum cap wanted \<and> wanted \<le> grow maximum cap wanted \<and>
         grow maximum cap wanted \<le> maximum"
  using assms
proof (induction maximum cap wanted rule: grow.induct)
  case (1 maximum cap wanted)
  show ?case
  proof (cases "cap < wanted")
    case True
    let ?next = "if maximum div 2 < cap then maximum else cap * 2"
    have *: "0 < ?next" "cap \<le> ?next" "?next \<le> maximum"
      using 1(2-4) by auto
    from True 1(2,3) have "cap < wanted \<and> wanted \<le> maximum \<and> 0 < cap" by simp
    from 1(1) [OF this *(1) 1(3) *(3)] *(2)
    show ?thesis unfolding grow_step [OF True 1(3,2)] by linarith
  next
    case False
    then show ?thesis using 1(2-4) by (simp add: grow_done)
  qed
qed

lemma rebook_id [simp]:
  "rebook e (e_allocated_bytes e) (e_peak_bytes e) (e_heap e) (n_allocation_failures (e_counters e)) = e"
  by (simp add: rebook_def)

lemma reserve_capacity_rebook:
  assumes "reserve_capacity maximum item cap wanted e = (ok, cap', e')"
  obtains a p k f where "e' = rebook e a p k f"
proof -
  obtain a p k f where
    "snd (resize e cap (grow maximum (if cap \<noteq> 0 then cap else 1) wanted) item) = rebook e a p k f"
    by (rule resize_rebook)
  then have "e' = e \<or> e' = rebook e a p k f"
    using assms by (auto simp: reserve_capacity_def Let_def split: if_splits prod.splits)
  then show ?thesis
    using that that [of "e_allocated_bytes e" "e_peak_bytes e" "e_heap e"
      "n_allocation_failures (e_counters e)"] by auto
qed

lemma moved_block: "A \<subseteq># M \<Longrightarrow> A \<subseteq># M + B"
  for A M B :: "'a multiset"
  by (rule subset_mset.order_trans [OF _ mset_subset_eq_add_left])

lemma reserve_capacity_spec:
  assumes "reserve_capacity maximum item cap wanted e = (ok, cap', e')"
    and "cap \<le> maximum" and "cap * item \<le> e_allocated_bytes e"
    and "e_allocated_bytes e \<le> e_peak_bytes e" and "block_of (cap * item) \<subseteq># h_blocks (e_heap e)"
  obtains a p k f where "e' = rebook e a p k f"
    and "a + cap * item = e_allocated_bytes e + cap' * item" and "a \<le> p"
    and "cap \<le> cap'" and "cap' \<le> maximum" and "ok \<longleftrightarrow> wanted \<le> cap'"
    and "h_blocks k + block_of (cap * item) = h_blocks (e_heap e) + block_of (cap' * item)"
proof (cases "maximum < wanted \<or> wanted \<le> cap")
  case True
  then show ?thesis
    using assms
    by (intro that [of "e_allocated_bytes e" "e_peak_bytes e" "e_heap e"
          "n_allocation_failures (e_counters e)"])
      (auto simp: reserve_capacity_def rebook_def split: if_splits)
next
  case False
  define new where "new = grow maximum (if cap \<noteq> 0 then cap else 1) wanted"
  have new: "cap \<le> new" "wanted \<le> new" "new \<le> maximum" "0 < new"
    using False assms(2) grow_bounds [of "if cap \<noteq> 0 then cap else 1" wanted maximum]
    by (cases "cap = 0"; simp add: new_def)+
  obtain got e1 where r: "resize e cap new item = (got, e1)" by fastforce
  have "reserve_capacity maximum item cap wanted e = (got, if got then new else cap, e1)"
    using False r by (cases got) (simp_all add: reserve_capacity_def new_def)
  then have rc: "ok = got" "cap' = (if got then new else cap)" "e' = e1"
    using assms(1) by simp_all
  have le: "cap * item \<le> new * item" using new(1) by simp
  from r new(4) assms(3) show ?thesis
  proof (cases rule: resize_cases)
    case (refused k f)
    then show ?thesis
      using False assms(2-4) rc
      by (intro that [of "e_allocated_bytes e" "e_peak_bytes e" k f]) simp_all
  next
    case (moved k)
    then show ?thesis
      using assms(2-4) rc new le subset_mset.diff_add [OF moved_block [OF assms(5)]]
      by (intro that [of "e_allocated_bytes e + new * item - cap * item"
            "max (e_peak_bytes e) (e_allocated_bytes e + new * item)" k
            "n_allocation_failures (e_counters e)"]) simp_all
  qed
qed

section \<open>Reservation\<close>

text \<open>
  Each reservation extends its own table by zeroed slots and otherwise touches only the
  bookkeeping; the table grows exactly as far as the request needs, if the request is granted.
\<close>

lemma reserve_slots_spec:
  assumes "reserve_slots maximum item z xs wanted e = (ok, xs', e')"
    and "length xs \<le> maximum" and "length xs * item \<le> e_allocated_bytes e"
    and "e_allocated_bytes e \<le> e_peak_bytes e" and "block_of (length xs * item) \<subseteq># h_blocks (e_heap e)"
  obtains a p k f n where "e' = rebook e a p k f" and "xs' = xs @ replicate n z"
    and "a + length xs * item = e_allocated_bytes e + length xs' * item" and "a \<le> p"
    and "length xs' \<le> maximum" and "ok \<longleftrightarrow> wanted \<le> length xs'"
    and "h_blocks k + block_of (length xs * item) = h_blocks (e_heap e) + block_of (length xs' * item)"
proof -
  obtain cap e1 where r: "reserve_capacity maximum item (length xs) wanted e = (ok, cap, e1)"
    and xs': "xs' = xs @ replicate (cap - length xs) z" and e': "e' = e1"
    using assms(1) by (auto simp: reserve_slots_def split: prod.splits)
  from reserve_capacity_spec [OF r assms(2-5)] show ?thesis
    using xs' e' that by (metis le_add_diff_inverse length_append length_replicate)
qed

lemma storage_peak: "storage_ok e \<Longrightarrow> e_allocated_bytes e \<le> e_peak_bytes e"
  by (simp add: storage_ok_def accounted_def)

lemma rebook_simps [simp]:
  "e_allocated_bytes (rebook e a p k f) = a" "e_peak_bytes (rebook e a p k f) = p"
  "e_build (rebook e a p k f) = e_build e" "e_config (rebook e a p k f) = e_config e"
  "rebook (rebook e a p k f) a' p' k' f' = rebook e a' p' k' f'"
  by (simp_all add: rebook_def)

text \<open>A table after compaction: its live entries, then zeroed slots.\<close>

definition packed :: "('a \<Rightarrow> bool) \<Rightarrow> 'a \<Rightarrow> 'a list \<Rightarrow> 'a list \<Rightarrow> bool" where
  "packed live z xs ys \<longleftrightarrow> (\<exists>m. ys = filter live xs @ replicate m z) \<and> length ys \<le> length xs"

lemma packed_length: "packed live z xs ys \<Longrightarrow> length ys \<le> length xs"
  by (simp add: packed_def)

lemma packed_set: "packed live z xs ys \<Longrightarrow> set ys \<subseteq> insert z {x \<in> set xs. live x}"
  by (auto simp: packed_def)

lemma packed_live: "packed live z xs ys \<Longrightarrow> \<not> live z \<Longrightarrow> filter live ys = filter live xs"
  by (auto simp: packed_def)

text \<open>
  The contract of a table of slots: how the table is stored in the engine, and what writing a
  table of another length back means for the engine's limits and byte count.
\<close>

locale slot_table =
  fixes slots :: "wb_engine \<Rightarrow> 'a list"
    and put_slots :: "'a list \<Rightarrow> wb_engine \<Rightarrow> wb_engine"
    and limit :: "wb_build \<Rightarrow> nat"
    and item :: "wb_build \<Rightarrow> nat"
    and blank :: "'a"
    and reserve :: "wb_engine \<Rightarrow> nat \<Rightarrow> bool \<times> wb_engine"
  assumes reserve_eq: "reserve e n =
      (case reserve_slots (limit (e_build e)) (item (e_build e)) blank (slots e) n e of
         (ok, xs, e') \<Rightarrow> (ok, put_slots xs e'))"
    and slots_put: "slots (put_slots xs (rebook e a p k f)) = xs"
    and slots_fit: "storage_ok e \<Longrightarrow> length (slots e) \<le> limit (e_build e) \<and>
      length (slots e) * item (e_build e) \<le> e_allocated_bytes e \<and>
      block_of (length (slots e) * item (e_build e)) \<subseteq># h_blocks (e_heap e)"
    and put_storage: "storage_ok e \<Longrightarrow> length xs \<le> limit (e_build e) \<Longrightarrow>
      a + length (slots e) * item (e_build e) = e_allocated_bytes e + length xs * item (e_build e) \<Longrightarrow>
      a \<le> p \<Longrightarrow> h_blocks k + block_of (length (slots e) * item (e_build e)) =
        h_blocks (e_heap e) + block_of (length xs * item (e_build e)) \<Longrightarrow> storage_ok (put_slots xs (rebook e a p k f))"
begin

lemma reserve_frame:
  assumes "reserve e n = (ok, e')"
  obtains a p k f m where "e' = put_slots (slots e @ replicate m blank) (rebook e a p k f)"
proof -
  obtain cap e1 where
    r: "reserve_capacity (limit (e_build e)) (item (e_build e)) (length (slots e)) n e = (ok, cap, e1)"
      and e': "e' = put_slots (slots e @ replicate (cap - length (slots e)) blank) e1"
    using assms by (auto simp: reserve_eq reserve_slots_def split: prod.splits)
  obtain a p k f where "e1 = rebook e a p k f" by (rule reserve_capacity_rebook [OF r])
  with e' that show ?thesis by simp
qed

lemma claim_frame:
  assumes "claim_slot free slots reserve e = (r, e')"
  obtains "e' = e"
  | a p k f m where "e' = put_slots (slots e @ replicate m blank) (rebook e a p k f)"
proof (cases "find_slot free (slots e)")
  case (Some i)
  with assms that(1) show ?thesis by (simp add: claim_slot_def)
next
  case None
  obtain ok e1 where rs: "reserve e (length (slots e) + 1) = (ok, e1)" by fastforce
  have "e' = e1" using assms unfolding claim_slot_def None rs by (cases ok) simp_all
  moreover obtain a p k f m where "e1 = put_slots (slots e @ replicate m blank) (rebook e a p k f)"
    by (rule reserve_frame [OF rs])
  ultimately show ?thesis using that(2) by simp
qed

lemma reserve_spec:
  assumes "reserve e n = (ok, e')" and "storage_ok e"
  obtains a p k f m where "e' = put_slots (slots e @ replicate m blank) (rebook e a p k f)"
    and "storage_ok e'" and "slots e' = slots e @ replicate m blank"
    and "ok \<longleftrightarrow> n \<le> length (slots e')"
proof -
  obtain xs e1 where r: "reserve_slots (limit (e_build e)) (item (e_build e)) blank (slots e) n e =
      (ok, xs, e1)" and e': "e' = put_slots xs e1"
    using assms(1) by (auto simp: reserve_eq split: prod.splits)
  note fit = slots_fit [OF assms(2)]
  from r fit [THEN conjunct1] fit [THEN conjunct2, THEN conjunct1] storage_peak [OF assms(2)]
    fit [THEN conjunct2, THEN conjunct2]
  obtain a p k f m where *: "e1 = rebook e a p k f" "xs = slots e @ replicate m blank"
    "a + length (slots e) * item (e_build e) = e_allocated_bytes e + length xs * item (e_build e)"
    "a \<le> p" "length xs \<le> limit (e_build e)" "ok \<longleftrightarrow> n \<le> length xs"
    "h_blocks k + block_of (length (slots e) * item (e_build e)) = h_blocks (e_heap e) + block_of (length xs * item (e_build e))"
    by (rule reserve_slots_spec)
  show ?thesis
    using that * e' put_storage [OF assms(2) *(5,3,4,7)] slots_put by simp
qed

lemma claim_spec:
  assumes "claim_slot free slots reserve e = (r, e')" and "storage_ok e" and "free blank"
  obtains a p k f m where
      "e' = e \<and> m = 0 \<or> e' = put_slots (slots e @ replicate m blank) (rebook e a p k f)"
    and "storage_ok e'" and "slots e' = slots e @ replicate m blank"
    and "\<And>i. r = Some i \<Longrightarrow> i < length (slots e') \<and> free (slots e' ! i)"
proof (cases "find_slot free (slots e)")
  case (Some i)
  with assms(1) have "e' = e" "r = Some i" by (auto simp: claim_slot_def)
  with Some assms(2) show ?thesis
    by (intro that [of 0]) (auto dest: find_slot_SomeD)
next
  case None
  obtain ok e1 where rs: "reserve e (length (slots e) + 1) = (ok, e1)" by fastforce
  have r: "e' = e1" "r = (if ok then Some (length (slots e)) else None)"
    using assms(1) unfolding claim_slot_def None rs by (cases ok; simp)+
  from rs assms(2) obtain a p k f m where
    *: "e1 = put_slots (slots e @ replicate m blank) (rebook e a p k f)" "storage_ok e1"
    "slots e1 = slots e @ replicate m blank" "ok \<longleftrightarrow> length (slots e) + 1 \<le> length (slots e1)"
    by (rule reserve_spec)
  show ?thesis
    using that [of m a p k f] * r assms(3) by (auto simp: nth_append split: if_splits)
qed

lemma collect_spec:
  assumes "collect_slots (item (e_build e)) blank live (slots e) e = (xs, e')" and "storage_ok e"
  obtains a p k f where "e' = rebook e a p k f" and "packed live blank (slots e) xs"
    and "storage_ok (put_slots xs e')"
proof -
  let ?it = "item (e_build e)" and ?n = "length (filter live (slots e))"
  let ?padded = "filter live (slots e) @ replicate (length (slots e) - ?n) blank"
  note fit = slots_fit [OF assms(2)] and peak = storage_peak [OF assms(2)]
  have n: "?n \<le> length (slots e)" by simp
  have lim: "?n \<le> limit (e_build e)" using fit n by linarith
  have pad: "packed live blank (slots e) ?padded" "packed live blank (slots e) (filter live (slots e))"
    by (auto simp: packed_def n intro: exI [of _ 0])
  have same: "storage_ok (put_slots ?padded (rebook e (e_allocated_bytes e) (e_peak_bytes e) k f))"
    if "h_blocks k = h_blocks (e_heap e)" for k f
    using fit peak n that by (intro put_storage [OF assms(2)]) simp_all
  consider "?n = 0" | "?n \<noteq> 0" "?n \<le> length (slots e) div 2"
    | "?n \<noteq> 0" "\<not> ?n \<le> length (slots e) div 2" by blast
  then show ?thesis
  proof cases
    case 1
    with assms(1) have "e' = release_table e (length (slots e)) ?it" "xs = []"
      by (simp_all add: collect_slots_eq)
    moreover have "release_table e (length (slots e)) ?it = rebook e (e_allocated_bytes e - length (slots e) * ?it)
        (e_peak_bytes e) (without e (length (slots e) * ?it)) (n_allocation_failures (e_counters e))"
      using fit by (simp add: release_rebook)
    moreover have "storage_ok (put_slots [] (rebook e (e_allocated_bytes e - length (slots e) * ?it)
        (e_peak_bytes e) (without e (length (slots e) * ?it)) (n_allocation_failures (e_counters e))))"
      using fit peak by (intro put_storage [OF assms(2)]) (simp_all add: block_of_def [of 0])
    ultimately show ?thesis using 1 pad(2) that by simp
  next
    case 2
    obtain ok e1 where r: "resize e (length (slots e)) ?n ?it = (ok, e1)" by fastforce
    with 2 assms(1) have e': "e' = e1" "xs = (if ok then filter live (slots e) else ?padded)"
      by (simp_all add: collect_slots_eq Let_def)
    from r 2(1) have "0 < ?n" by simp
    from r this fit [THEN conjunct2, THEN conjunct1] show ?thesis
    proof (cases rule: resize_cases)
      case (refused k f)
      with e' pad same that show ?thesis by simp
    next
      case (moved k)
      note whole = subset_mset.diff_add [OF moved_block [OF fit [THEN conjunct2, THEN conjunct2]]]
      from moved e' fit lim pad show ?thesis
        by (intro that [OF trans [OF e'(1) moved(3)]]) (auto simp: whole intro!: put_storage [OF assms(2)])
    qed
  next
    case 3
    with assms(1) have "e' = e" "xs = ?padded"
      by (auto simp: collect_slots_eq Let_def)
    with pad same [of "e_heap e" "n_allocation_failures (e_counters e)"] show ?thesis
      by (intro that [of "e_allocated_bytes e" "e_peak_bytes e" "e_heap e"
            "n_allocation_failures (e_counters e)"]) simp_all
  qed
qed

end

interpretation links_table: slot_table e_links "\<lambda>xs e. e\<lparr>e_links := xs\<rparr>" b_links b_sizeof_link
  zero_link_state wb_reserve_links
  by unfold_locales (simp_all add: wb_reserve_links_def storage_defs rebook_def)

interpretation candidates_table: slot_table e_candidates "\<lambda>xs e. e\<lparr>e_candidates := xs\<rparr>" b_candidates b_sizeof_candidate
  zero_candidate wb_reserve_candidates
  by unfold_locales (simp_all add: wb_reserve_candidates_def storage_defs rebook_def)

interpretation sources_table: slot_table e_sources "\<lambda>xs e. e\<lparr>e_sources := xs\<rparr>" b_sources b_sizeof_source
  zero_source wb_reserve_sources
  by unfold_locales (simp_all add: wb_reserve_sources_def storage_defs rebook_def)

interpretation local_table: slot_table e_local "\<lambda>xs e. e\<lparr>e_local := xs\<rparr>" b_routes b_sizeof_local
  zero_local wb_reserve_local
  by unfold_locales (simp_all add: wb_reserve_local_def storage_defs rebook_def)

interpretation drops_table: slot_table e_drops "\<lambda>xs e. e\<lparr>e_drops := xs\<rparr>" b_routes b_sizeof_drop
  zero_drop wb_reserve_drops
  by unfold_locales (simp_all add: wb_reserve_drops_def storage_defs rebook_def)

interpretation requests_table: slot_table e_requests "\<lambda>xs e. e\<lparr>e_requests := xs\<rparr>" b_requests b_sizeof_request
  zero_request wb_reserve_requests
  by unfold_locales (simp_all add: wb_reserve_requests_def storage_defs rebook_def)

text \<open>
  The contract of an array that is filled from the front: its capacity and the number of entries in
  use.
\<close>

locale front_array =
  fixes capacity :: "wb_engine \<Rightarrow> nat"
    and put_capacity :: "nat \<Rightarrow> wb_engine \<Rightarrow> wb_engine"
    and used :: "wb_engine \<Rightarrow> nat"
    and limit :: "wb_build \<Rightarrow> nat"
    and item :: "wb_build \<Rightarrow> nat"
    and reserve :: "wb_engine \<Rightarrow> nat \<Rightarrow> bool \<times> wb_engine"
  assumes reserve_eq: "reserve e n =
      (case reserve_capacity (limit (e_build e)) (item (e_build e)) (capacity e) n e of
         (ok, cap, e') \<Rightarrow> (ok, put_capacity cap e'))"
    and array_fit: "storage_ok e \<Longrightarrow> used e \<le> capacity e \<and> capacity e \<le> limit (e_build e) \<and>
      capacity e * item (e_build e) \<le> e_allocated_bytes e \<and>
      block_of (capacity e * item (e_build e)) \<subseteq># h_blocks (e_heap e)"
    and put_storage: "storage_ok e \<Longrightarrow> used e \<le> cap \<Longrightarrow> cap \<le> limit (e_build e) \<Longrightarrow>
      a + capacity e * item (e_build e) = e_allocated_bytes e + cap * item (e_build e) \<Longrightarrow>
      a \<le> p \<Longrightarrow> h_blocks k + block_of (capacity e * item (e_build e)) =
        h_blocks (e_heap e) + block_of (cap * item (e_build e)) \<Longrightarrow> storage_ok (put_capacity cap (rebook e a p k f))"
begin

lemma reserve_frame:
  assumes "reserve e n = (ok, e')"
  obtains a p k f cap where "e' = put_capacity cap (rebook e a p k f)"
proof -
  obtain cap e1 where
    r: "reserve_capacity (limit (e_build e)) (item (e_build e)) (capacity e) n e = (ok, cap, e1)"
      and e': "e' = put_capacity cap e1"
    using assms by (auto simp: reserve_eq split: prod.splits)
  obtain a p k f where "e1 = rebook e a p k f" by (rule reserve_capacity_rebook [OF r])
  with e' that show ?thesis by simp
qed

lemma reserve_spec:
  assumes "reserve e n = (ok, e')" and "storage_ok e"
  obtains a p k f cap where "e' = put_capacity cap (rebook e a p k f)"
    and "storage_ok e'" and "ok \<longleftrightarrow> n \<le> cap" and "capacity e \<le> cap" and "cap \<le> limit (e_build e)"
proof -
  obtain cap e1 where r: "reserve_capacity (limit (e_build e)) (item (e_build e)) (capacity e) n e =
      (ok, cap, e1)" and e': "e' = put_capacity cap e1"
    using assms(1) by (auto simp: reserve_eq split: prod.splits)
  note fit = array_fit [OF assms(2)]
  from r fit [THEN conjunct2, THEN conjunct1] fit [THEN conjunct2, THEN conjunct2, THEN conjunct1]
    storage_peak [OF assms(2)] fit [THEN conjunct2, THEN conjunct2, THEN conjunct2]
  obtain a p k f where *: "e1 = rebook e a p k f"
    "a + capacity e * item (e_build e) = e_allocated_bytes e + cap * item (e_build e)" "a \<le> p"
    "capacity e \<le> cap" "cap \<le> limit (e_build e)" "ok \<longleftrightarrow> n \<le> cap"
    "h_blocks k + block_of (capacity e * item (e_build e)) = h_blocks (e_heap e) + block_of (cap * item (e_build e))"
    by (rule reserve_capacity_spec)
  have "used e \<le> cap" using fit *(4) by linarith
  from put_storage [OF assms(2) this *(5,2,3,7)] show ?thesis
    using that * e' by simp
qed

lemma shrink_spec:
  assumes "shrink_capacity (item (e_build e)) n (capacity e) e = (cap, e')" and "storage_ok e"
    and "used e \<le> n" and "0 < n"
  obtains a p k f where "e' = rebook e a p k f" and "storage_ok (put_capacity cap e')"
    and "cap \<le> capacity e"
proof (cases "n \<le> capacity e div 2")
  case True
  let ?it = "item (e_build e)"
  note fit = array_fit [OF assms(2)] and peak = storage_peak [OF assms(2)]
  obtain ok e1 where r: "resize e (capacity e) n ?it = (ok, e1)" by fastforce
  with True assms(1) have e': "e' = e1" "cap = (if ok then n else capacity e)"
    by (simp_all add: shrink_capacity_def)
  have lim: "n \<le> limit (e_build e)" "n \<le> capacity e" using fit True by linarith+
  from r assms(4) fit [THEN conjunct2, THEN conjunct2, THEN conjunct1] show ?thesis
  proof (cases rule: resize_cases)
    case (refused k f)
    with e' fit peak show ?thesis
      by (intro that [of "e_allocated_bytes e" "e_peak_bytes e" k f])
        (auto intro!: put_storage [OF assms(2)])
  next
    case (moved k)
    note whole = subset_mset.diff_add [OF moved_block [OF fit [THEN conjunct2, THEN conjunct2, THEN conjunct2]]]
    from moved e' fit lim assms(3) show ?thesis
      by (intro that [of "e_allocated_bytes e + n * ?it - capacity e * ?it"
            "max (e_peak_bytes e) (e_allocated_bytes e + n * ?it)" k
            "n_allocation_failures (e_counters e)"])
        (auto simp: whole intro!: put_storage [OF assms(2)])
  qed
next
  case False
  with assms(1) have "e' = e" "cap = capacity e" by (auto simp: shrink_capacity_def)
  with put_storage [OF assms(2), of "capacity e" "e_allocated_bytes e" "e_peak_bytes e" "e_heap e"
      "n_allocation_failures (e_counters e)"] array_fit [OF assms(2)] storage_peak [OF assms(2)]
  show ?thesis
    by (intro that [of "e_allocated_bytes e" "e_peak_bytes e" "e_heap e"
          "n_allocation_failures (e_counters e)"]) simp_all
qed

end

interpretation routes_array: front_array e_routes_capacity "\<lambda>n e. e\<lparr>e_routes_capacity := n\<rparr>"
  "\<lambda>e. length (e_routes e)" b_routes b_sizeof_route wb_reserve_routes
  by unfold_locales (simp_all add: wb_reserve_routes_def storage_defs rebook_def)

interpretation before_array: front_array e_before_capacity "\<lambda>n e. e\<lparr>e_before_capacity := n\<rparr>"
  "\<lambda>e. length (e_before e)" b_routes b_sizeof_route wb_reserve_before
  by unfold_locales (simp_all add: wb_reserve_before_def storage_defs rebook_def)

interpretation scratch_array: front_array e_scratch_capacity "\<lambda>n e. e\<lparr>e_scratch_capacity := n\<rparr>"
  "\<lambda>e. 0" b_routes b_sizeof_route wb_reserve_scratch
  by unfold_locales (simp_all add: wb_reserve_scratch_def storage_defs rebook_def)

interpretation messages_array: front_array e_messages_capacity "\<lambda>n e. e\<lparr>e_messages_capacity := n\<rparr>"
  "\<lambda>e. length (e_messages e)" b_messages b_sizeof_queued wb_reserve_messages
  by unfold_locales (simp_all add: wb_reserve_messages_def storage_defs rebook_def)

section \<open>Compaction and teardown\<close>

lemma collect_tables_spec:
  assumes "storage_ok e"
  obtains a p k f links candidates sources locals drops requests where
    "collect_tables e = (rebook e a p k f)\<lparr>e_links := links, e_candidates := candidates,
       e_sources := sources, e_local := locals, e_drops := drops, e_requests := requests\<rparr>"
    and "storage_ok (collect_tables e)"
    and "packed (\<lambda>l. l_id (ls_config l) \<noteq> 0) zero_link_state (e_links e) links"
    and "packed c_used zero_candidate (e_candidates e) candidates"
    and "packed s_used zero_source (e_sources e) sources"
    and "packed lo_used zero_local (e_local e) locals"
    and "packed d_used zero_drop (e_drops e) drops"
    and "packed q_used zero_request (e_requests e) requests"
proof -
  let ?b = "e_build e"
  obtain x1 g1 where c1: "collect_slots (b_sizeof_link ?b) zero_link_state
    (\<lambda>l. l_id (ls_config l) \<noteq> 0) (e_links e) e = (x1, g1)" by fastforce
  from links_table.collect_spec [OF c1 assms] obtain a1 p1 k1 f1 where
    e1: "g1 = rebook e a1 p1 k1 f1" "packed (\<lambda>l. l_id (ls_config l) \<noteq> 0) zero_link_state (e_links e) x1"
      "storage_ok (g1\<lparr>e_links := x1\<rparr>)"
    by blast
  let ?e1 = "g1\<lparr>e_links := x1\<rparr>"
  obtain x2 g2 where c2: "collect_slots (b_sizeof_candidate (e_build ?e1)) zero_candidate c_used
    (e_candidates ?e1) ?e1 = (x2, g2)" by fastforce
  from candidates_table.collect_spec [OF c2 e1(3)] obtain a2 p2 k2 f2 where
    e2: "g2 = rebook ?e1 a2 p2 k2 f2" "packed c_used zero_candidate (e_candidates ?e1) x2"
      "storage_ok (g2\<lparr>e_candidates := x2\<rparr>)"
    by blast
  let ?e2 = "g2\<lparr>e_candidates := x2\<rparr>"
  obtain x3 g3 where c3: "collect_slots (b_sizeof_source (e_build ?e2)) zero_source s_used
    (e_sources ?e2) ?e2 = (x3, g3)" by fastforce
  from sources_table.collect_spec [OF c3 e2(3)] obtain a3 p3 k3 f3 where
    e3: "g3 = rebook ?e2 a3 p3 k3 f3" "packed s_used zero_source (e_sources ?e2) x3"
      "storage_ok (g3\<lparr>e_sources := x3\<rparr>)"
    by blast
  let ?e3 = "g3\<lparr>e_sources := x3\<rparr>"
  obtain x4 g4 where c4: "collect_slots (b_sizeof_local (e_build ?e3)) zero_local lo_used
    (e_local ?e3) ?e3 = (x4, g4)" by fastforce
  from local_table.collect_spec [OF c4 e3(3)] obtain a4 p4 k4 f4 where
    e4: "g4 = rebook ?e3 a4 p4 k4 f4" "packed lo_used zero_local (e_local ?e3) x4"
      "storage_ok (g4\<lparr>e_local := x4\<rparr>)"
    by blast
  let ?e4 = "g4\<lparr>e_local := x4\<rparr>"
  obtain x5 g5 where c5: "collect_slots (b_sizeof_drop (e_build ?e4)) zero_drop d_used
    (e_drops ?e4) ?e4 = (x5, g5)" by fastforce
  from drops_table.collect_spec [OF c5 e4(3)] obtain a5 p5 k5 f5 where
    e5: "g5 = rebook ?e4 a5 p5 k5 f5" "packed d_used zero_drop (e_drops ?e4) x5"
      "storage_ok (g5\<lparr>e_drops := x5\<rparr>)"
    by blast
  let ?e5 = "g5\<lparr>e_drops := x5\<rparr>"
  obtain x6 g6 where c6: "collect_slots (b_sizeof_request (e_build ?e5)) zero_request q_used
    (e_requests ?e5) ?e5 = (x6, g6)" by fastforce
  from requests_table.collect_spec [OF c6 e5(3)] obtain a6 p6 k6 f6 where
    e6: "g6 = rebook ?e5 a6 p6 k6 f6" "packed q_used zero_request (e_requests ?e5) x6"
      "storage_ok (g6\<lparr>e_requests := x6\<rparr>)"
    by blast
  have build: "e_build ?e1 = ?b" "e_build ?e2 = ?b" "e_build ?e3 = ?b" "e_build ?e4 = ?b"
    "e_build ?e5 = ?b"
    by (simp_all add: e1(1) e2(1) e3(1) e4(1) e5(1))
  have ct: "collect_tables e = g6\<lparr>e_requests := x6\<rparr>"
    using c1 c2 c3 c4 c5 c6 unfolding build by (simp add: collect_tables_def)
  have form: "collect_tables e = (rebook e a6 p6 k6 f6)\<lparr>e_links := x1, e_candidates := x2,
      e_sources := x3, e_local := x4, e_drops := x5, e_requests := x6\<rparr>"
    by (simp add: ct e1(1) e2(1) e3(1) e4(1) e5(1) e6(1) rebook_def)
  show ?thesis
    by (rule that [OF form])
      (use ct e1 e2 e3 e4 e5 e6 in \<open>simp_all add: rebook_def\<close>)
qed

lemmas wb_free_defs = wb_free_links_def wb_free_candidates_def wb_free_sources_def wb_free_local_def
  wb_free_drops_def wb_free_requests_def wb_free_routes_def wb_free_before_def wb_free_scratch_def
  wb_free_messages_def

lemma storage_ok_free [inv_intros]:
  assumes "storage_ok e"
  shows "storage_ok (wb_free_links e)" "storage_ok (wb_free_candidates e)"
    "storage_ok (wb_free_sources e)" "storage_ok (wb_free_local e)" "storage_ok (wb_free_drops e)"
    "storage_ok (wb_free_requests e)" "storage_ok (wb_free_routes e)" "storage_ok (wb_free_before e)"
    "storage_ok (wb_free_scratch e)" "storage_ok (wb_free_messages e)"
  using assms by (simp_all add: storage_defs wb_free_defs release_rebook rebook_def block_of_def [of 0])

lemma collect_routes_spec:
  assumes "storage_ok e"
  obtains a p k f cap where "collect_routes e = (rebook e a p k f)\<lparr>e_routes_capacity := cap\<rparr>"
    and "storage_ok (collect_routes e)" and "cap \<le> e_routes_capacity e"
proof (cases "e_routes e = []")
  case True
  then have "collect_routes e = (rebook e (e_allocated_bytes e - e_routes_capacity e * b_sizeof_route (e_build e))
      (e_peak_bytes e) (without e (e_routes_capacity e * b_sizeof_route (e_build e))) (n_allocation_failures (e_counters e)))\<lparr>e_routes_capacity := 0\<rparr>"
    using routes_array.array_fit [OF assms] by (simp add: collect_routes_def wb_free_routes_def release_rebook rebook_def)
  with True that storage_ok_free(7) [OF assms] show ?thesis
    by (simp add: collect_routes_def)
next
  case False
  obtain cap e1 where s: "shrink_capacity (b_sizeof_route (e_build e)) (length (e_routes e))
      (e_routes_capacity e) e = (cap, e1)" by fastforce
  have "0 < length (e_routes e)" using False by simp
  from routes_array.shrink_spec [OF s assms order_refl this] obtain a p k f where
    *: "e1 = rebook e a p k f" "storage_ok (e1\<lparr>e_routes_capacity := cap\<rparr>)"
      "cap \<le> e_routes_capacity e"
    by blast
  have "collect_routes e = e1\<lparr>e_routes_capacity := cap\<rparr>"
    using False s by (simp add: collect_routes_def)
  with * that show ?thesis by simp
qed

lemma collect_before_spec:
  assumes "storage_ok e" and "e_before e = []"
  obtains a p k f cap where "collect_before e = (rebook e a p k f)\<lparr>e_before_capacity := cap\<rparr>"
    and "storage_ok (collect_before e)" and "cap \<le> e_before_capacity e"
proof (cases "e_links e = [] \<or> e_routes e = []")
  case True
  then have "collect_before e = (rebook e (e_allocated_bytes e - e_before_capacity e * b_sizeof_route (e_build e))
      (e_peak_bytes e) (without e (e_before_capacity e * b_sizeof_route (e_build e))) (n_allocation_failures (e_counters e)))\<lparr>e_before_capacity := 0\<rparr>"
    using before_array.array_fit [OF assms(1)] assms(2) by (simp add: collect_before_def wb_free_before_def release_rebook rebook_def)
  with True that storage_ok_free(8) [OF assms(1)] show ?thesis
    by (simp add: collect_before_def)
next
  case False
  obtain cap e1 where s: "shrink_capacity (b_sizeof_route (e_build e)) (length (e_routes e))
      (e_before_capacity e) e = (cap, e1)" by fastforce
  have le: "length (e_before e) \<le> length (e_routes e)" using assms(2) by simp
  have "0 < length (e_routes e)" using False by simp
  from before_array.shrink_spec [OF s assms(1) le this] obtain a p k f where
    *: "e1 = rebook e a p k f" "storage_ok (e1\<lparr>e_before_capacity := cap\<rparr>)"
      "cap \<le> e_before_capacity e"
    by blast
  have "collect_before e = e1\<lparr>e_before_capacity := cap\<rparr>"
    using False s by (simp add: collect_before_def)
  with * that show ?thesis by simp
qed

lemma collect_scratch_spec:
  assumes "storage_ok e"
  obtains a p k f cap where "collect_scratch e = (rebook e a p k f)\<lparr>e_scratch_capacity := cap\<rparr>"
    and "storage_ok (collect_scratch e)" and "cap \<le> e_scratch_capacity e"
proof (cases "e_links e = [] \<or> e_routes e = []")
  case True
  then have "collect_scratch e = (rebook e (e_allocated_bytes e - e_scratch_capacity e * b_sizeof_route (e_build e))
      (e_peak_bytes e) (without e (e_scratch_capacity e * b_sizeof_route (e_build e))) (n_allocation_failures (e_counters e)))\<lparr>e_scratch_capacity := 0\<rparr>"
    using scratch_array.array_fit [OF assms] by (simp add: collect_scratch_def wb_free_scratch_def release_rebook rebook_def)
  with True that storage_ok_free(9) [OF assms] show ?thesis
    by (simp add: collect_scratch_def)
next
  case False
  obtain cap e1 where s: "shrink_capacity (b_sizeof_route (e_build e)) (length (e_routes e))
      (e_scratch_capacity e) e = (cap, e1)" by fastforce
  have "0 < length (e_routes e)" using False by simp
  from scratch_array.shrink_spec [OF s assms le0 this] obtain a p k f where
    *: "e1 = rebook e a p k f" "storage_ok (e1\<lparr>e_scratch_capacity := cap\<rparr>)"
      "cap \<le> e_scratch_capacity e"
    by blast
  have "collect_scratch e = e1\<lparr>e_scratch_capacity := cap\<rparr>"
    using False s by (simp add: collect_scratch_def)
  with * that show ?thesis by simp
qed

lemma wb_collect_spec:
  assumes "storage_ok e" and "e_before e = []"
  obtains a p k f links candidates sources locals drops requests c1 c2 c3 where
    "wb_collect e = (rebook e a p k f)\<lparr>e_links := links, e_candidates := candidates,
       e_sources := sources, e_local := locals, e_drops := drops, e_requests := requests,
       e_routes_capacity := c1, e_before_capacity := c2, e_scratch_capacity := c3\<rparr>"
    and "storage_ok (wb_collect e)"
    and "packed (\<lambda>l. l_id (ls_config l) \<noteq> 0) zero_link_state (e_links e) links"
    and "packed c_used zero_candidate (e_candidates e) candidates"
    and "packed s_used zero_source (e_sources e) sources"
    and "packed lo_used zero_local (e_local e) locals"
    and "packed d_used zero_drop (e_drops e) drops"
    and "packed q_used zero_request (e_requests e) requests"
    and "c1 \<le> e_routes_capacity e" and "c2 \<le> e_before_capacity e"
    and "c3 \<le> e_scratch_capacity e"
proof -
  obtain a p k f links candidates sources locals drops requests where
    t: "collect_tables e = (rebook e a p k f)\<lparr>e_links := links, e_candidates := candidates,
       e_sources := sources, e_local := locals, e_drops := drops, e_requests := requests\<rparr>"
      "storage_ok (collect_tables e)"
    and packed: "packed (\<lambda>l. l_id (ls_config l) \<noteq> 0) zero_link_state (e_links e) links"
      "packed c_used zero_candidate (e_candidates e) candidates"
      "packed s_used zero_source (e_sources e) sources"
      "packed lo_used zero_local (e_local e) locals"
      "packed d_used zero_drop (e_drops e) drops"
      "packed q_used zero_request (e_requests e) requests"
    by (rule collect_tables_spec [OF assms(1)])
  obtain a1 p1 k1 f1 c1 where
    r: "collect_routes (collect_tables e) = (rebook (collect_tables e) a1 p1 k1 f1)\<lparr>e_routes_capacity := c1\<rparr>"
      "storage_ok (collect_routes (collect_tables e))" "c1 \<le> e_routes_capacity (collect_tables e)"
    by (rule collect_routes_spec [OF t(2)])
  have nb: "e_before (collect_routes (collect_tables e)) = []"
    using assms(2) by (subst r(1)) (simp add: t(1) rebook_def)
  obtain a2 p2 k2 f2 c2 where
    b: "collect_before (collect_routes (collect_tables e)) =
        (rebook (collect_routes (collect_tables e)) a2 p2 k2 f2)\<lparr>e_before_capacity := c2\<rparr>"
      "storage_ok (collect_before (collect_routes (collect_tables e)))"
      "c2 \<le> e_before_capacity (collect_routes (collect_tables e))"
    by (rule collect_before_spec [OF r(2) nb])
  obtain a3 p3 k3 f3 c3 where
    s: "wb_collect e = (rebook (collect_before (collect_routes (collect_tables e))) a3 p3 k3 f3)
        \<lparr>e_scratch_capacity := c3\<rparr>" "storage_ok (wb_collect e)"
      "c3 \<le> e_scratch_capacity (collect_before (collect_routes (collect_tables e)))"
    unfolding wb_collect_def by (rule collect_scratch_spec [OF b(2)])
  have form: "wb_collect e = (rebook e a3 p3 k3 f3)\<lparr>e_links := links, e_candidates := candidates,
       e_sources := sources, e_local := locals, e_drops := drops, e_requests := requests,
       e_routes_capacity := c1, e_before_capacity := c2, e_scratch_capacity := c3\<rparr>"
    by (subst s(1), subst b(1), subst r(1), subst t(1)) (simp add: rebook_def)
  have "c1 \<le> e_routes_capacity e"
    using r(3) by (simp add: t(1) rebook_def)
  moreover have "c2 \<le> e_before_capacity e"
    using b(3) by (subst (asm) r(1)) (simp add: t(1) rebook_def)
  moreover have "c3 \<le> e_scratch_capacity e"
    using s(3) by (subst (asm) b(1), subst (asm) r(1)) (simp add: t(1) rebook_def)
  ultimately show ?thesis by (rule that [OF form s(2) packed])
qed

lemma storage_ok_zero [inv_intros]: "h_blocks k = {#} \<Longrightarrow> storage_ok (zero_engine c k)"
  by (simp add: storage_defs zero_engine_def block_of_def)

text \<open>After the ten calls of \<open>wb_deinit\<close> no table has a block, so what is accounted for is nothing.\<close>

lemma free_all_ok: "storage_ok e \<Longrightarrow> storage_ok (free_all e)"
  unfolding free_all_def by (intro storage_ok_free)

lemma release_frame [simp]:
  "e_config (release e p n) = e_config e" "e_links (release e p n) = e_links e"
  "e_candidates (release e p n) = e_candidates e" "e_sources (release e p n) = e_sources e"
  "e_local (release e p n) = e_local e" "e_drops (release e p n) = e_drops e"
  "e_requests (release e p n) = e_requests e" "e_routes_capacity (release e p n) = e_routes_capacity e"
  "e_before_capacity (release e p n) = e_before_capacity e" "e_scratch_capacity (release e p n) = e_scratch_capacity e"
  "e_messages_capacity (release e p n) = e_messages_capacity e" "e_stopped (release e p n) = e_stopped e"
  by (simp_all add: release_def deallocate_def Let_def)

lemma free_all_empty:
  "e_links (free_all e) = []" "e_candidates (free_all e) = []" "e_sources (free_all e) = []" "e_local (free_all e) = []"
  "e_drops (free_all e) = []" "e_requests (free_all e) = []" "e_routes_capacity (free_all e) = 0"
  "e_before_capacity (free_all e) = 0" "e_scratch_capacity (free_all e) = 0" "e_messages_capacity (free_all e) = 0"
  by (simp_all add: free_all_def wb_free_defs)

section \<open>A concrete engine\<close>

text \<open>The limits of the constrained profile on a 32-bit target whose allocator never fails; the
  evaluations below start from it.\<close>

definition example_build :: wb_build where
  "example_build = \<lparr>b_links = 4, b_routes = 32, b_candidates = 64, b_sources = 64, b_requests = 8,
     b_messages = 96, b_sizeof_link = 152, b_sizeof_candidate = 80, b_sizeof_source = 48,
     b_sizeof_local = 24, b_sizeof_drop = 32, b_sizeof_request = 128, b_sizeof_route = 64,
     b_sizeof_queued = 72, b_sizeof_engine = 320, b_size_max = 4294967295, b_malloc = \<lambda>_ _. True\<rparr>"

definition example_config :: wb_config where
  "example_config = \<lparr>cfg_router = 7, cfg_seed = 1, cfg_seqno = 5, cfg_hello_ms = 4000,
     cfg_update_ms = 16000, cfg_source_ms = 180000, cfg_ipv4_via_ipv6 = False,
     cfg_local_only = False, cfg_allow = None, cfg_allocate = None, cfg_deallocate = False,
     cfg_build = example_build\<rparr>"

definition example_tables :: wb_engine where
  "example_tables = (zero_engine example_config \<lparr>h_calls = 3, h_blocks = {#152, 192#}\<rparr>)
     \<lparr>e_sources := [zero_source, zero_source\<lparr>s_used := True, s_router := 9\<rparr>, zero_source, zero_source],
      e_links := [zero_link_state], e_allocated_bytes := 344, e_peak_bytes := 400, e_ready := True\<rparr>"

lemmas example_defs = example_build_def example_config_def example_tables_def zero_engine_def
  zero_source_def zero_link_state_def zero_link_def zero_counters_def

section \<open>Properties\<close>

text \<open>C9: compaction keeps every live entry of every table in order, leaves routes and queued
  messages alone, stays within the limits with exact accounting, and never holds more memory than
  before, whether or not its shrinking reallocations succeed.\<close>

theorem wb_collect_keeps_live:
  assumes "storage_ok e" and "e_before e = []"
  shows "storage_ok (wb_collect e)
    \<and> filter (\<lambda>l. l_id (ls_config l) \<noteq> 0) (e_links (wb_collect e)) =
        filter (\<lambda>l. l_id (ls_config l) \<noteq> 0) (e_links e)
    \<and> filter c_used (e_candidates (wb_collect e)) = filter c_used (e_candidates e)
    \<and> filter s_used (e_sources (wb_collect e)) = filter s_used (e_sources e)
    \<and> filter lo_used (e_local (wb_collect e)) = filter lo_used (e_local e)
    \<and> filter d_used (e_drops (wb_collect e)) = filter d_used (e_drops e)
    \<and> filter q_used (e_requests (wb_collect e)) = filter q_used (e_requests e)
    \<and> e_routes (wb_collect e) = e_routes e \<and> e_messages (wb_collect e) = e_messages e
    \<and> e_allocated_bytes (wb_collect e) \<le> e_allocated_bytes e"
proof -
  obtain a p k f links candidates sources locals drops requests c1 c2 c3 where
    form: "wb_collect e = (rebook e a p k f)\<lparr>e_links := links, e_candidates := candidates,
       e_sources := sources, e_local := locals, e_drops := drops, e_requests := requests,
       e_routes_capacity := c1, e_before_capacity := c2, e_scratch_capacity := c3\<rparr>"
    and ok: "storage_ok (wb_collect e)"
    and packed: "packed (\<lambda>l. l_id (ls_config l) \<noteq> 0) zero_link_state (e_links e) links"
      "packed c_used zero_candidate (e_candidates e) candidates"
      "packed s_used zero_source (e_sources e) sources"
      "packed lo_used zero_local (e_local e) locals"
      "packed d_used zero_drop (e_drops e) drops"
      "packed q_used zero_request (e_requests e) requests"
    and caps: "c1 \<le> e_routes_capacity e" "c2 \<le> e_before_capacity e" "c3 \<le> e_scratch_capacity e"
    by (rule wb_collect_spec [OF assms])
  have "table_bytes (wb_collect e) \<le> table_bytes e"
    unfolding form table_bytes_def rebook_def
    using packed [THEN packed_length] caps by (simp add: add_mono mult_le_mono)
  moreover have "e_allocated_bytes (wb_collect e) = table_bytes (wb_collect e)"
    "e_allocated_bytes e = table_bytes e"
    using ok assms(1) by (simp_all add: storage_ok_def accounted_def)
  moreover note packed [THEN packed_live]
  ultimately show ?thesis
    using ok by (simp add: form rebook_def zero_link_state_def zero_link_def zero_candidate_def
      zero_source_def zero_local_def zero_drop_def zero_request_def)
qed

lemma example_tables_ok: "storage_ok example_tables" "e_before example_tables = []"
  by (simp_all add: storage_defs example_defs block_of_def)

theorem wb_collect_keeps_live_witness:
  "storage_ok example_tables \<and> e_before example_tables = [] \<and>
   map s_router (filter s_used (e_sources (wb_collect example_tables))) = [9] \<and>
   e_allocated_bytes (wb_collect example_tables) \<le> 344"
proof -
  have live: "map s_router (filter s_used (e_sources example_tables)) = [9]"
    and bytes: "e_allocated_bytes example_tables = 344"
    by (simp_all add: example_defs)
  show ?thesis
    using wb_collect_keeps_live [OF example_tables_ok] example_tables_ok live bytes by simp
qed

text \<open>C10: \<open>wb_deinit\<close> gives every block of every table back to the allocator, and the engine's own count of
  allocated bytes is back at zero, without wrapping, when \<open>memset\<close> clears it.\<close>

theorem wb_deinit_releases:
  assumes "storage_ok e"
  shows "h_blocks (e_heap (wb_deinit e)) = {#} \<and> e_allocated_bytes (free_all e) = 0"
  using free_all_ok [OF assms] by (simp add: wb_deinit_def zero_engine_def Let_def storage_defs free_all_empty block_of_def)

theorem wb_deinit_releases_witness:
  "storage_ok example_tables \<and> h_blocks (e_heap example_tables) = {#152, 192#} \<and>
   h_blocks (e_heap (wb_deinit example_tables)) = {#} \<and> e_allocated_bytes (free_all example_tables) = 0"
proof -
  have "h_blocks (e_heap example_tables) = {#152, 192#}" by (simp add: example_tables_def zero_engine_def)
  then show ?thesis using wb_deinit_releases [OF example_tables_ok(1)] example_tables_ok(1) by simp
qed

end
