(* ===== verification/Babel_Select.thy ===== *)
theory Babel_Select
  imports Babel_Storage
begin

text \<open>
  The first half of \<open>components/wendy_babel/src/engine.c\<close>: sequence number and cost arithmetic,
  table lookups, the outgoing queue, route advertisement with its feasibility history, sequence
  number requests, and route selection (\<open>select_routes\<close>). A pointer into a table is the index
  of its slot, \<open>NULL\<close> is \<^const>\<open>None\<close>; no operation keeps such a pointer across a
  reallocation of the same table.
\<close>

section \<open>Arithmetic\<close>

definition newer :: "u16 \<Rightarrow> u16 \<Rightarrow> bool" where
  "newer a b = (let d = a - b in d \<noteq> 0 \<and> d < 32768)"

definition at_least :: "u16 \<Rightarrow> u16 \<Rightarrow> bool" where
  "at_least a b \<longleftrightarrow> a = b \<or> newer a b"

definition add_cost :: "u16 \<Rightarrow> u16 \<Rightarrow> u16" where
  "add_cost a b =
     (let n = ucast a + ucast b :: u32 in if 65535 \<le> n then WB_INFINITY else ucast n)"

definition hold :: "u64 \<Rightarrow> u64" where
  "hold n = n * 7 div 2"

definition zero_bytes :: "bytes \<Rightarrow> nat \<Rightarrow> bool" where
  "zero_bytes a n = list_all (\<lambda>b. b = 0) (take n a)"

definition prefix_cmp :: "wb_prefix \<Rightarrow> wb_prefix \<Rightarrow> int" where
  "prefix_cmp a b =
     (if p_family a \<noteq> p_family b then (if p_family a < p_family b then -1 else 1)
      else let c = memcmp (p_bytes a) (p_bytes b)
           in if c \<noteq> 0 then c else uint (p_bits a) - uint (p_bits b))"

definition routable6 :: "bytes \<Rightarrow> bool" where
  "routable6 b =
     (if (b ! 0 = 0xfe \<and> and (b ! 1) 0xc0 = 0x80) \<or> b ! 0 = 0xff then False
      else if zero_bytes b 15 \<and> b ! 15 = 1 then False
      else if zero_bytes b 10 \<and> b ! 10 = 0xff \<and> b ! 11 = 0xff then False
      else True)"

definition routable4 :: "bytes \<Rightarrow> bool" where
  "routable4 b \<longleftrightarrow> \<not> (b ! 0 = 127 \<or> (b ! 0 = 169 \<and> b ! 1 = 254) \<or> and (b ! 0) 0xf0 = 0xe0)"

definition routable :: "wb_prefix \<Rightarrow> bool" where
  "routable p =
     (if \<not> wb_prefix_valid p then False
      else if p_family p = 6 \<and> \<not> routable6 (p_bytes p) then False
      else if p_family p \<noteq> 6 \<and> \<not> routable4 (p_bytes p) then False
      else \<not> (zero_bytes (p_bytes p) 16 \<and> p_bits p = (if p_family p = 4 then 32 else 128)))"

section \<open>Lookups\<close>

definition link_for :: "wb_engine \<Rightarrow> u64 \<Rightarrow> nat option" where
  "link_for e i = find_slot (\<lambda>l. l_id (ls_config l) = i) (e_links e)"

definition source_for :: "wb_engine \<Rightarrow> wb_prefix \<Rightarrow> u64 \<Rightarrow> nat option" where
  "source_for e p router =
     find_slot (\<lambda>s. s_used s \<and> s_router s = router \<and> wb_prefix_equal (s_prefix s) p) (e_sources e)"

definition route_for :: "wb_engine \<Rightarrow> wb_prefix \<Rightarrow> nat option" where
  "route_for e p = find_slot (\<lambda>r. wb_prefix_equal (r_prefix r) p) (e_routes e)"

definition local_for :: "wb_engine \<Rightarrow> wb_prefix \<Rightarrow> nat option" where
  "local_for e p = find_slot (\<lambda>l. lo_used l \<and> wb_prefix_equal (lo_prefix l) p) (e_local e)"

definition prefix_admitted :: "wb_engine \<Rightarrow> wb_prefix \<Rightarrow> bool" where
  "prefix_admitted e p \<longleftrightarrow>
     list_ex (\<lambda>c. c_used c \<and> wb_prefix_equal (r_prefix (c_route c)) p) (e_candidates e) \<or>
     list_ex (\<lambda>l. lo_used l \<and> wb_prefix_equal (lo_prefix l) p) (e_local e) \<or>
     list_ex (\<lambda>d. d_used d \<and> wb_prefix_equal (d_prefix d) p) (e_drops e)"

definition candidate_seen :: "wb_candidate list \<Rightarrow> wb_prefix \<Rightarrow> bool" where
  "candidate_seen cs p = list_ex (\<lambda>c. c_used c \<and> wb_prefix_equal p (r_prefix (c_route c))) cs"

definition local_seen :: "wb_local list \<Rightarrow> wb_prefix \<Rightarrow> bool" where
  "local_seen ls p = list_ex (\<lambda>l. lo_used l \<and> wb_prefix_equal p (lo_prefix l)) ls"

definition admission_count :: "wb_engine \<Rightarrow> nat" where
  "admission_count e =
     length (filter (\<lambda>i. c_used (e_candidates e ! i) \<and>
                \<not> candidate_seen (take i (e_candidates e)) (r_prefix (c_route (e_candidates e ! i))))
              [0..<length (e_candidates e)]) +
     length (filter (\<lambda>l. lo_used l \<and> \<not> candidate_seen (e_candidates e) (lo_prefix l)) (e_local e)) +
     length (filter (\<lambda>d. d_used d \<and> \<not> (candidate_seen (e_candidates e) (d_prefix d) \<or>
                                        local_seen (e_local e) (d_prefix d))) (e_drops e))"

definition hello_ms :: "wb_engine \<Rightarrow> wb_link_state \<Rightarrow> u32" where
  "hello_ms e l = (if l_hello_ms (ls_config l) \<noteq> 0 then l_hello_ms (ls_config l)
                   else cfg_hello_ms (e_config e))"

definition cost_at :: "wb_link_state option \<Rightarrow> u64 \<Rightarrow> u16" where
  "cost_at lo now =
     (case lo of
        None \<Rightarrow> WB_INFINITY
      | Some l \<Rightarrow>
          if ls_ihu_expires l \<le> now \<or> ls_tx l = WB_INFINITY \<or>
             (ls_hello_expires l ! 0 \<le> now \<and> ls_hello_expires l ! 1 \<le> now)
          then WB_INFINITY
          else if ls_tx l < l_cost (ls_config l) then l_cost (ls_config l)
          else if ls_tx l \<noteq> 0 then ls_tx l else 1)"

definition link_at :: "wb_engine \<Rightarrow> u64 \<Rightarrow> wb_link_state option" where
  "link_at e i = map_option (\<lambda>k. e_links e ! k) (link_for e i)"

definition cost :: "wb_engine \<Rightarrow> wb_link_state option \<Rightarrow> u16" where
  "cost e l = cost_at l (e_now e)"

definition allowed :: "wb_engine \<Rightarrow> wb_candidate \<Rightarrow> bool" where
  "allowed e c =
     (case cfg_allow (e_config e) of
        None \<Rightarrow> True
      | Some f \<Rightarrow> f (r_router (c_route c)) (r_prefix (c_route c)) (r_seqno (c_route c)))"

definition metric :: "wb_engine \<Rightarrow> wb_candidate \<Rightarrow> u16" where
  "metric e c =
     (if allowed e c then add_cost (c_advertised c) (cost e (link_at e (r_link (c_route c))))
      else WB_INFINITY)"

definition feasible :: "wb_engine \<Rightarrow> wb_candidate \<Rightarrow> bool" where
  "feasible e c =
     (c_advertised c = WB_INFINITY \<or>
      (case source_for e (r_prefix (c_route c)) (r_router (c_route c)) of
         None \<Rightarrow> True
       | Some i \<Rightarrow> let s = e_sources e ! i
                  in newer (r_seqno (c_route c)) (s_seqno s) \<or>
                     (r_seqno (c_route c) = s_seqno s \<and> c_advertised c < s_metric s)))"

section \<open>Timers and the outgoing queue\<close>

definition xorshift :: "u64 \<Rightarrow> u64" where
  "xorshift r =
     (let r = xor r (push_bit 13 r); r = xor r (drop_bit 7 r) in xor r (push_bit 17 r))"

definition jitter :: "wb_engine \<Rightarrow> u64 \<Rightarrow> u64 \<times> wb_engine" where
  "jitter e maximum = (let r = xorshift (e_rng e) in (r mod (maximum + 1), e\<lparr>e_rng := r\<rparr>))"

definition trigger :: "wb_engine \<Rightarrow> bool \<Rightarrow> wb_engine" where
  "trigger e again =
     (let e = (if e_trigger e then e
               else case jitter e 50 of (j, e') \<Rightarrow>
                 e'\<lparr>e_trigger := True, e_trigger_at := e_now e' + j\<rparr>)
      in if again then e\<lparr>e_repeats := 2\<rparr> else e)"

definition count_queue_drop :: "wb_engine \<Rightarrow> wb_engine" where
  "count_queue_drop e = e\<lparr>e_counters := (e_counters e)\<lparr>n_queue_drops := n_queue_drops (e_counters e) + 1\<rparr>\<rparr>"

definition count_rejected :: "wb_engine \<Rightarrow> wb_engine" where
  "count_rejected e = e\<lparr>e_counters := (e_counters e)\<lparr>n_rejected := n_rejected (e_counters e) + 1\<rparr>\<rparr>"

definition queue :: "wb_engine \<Rightarrow> u64 \<Rightarrow> wb_message \<Rightarrow> wb_engine" where
  "queue e i m =
     (if link_for e i = None then e
      else if length (e_messages e) = b_messages (e_build e) then count_queue_drop e
      else case wb_reserve_messages e (length (e_messages e) + 1) of
        (False, e') \<Rightarrow> count_queue_drop e'
      | (True, e') \<Rightarrow> e'\<lparr>e_messages := e_messages e' @ [\<lparr>qd_message = m, qd_link = i\<rparr>]\<rparr>)"

section \<open>Advertisement\<close>

definition unreachable_update :: "wb_engine \<Rightarrow> wb_prefix \<Rightarrow> wb_message" where
  "unreachable_update e p =
     (message WB_UPDATE)\<lparr>m_prefix := p, m_metric := WB_INFINITY,
                         m_interval := ucast (cfg_update_ms (e_config e) div 10)\<rparr>"

definition advertise_message ::
  "wb_engine \<Rightarrow> wb_link_state \<Rightarrow> wb_prefix \<Rightarrow> wb_route \<Rightarrow> wb_message option" where
  "advertise_message e l p r =
     (let m = (unreachable_update e p)\<lparr>m_router := r_router r, m_seqno := r_seqno r,
                                       m_metric := r_metric r\<rparr>
      in if p_family p = 4 then
           if \<not> zero_bytes (l_ipv4 (ls_config l)) 4 then
             Some (m\<lparr>m_address_family := 4,
                     m_address := memcpy_at 0 (take 4 (l_ipv4 (ls_config l))) (m_address m)\<rparr>)
           else if cfg_ipv4_via_ipv6 (e_config e) then Some (m\<lparr>m_via6 := True\<rparr>)
           else None
         else Some m)"

definition refresh_source :: "wb_engine \<Rightarrow> nat \<Rightarrow> wb_route \<Rightarrow> wb_engine" where
  "refresh_source e i r =
     (let s = e_sources e ! i;
          s = (if newer (r_seqno r) (s_seqno s) \<or>
                  (r_seqno r = s_seqno s \<and> r_metric r < s_metric s)
               then s\<lparr>s_seqno := r_seqno r, s_metric := r_metric r\<rparr> else s);
          s = s\<lparr>s_expires := e_now e + ucast (cfg_source_ms (e_config e))\<rparr>
      in e\<lparr>e_sources := (e_sources e)[i := s]\<rparr>)"

definition new_source :: "wb_prefix \<Rightarrow> wb_route \<Rightarrow> wb_source" where
  "new_source p r = \<lparr>s_prefix = p, s_router = r_router r, s_expires = 0, s_seqno = r_seqno r,
                     s_metric = r_metric r, s_used = True\<rparr>"

definition record_source :: "wb_engine \<Rightarrow> wb_prefix \<Rightarrow> wb_route \<Rightarrow> bool \<times> wb_engine" where
  "record_source e p r =
     (case source_for e p (r_router r) of
        Some i \<Rightarrow> (True, refresh_source e i r)
      | None \<Rightarrow> (case claim_slot (\<lambda>s. \<not> s_used s) e_sources wb_reserve_sources e of
          (None, e') \<Rightarrow> (False, count_rejected e')
        | (Some i, e') \<Rightarrow>
            (True, refresh_source (e'\<lparr>e_sources := (e_sources e')[i := new_source p r]\<rparr>) i r)))"

definition advertise :: "wb_engine \<Rightarrow> u64 \<Rightarrow> wb_prefix \<Rightarrow> bool \<Rightarrow> wb_engine" where
  "advertise e i p explicit =
     (case link_for e i of
        None \<Rightarrow> e
      | Some li \<Rightarrow> (case route_for e p of
          None \<Rightarrow> queue e i (unreachable_update e p)
        | Some ri \<Rightarrow>
            let r = e_routes e ! ri
            in if r_unreachable r then queue e i (unreachable_update e p)
               else if \<not> explicit \<and> r_link r = i then e
               else case advertise_message e (e_links e ! li) p r of
                 None \<Rightarrow> e
               | Some m \<Rightarrow> (case record_source e p r of
                   (False, e') \<Rightarrow> e'
                 | (True, e') \<Rightarrow> queue e' i m)))"

definition dump :: "wb_engine \<Rightarrow> u64 \<Rightarrow> bool \<Rightarrow> wb_engine" where
  "dump e i explicit = fold (\<lambda>r e. advertise e i (r_prefix r) explicit) (e_routes e) e"

section \<open>Sequence number requests\<close>

definition request_for :: "wb_engine \<Rightarrow> wb_prefix \<Rightarrow> u64 \<Rightarrow> nat option" where
  "request_for e p router =
     find_slot (\<lambda>q. q_used q \<and> m_router (q_message q) = router \<and>
                    wb_prefix_equal (m_prefix (q_message q)) p) (e_requests e)"

definition request_message :: "wb_prefix \<Rightarrow> u64 \<Rightarrow> u16 \<Rightarrow> u8 \<Rightarrow> wb_message" where
  "request_message p router seq hops =
     (message WB_SEQ_REQUEST)\<lparr>m_prefix := p, m_router := router, m_seqno := seq, m_hops := hops\<rparr>"

definition request_target :: "nat \<Rightarrow> u64 \<Rightarrow> wb_engine \<Rightarrow> wb_engine" where
  "request_target i t e =
     (let q = e_requests e ! i
      in if t \<in> set (q_targets q) then e
         else queue (e\<lparr>e_requests := (e_requests e)[i := q\<lparr>q_targets := q_targets q @ [t]\<rparr>]\<rparr>)
                t (q_message q))"

definition request_slot :: "wb_engine \<Rightarrow> wb_prefix \<Rightarrow> u64 \<Rightarrow> nat option \<times> wb_engine" where
  "request_slot e p router =
     (case request_for e p router of
        Some i \<Rightarrow> (Some i, e)
      | None \<Rightarrow> claim_slot (\<lambda>q. \<not> q_used q) e_requests wb_reserve_requests e)"

definition request ::
  "wb_engine \<Rightarrow> wb_prefix \<Rightarrow> u64 \<Rightarrow> u16 \<Rightarrow> u64 list \<Rightarrow> u64 \<Rightarrow> u8 \<Rightarrow> wb_engine" where
  "request e p router seq targets from hops =
     (if (case request_for e p router of None \<Rightarrow> False
          | Some i \<Rightarrow> at_least (m_seqno (q_message (e_requests e ! i))) seq)
      then e
      else case request_slot e p router of
        (None, e') \<Rightarrow> count_rejected e'
      | (Some i, e') \<Rightarrow>
          fold (request_target i) (take (b_links (e_build e)) targets)
            (e'\<lparr>e_requests := (e_requests e')[i :=
                \<lparr>q_message = request_message p router seq hops, q_targets = [], q_from = from,
                 q_next = e_now e' + 1000, q_expires = e_now e' + 4000, q_remaining = 2,
                 q_used = True\<rparr>]\<rparr>))"

section \<open>Route selection\<close>

definition drop_for :: "wb_engine \<Rightarrow> wb_prefix \<Rightarrow> nat option" where
  "drop_for e p = find_slot (\<lambda>d. d_used d \<and> wb_prefix_equal (d_prefix d) p) (e_drops e)"

definition drop_slot :: "wb_engine \<Rightarrow> wb_prefix \<Rightarrow> nat option \<times> wb_engine" where
  "drop_slot e p =
     (case drop_for e p of
        Some i \<Rightarrow> (Some i, e)
      | None \<Rightarrow> claim_slot (\<lambda>d. \<not> d_used d) e_drops wb_reserve_drops e)"

definition drop_route :: "wb_engine \<Rightarrow> wb_prefix \<Rightarrow> wb_engine" where
  "drop_route e p =
     (case drop_slot e p of
        (Some i, e') \<Rightarrow> e'\<lparr>e_drops := (e_drops e')[i :=
            \<lparr>d_prefix = p, d_expires = e_now e' + hold (ucast (cfg_update_ms (e_config e'))),
             d_used = True\<rparr>]\<rparr>
      | (None, e') \<Rightarrow> e'\<lparr>e_stopped := True\<rparr>)"

definition route_equal :: "wb_route \<Rightarrow> wb_route \<Rightarrow> bool" where
  "route_equal a b \<longleftrightarrow>
     wb_prefix_equal (r_prefix a) (r_prefix b) \<and> r_router a = r_router b \<and> r_link a = r_link b \<and>
     r_seqno a = r_seqno b \<and> r_metric a = r_metric b \<and> r_local a = r_local b \<and>
     r_unreachable a = r_unreachable b \<and> r_next_family a = r_next_family b \<and>
     memcmp (take 16 (r_next_hop a)) (take 16 (r_next_hop b)) = 0"

text \<open>
  The insertion sort shifts larger entries to the right, starting from the end of the sorted front
  part; \<open>shift_in\<close> works on that part in reverse.
\<close>

fun shift_in :: "wb_route \<Rightarrow> wb_route list \<Rightarrow> wb_route list" where
  "shift_in r [] = [r]"
| "shift_in r (x # xs) =
     (if prefix_cmp (r_prefix r) (r_prefix x) < 0 then x # shift_in r xs else r # x # xs)"

definition sort_routes :: "wb_engine \<Rightarrow> wb_engine" where
  "sort_routes e = e\<lparr>e_routes := rev (fold shift_in (e_routes e) [])\<rparr>"

definition push_route :: "wb_engine \<Rightarrow> wb_route \<Rightarrow> bool \<times> wb_engine" where
  "push_route e r =
     (case wb_reserve_routes e (length (e_routes e) + 1) of
        (False, e') \<Rightarrow> (False, e'\<lparr>e_stopped := True\<rparr>)
      | (True, e') \<Rightarrow> (True, e'\<lparr>e_routes := e_routes e' @ [r]\<rparr>))"

definition local_route :: "wb_engine \<Rightarrow> wb_local \<Rightarrow> wb_route" where
  "local_route e l = zero_route\<lparr>r_prefix := lo_prefix l, r_router := cfg_router (e_config e),
     r_seqno := e_seqno e, r_metric := lo_metric l, r_local := True\<rparr>"

text \<open>
  A selection loop returns whether it ran to its end; \<^const>\<open>False\<close> is the jump to \<open>done\<close> after
  a failed reservation.
\<close>

fun select_local :: "wb_local list \<Rightarrow> wb_engine \<Rightarrow> bool \<times> wb_engine" where
  "select_local [] e = (True, e)"
| "select_local (l # ls) e =
     (if lo_used l then
        (case push_route e (local_route e l) of
           (False, e') \<Rightarrow> (False, e')
         | (True, e') \<Rightarrow> select_local ls e')
      else select_local ls e)"

definition previous_link :: "wb_route list \<Rightarrow> wb_prefix \<Rightarrow> u64" where
  "previous_link old p =
     (case find_slot (\<lambda>r. wb_prefix_equal (r_prefix r) p) old of None \<Rightarrow> 0 | Some j \<Rightarrow> r_link (old ! j))"

definition select_candidate :: "wb_route list \<Rightarrow> wb_candidate \<Rightarrow> wb_engine \<Rightarrow> bool \<times> wb_engine" where
  "select_candidate old c e =
     (if \<not> c_used c \<or> local_for e (r_prefix (c_route c)) \<noteq> None then (True, e)
      else
        let m = metric e c
        in if m = WB_INFINITY \<or> \<not> feasible e c then (True, e)
           else
             let previous = previous_link old (r_prefix (c_route c));
                 chosen = (c_route c)\<lparr>r_metric := m\<rparr>
             in case route_for e (r_prefix (c_route c)) of
                  None \<Rightarrow> push_route e chosen
                | Some i \<Rightarrow>
                    let r = e_routes e ! i
                    in if m < r_metric r \<or>
                          (m = r_metric r \<and>
                           (r_link (c_route c) = previous \<or>
                            (r_link r \<noteq> previous \<and> r_link (c_route c) < r_link r)))
                       then (True, e\<lparr>e_routes := (e_routes e)[i := chosen]\<rparr>)
                       else (True, e))"

fun select_candidates :: "wb_route list \<Rightarrow> wb_candidate list \<Rightarrow> wb_engine \<Rightarrow> bool \<times> wb_engine" where
  "select_candidates old [] e = (True, e)"
| "select_candidates old (c # cs) e =
     (case select_candidate old c e of
        (False, e') \<Rightarrow> (False, e')
      | (True, e') \<Rightarrow> select_candidates old cs e')"

definition request_links :: "wb_engine \<Rightarrow> wb_prefix \<Rightarrow> u64 list" where
  "request_links e p =
     take (b_links (e_build e))
       (map (\<lambda>c. r_link (c_route c))
         (filter (\<lambda>c. c_used c \<and> wb_prefix_equal (r_prefix (c_route c)) p \<and>
                      c_advertised c \<noteq> WB_INFINITY \<and>
                      cost e (link_at e (r_link (c_route c))) \<noteq> WB_INFINITY)
            (e_candidates e)))"

definition lose_route :: "wb_route \<Rightarrow> wb_engine \<Rightarrow> wb_engine" where
  "lose_route r e =
     (if \<not> r_unreachable r \<and> route_for e (r_prefix r) = None then
        let e = drop_route e (r_prefix r);
            e = trigger e True
        in case source_for e (r_prefix r) (r_router r) of
             None \<Rightarrow> e
           | Some i \<Rightarrow>
               let targets = request_links e (r_prefix r)
               in if targets \<noteq> [] then
                    request e (r_prefix r) (r_router r) (s_seqno (e_sources e ! i) + 1) targets 0 64
                  else e
      else e)"

definition drop_entry :: "wb_drop \<Rightarrow> wb_route" where
  "drop_entry d = zero_route\<lparr>r_prefix := d_prefix d, r_metric := WB_INFINITY, r_unreachable := True\<rparr>"

fun select_drops :: "nat list \<Rightarrow> wb_engine \<Rightarrow> bool \<times> wb_engine" where
  "select_drops [] e = (True, e)"
| "select_drops (i # is) e =
     (let d = e_drops e ! i
      in if \<not> d_used d then select_drops is e
         else if route_for e (d_prefix d) \<noteq> None \<or> d_expires d \<le> e_now e then
           select_drops is (e\<lparr>e_drops := (e_drops e)[i := d\<lparr>d_used := False\<rparr>]\<rparr>)
         else case push_route e (drop_entry d) of
           (False, e') \<Rightarrow> (False, e')
         | (True, e') \<Rightarrow> select_drops is e')"

definition trigger_change :: "wb_route list \<Rightarrow> wb_route \<Rightarrow> wb_engine \<Rightarrow> wb_engine" where
  "trigger_change old r e =
     (case find_slot (\<lambda>x. wb_prefix_equal (r_prefix x) (r_prefix r)) old of
        None \<Rightarrow> trigger e True
      | Some j \<Rightarrow>
          let was = old ! j
          in if r_router was \<noteq> r_router r \<or> r_unreachable was \<noteq> r_unreachable r then trigger e True
             else if r_metric was \<noteq> r_metric r \<or> r_seqno was \<noteq> r_seqno r then trigger e False
             else e)"

definition answer_request :: "nat \<Rightarrow> wb_engine \<Rightarrow> wb_engine" where
  "answer_request i e =
     (let q = e_requests e ! i
      in if \<not> q_used q then e
         else case route_for e (m_prefix (q_message q)) of
           None \<Rightarrow> e
         | Some j \<Rightarrow>
             let r = e_routes e ! j
             in if \<not> r_unreachable r \<and>
                   (r_router r \<noteq> m_router (q_message q) \<or> at_least (r_seqno r) (m_seqno (q_message q)))
                then
                  let e = (if q_from q \<noteq> 0 then advertise e (q_from q) (m_prefix (q_message q)) True
                           else e)
                  in e\<lparr>e_requests := (e_requests e)[i := (e_requests e ! i)\<lparr>q_used := False\<rparr>]\<rparr>
                else e)"

definition select_done :: "wb_engine \<Rightarrow> wb_engine" where
  "select_done e = (if e_stopped e then wb_free_scratch e else e)"

definition settle_routes :: "wb_route list \<Rightarrow> wb_engine \<Rightarrow> wb_engine" where
  "settle_routes old e =
     (let e = sort_routes e;
          e = fold (trigger_change old) (e_routes e) e
      in fold answer_request [0..<length (e_requests e)] e)"

definition rebuild_routes :: "wb_route list \<Rightarrow> wb_engine \<Rightarrow> wb_engine" where
  "rebuild_routes old e =
     (case select_local (e_local e) (e\<lparr>e_routes := []\<rparr>) of
        (False, e1) \<Rightarrow> e1
      | (True, e1) \<Rightarrow> (case select_candidates old (e_candidates e1) e1 of
          (False, e2) \<Rightarrow> e2
        | (True, e2) \<Rightarrow>
            let e3 = fold lose_route old e2
            in case select_drops [0..<length (e_drops e3)] e3 of
                 (False, e4) \<Rightarrow> e4
               | (True, e4) \<Rightarrow> settle_routes old e4))"

definition select_routes :: "wb_engine \<Rightarrow> wb_engine" where
  "select_routes e =
     (if e_stopped e then e
      else case wb_reserve_scratch e (length (e_routes e)) of
        (False, e') \<Rightarrow> e'\<lparr>e_stopped := True\<rparr>
      | (True, e') \<Rightarrow> select_done (rebuild_routes (e_routes e) e'))"

end
