(* ===== verification/Babel_Engine.thy ===== *)
theory Babel_Engine
  imports Babel_Select
begin

text \<open>
  The second half of \<open>components/wendy_babel/src/engine.c\<close>: received messages, expiry and
  timers, the \<open>begin\<close>/\<open>finish\<close> frame every event runs in, and the public operations. A public
  operation takes the engine and returns its status with the next engine. Callers pass non-null
  pointers; the checks on \<open>NULL\<close> arguments have no counterpart here.
\<close>

datatype wb_status = WB_OK | WB_PENDING | WB_INVALID | WB_LIMIT | WB_STOPPED | WB_BUSY

section \<open>Received updates\<close>

definition candidate_for :: "wb_engine \<Rightarrow> u64 \<Rightarrow> wb_prefix \<Rightarrow> nat option" where
  "candidate_for e i p =
     map_option (\<lambda>k. length (e_candidates e) - 1 - k)
       (find_slot (\<lambda>c. c_used c \<and> r_link (c_route c) = i \<and> wb_prefix_equal (r_prefix (c_route c)) p)
          (rev (e_candidates e)))"

definition retract :: "wb_candidate \<Rightarrow> wb_candidate" where
  "retract c = c\<lparr>c_advertised := WB_INFINITY\<rparr>"

definition incoming_route :: "wb_message \<Rightarrow> wb_route" where
  "incoming_route m =
     zero_route\<lparr>r_prefix := m_prefix m, r_router := m_router m, r_seqno := m_seqno m\<rparr>"

definition update_refused :: "wb_engine \<Rightarrow> wb_link_state \<Rightarrow> wb_message \<Rightarrow> bool" where
  "update_refused e l m \<longleftrightarrow>
     \<not> routable (m_prefix m) \<or>
     \<not> allowed e (zero_candidate\<lparr>c_route := incoming_route m\<rparr>) \<or>
     m_router m = cfg_router (e_config e) \<or>
     (m_via6 m \<and> \<not> cfg_ipv4_via_ipv6 (e_config e)) \<or>
     (m_address_family m = 6 \<and>
      memcmp (take 16 (m_address m)) (take 16 (l_peer (ls_config l))) \<noteq> 0)"

definition source_space :: "wb_engine \<Rightarrow> wb_prefix \<Rightarrow> u64 \<Rightarrow> bool" where
  "source_space e p router \<longleftrightarrow>
     source_for e p router \<noteq> None \<or> list_ex (\<lambda>s. \<not> s_used s) (e_sources e) \<or>
     length (e_sources e) < b_sources (e_build e)"

definition update_slot :: "wb_engine \<Rightarrow> u64 \<Rightarrow> wb_message \<Rightarrow> nat option \<times> wb_engine" where
  "update_slot e i m =
     (case candidate_for e i (m_prefix m) of
        Some k \<Rightarrow> (Some k, e)
      | None \<Rightarrow>
          if \<not> prefix_admitted e (m_prefix m) \<and> b_routes (e_build e) \<le> admission_count e then (None, e)
          else case claim_slot (\<lambda>c. \<not> c_used c) e_candidates wb_reserve_candidates e of
            (None, e') \<Rightarrow> (None, e')
          | (Some k, e') \<Rightarrow>
              (Some k, e'\<lparr>e_candidates := (e_candidates e')[k := zero_candidate\<lparr>c_used := True\<rparr>]\<rparr>))"

definition updated_candidate :: "wb_engine \<Rightarrow> u64 \<Rightarrow> wb_message \<Rightarrow> wb_candidate \<Rightarrow> wb_candidate" where
  "updated_candidate e i m c =
     (let iv = ucast (m_interval m) * 10 :: u32
      in c\<lparr>c_route := (incoming_route m)\<lparr>r_link := i, r_next_family := m_address_family m,
                                         r_next_hop := take 16 (m_address m)\<rparr>,
           c_advertised := m_metric m, c_interval_ms := iv,
           c_expires := e_now e + hold (ucast iv), c_refresh_requested := False\<rparr>)"

definition request_newer :: "wb_engine \<Rightarrow> u64 \<Rightarrow> wb_message \<Rightarrow> nat \<Rightarrow> wb_engine" where
  "request_newer e i m k =
     (if feasible e (e_candidates e ! k) then e
      else case source_for e (m_prefix m) (m_router m) of
        None \<Rightarrow> e
      | Some s \<Rightarrow>
          if (case route_for e (m_prefix m) of None \<Rightarrow> True
              | Some j \<Rightarrow> let selected = e_routes e ! j
                         in r_unreachable selected \<or> r_link selected = i \<or>
                            metric e (e_candidates e ! k) < r_metric selected)
          then request e (m_prefix m) (m_router m) (s_seqno (e_sources e ! s) + 1) [i] 0 64
          else e)"

definition update_wildcard :: "wb_engine \<Rightarrow> u64 \<Rightarrow> wb_engine" where
  "update_wildcard e i =
     e\<lparr>e_candidates := map (\<lambda>c. if c_used c \<and> r_link (c_route c) = i then retract c else c)
                         (e_candidates e)\<rparr>"

definition update :: "wb_engine \<Rightarrow> wb_link_state \<Rightarrow> wb_message \<Rightarrow> wb_engine" where
  "update e l m =
     (let i = l_id (ls_config l)
      in if m_wildcard m then update_wildcard e i
         else if m_metric m = WB_INFINITY then
           (case candidate_for e i (m_prefix m) of
              None \<Rightarrow> e
            | Some k \<Rightarrow> e\<lparr>e_candidates := (e_candidates e)[k := retract (e_candidates e ! k)]\<rparr>)
         else if update_refused e l m then count_rejected e
         else if \<not> source_space e (m_prefix m) (m_router m) then count_rejected e
         else case update_slot e i m of
           (None, e) \<Rightarrow> count_rejected e
         | (Some k, e) \<Rightarrow>
             let c = e_candidates e ! k;
                 e = (if r_router (c_route c) \<noteq> 0 \<and> r_router (c_route c) \<noteq> m_router m
                      then trigger e True else e);
                 e = e\<lparr>e_candidates := (e_candidates e)[k := updated_candidate e i m c]\<rparr>
             in request_newer e i m k)"

section \<open>Sequence number requests of neighbours\<close>

definition better_target :: "wb_engine \<Rightarrow> wb_candidate \<Rightarrow> wb_candidate \<Rightarrow> bool" where
  "better_target e c best \<longleftrightarrow>
     (feasible e c \<and> \<not> feasible e best) \<or>
     (feasible e c = feasible e best \<and>
      (metric e c < metric e best \<or>
       (metric e c = metric e best \<and> r_link (c_route c) < r_link (c_route best))))"

definition target_step ::
  "wb_engine \<Rightarrow> u64 \<Rightarrow> wb_prefix \<Rightarrow> wb_candidate \<Rightarrow> wb_candidate option \<Rightarrow> wb_candidate option" where
  "target_step e from p c best =
     (if \<not> c_used c \<or> \<not> wb_prefix_equal (r_prefix (c_route c)) p \<or> r_link (c_route c) = from \<or>
         metric e c = WB_INFINITY then best
      else case best of None \<Rightarrow> Some c | Some b \<Rightarrow> if better_target e c b then Some c else best)"

definition best_target :: "wb_engine \<Rightarrow> u64 \<Rightarrow> wb_prefix \<Rightarrow> wb_candidate option" where
  "best_target e from p = fold (target_step e from p) (e_candidates e) None"

definition forward_request :: "wb_engine \<Rightarrow> u64 \<Rightarrow> wb_message \<Rightarrow> wb_engine" where
  "forward_request e from m =
     (if m_router m = cfg_router (e_config e) \<or> m_hops m < 2 then e
      else if \<not> list_ex (\<lambda>s. s_used s \<and> wb_prefix_equal (s_prefix s) (m_prefix m)) (e_sources e) then e
      else case best_target e from (m_prefix m) of
        None \<Rightarrow> e
      | Some best \<Rightarrow>
          request e (m_prefix m) (m_router m) (m_seqno m) [r_link (c_route best)] from (m_hops m - 1))"

definition seq_request :: "wb_engine \<Rightarrow> u64 \<Rightarrow> wb_message \<Rightarrow> wb_engine" where
  "seq_request e from m =
     (case route_for e (m_prefix m) of
        None \<Rightarrow> forward_request e from m
      | Some j \<Rightarrow>
          let r = e_routes e ! j
          in if r_unreachable r then forward_request e from m
             else if r_router r \<noteq> m_router m \<or> at_least (r_seqno r) (m_seqno m) then
               advertise e from (m_prefix m) True
             else if r_local r then
               advertise (select_routes (e\<lparr>e_seqno := e_seqno e + 1\<rparr>)) from (m_prefix m) True
             else forward_request e from m)"

section \<open>Received messages\<close>

definition set_link :: "nat \<Rightarrow> (wb_link_state \<Rightarrow> wb_link_state) \<Rightarrow> wb_engine \<Rightarrow> wb_engine" where
  "set_link i f e = e\<lparr>e_links := (e_links e)[i := f (e_links e ! i)]\<rparr>"

definition receive_hello :: "u64 \<Rightarrow> wb_message \<Rightarrow> wb_link_state \<Rightarrow> wb_link_state" where
  "receive_hello now m l =
     (let i = (if m_unicast m then 1 else 0)
      in if \<not> ls_hello_seen l ! i \<or> ls_hello_expires l ! i \<le> now \<or> newer (m_seqno m) (ls_hello_rx l ! i)
         then
           let l = l\<lparr>ls_hello_rx := (ls_hello_rx l)[i := m_seqno m],
                     ls_hello_seen := (ls_hello_seen l)[i := True]\<rparr>
           in if m_interval m \<noteq> 0 then
                l\<lparr>ls_hello_expires := (ls_hello_expires l)[i := now + hold (ucast (m_interval m) * 10)]\<rparr>
              else l
         else l)"

definition receive_ihu :: "u64 \<Rightarrow> wb_message \<Rightarrow> wb_link_state \<Rightarrow> wb_link_state" where
  "receive_ihu now m l =
     (if m_address_family m = 0 \<or>
         (m_address_family m = 6 \<and>
          memcmp (take 16 (m_address m)) (take 16 (l_local (ls_config l))) = 0) \<or>
         (m_address_family m = 4 \<and>
          memcmp (take 4 (m_address m)) (take 4 (l_ipv4 (ls_config l))) = 0)
      then l\<lparr>ls_tx := m_metric m, ls_ihu_expires := now + hold (ucast (m_interval m) * 10)\<rparr>
      else l)"

definition receive_request :: "nat \<Rightarrow> wb_message \<Rightarrow> wb_engine \<Rightarrow> wb_engine" where
  "receive_request k m e =
     (let e = select_routes e;
          l = e_links e ! k
      in if m_wildcard m then
           if \<not> ls_dumped l \<or> ucast (hello_ms e l) \<le> e_now e - ls_last_dump l then
             let e = dump e (l_id (ls_config l)) True
             in set_link k (\<lambda>l. l\<lparr>ls_last_dump := e_now e, ls_dumped := True\<rparr>) e
           else e
         else advertise e (l_id (ls_config l)) (m_prefix m) True)"

definition receive_message :: "nat \<Rightarrow> wb_message \<Rightarrow> wb_engine \<Rightarrow> wb_engine" where
  "receive_message k m e =
     (let l = e_links e ! k; i = l_id (ls_config l)
      in if e_stopped e then e
         else if cfg_local_only (e_config e) \<and> m_type m = WB_SEQ_REQUEST \<and>
                 m_router m \<noteq> cfg_router (e_config e) then e
         else if m_type m = WB_HELLO then set_link k (receive_hello (e_now e) m) e
         else if m_type m = WB_IHU then set_link k (receive_ihu (e_now e) m) e
         else if m_type m = WB_ACK_REQUEST then
           queue e i ((message WB_ACK)\<lparr>m_opaque := m_opaque m\<rparr>)
         else if m_type m = WB_UPDATE then
           (if cfg_local_only (e_config e) then e else update e l m)
         else if m_type m = WB_REQUEST then receive_request k m e
         else if m_type m = WB_SEQ_REQUEST then seq_request (select_routes e) i m
         else e)"

section \<open>Expiry and timers\<close>

definition expire_candidate :: "u64 \<Rightarrow> wb_candidate \<Rightarrow> wb_candidate" where
  "expire_candidate now c =
     (if \<not> c_used c \<or> now < c_expires c then c
      else if c_advertised c = WB_INFINITY then c\<lparr>c_used := False\<rparr>
      else c\<lparr>c_advertised := WB_INFINITY, c_expires := now + hold (ucast (c_interval_ms c))\<rparr>)"

definition expire_source :: "u64 \<Rightarrow> wb_source \<Rightarrow> wb_source" where
  "expire_source now s = (if s_used s \<and> s_expires s \<le> now then s\<lparr>s_used := False\<rparr> else s)"

definition expire_request :: "u64 \<Rightarrow> wb_request_state \<Rightarrow> wb_request_state" where
  "expire_request now q = (if q_used q \<and> q_expires q \<le> now then q\<lparr>q_used := False\<rparr> else q)"

definition expire :: "wb_engine \<Rightarrow> wb_engine" where
  "expire e =
     e\<lparr>e_candidates := map (expire_candidate (e_now e)) (e_candidates e),
       e_sources := map (expire_source (e_now e)) (e_sources e),
       e_requests := map (expire_request (e_now e)) (e_requests e)\<rparr>"

definition timer_hello :: "nat \<Rightarrow> wb_engine \<Rightarrow> wb_engine" where
  "timer_hello k e =
     (let l = e_links e ! k; hello = hello_ms e l
      in if ls_next_hello l \<le> e_now e then
           let m = (message WB_HELLO)\<lparr>m_seqno := ls_hello_seq l, m_interval := ucast (hello div 10)\<rparr>;
               e = set_link k (\<lambda>l. l\<lparr>ls_hello_seq := ls_hello_seq l + 1\<rparr>) e;
               e = queue e (l_id (ls_config l)) m
           in case jitter e (ucast (hello div 8)) of (j, e) \<Rightarrow>
                set_link k (\<lambda>l. l\<lparr>ls_next_hello := e_now e + ucast hello - j\<rparr>) e
         else e)"

definition timer_ihu :: "nat \<Rightarrow> wb_engine \<Rightarrow> wb_engine" where
  "timer_ihu k e =
     (let l = e_links e ! k; hello = hello_ms e l
      in if ls_next_ihu l \<le> e_now e then
           let rx = (if ls_hello_expires l ! 0 \<le> e_now e \<and> ls_hello_expires l ! 1 \<le> e_now e
                     then WB_INFINITY else l_cost (ls_config l));
               m = (message WB_IHU)\<lparr>m_metric := rx, m_interval := ucast (hello * 2 div 10)\<rparr>;
               e = queue e (l_id (ls_config l)) m
           in case jitter e (ucast (hello div 8)) of (j, e) \<Rightarrow>
                set_link k (\<lambda>l. l\<lparr>ls_next_ihu := e_now e + ucast (hello * 2) - j\<rparr>) e
         else e)"

definition timer_update :: "nat \<Rightarrow> wb_engine \<Rightarrow> wb_engine" where
  "timer_update k e =
     (let l = e_links e ! k
      in if ls_next_update l \<le> e_now e then
           let e = dump e (l_id (ls_config l)) False;
               interval = cfg_update_ms (e_config e)
           in case jitter e (ucast (interval div 8)) of (j, e) \<Rightarrow>
                set_link k (\<lambda>l. l\<lparr>ls_next_update := e_now e + ucast interval - j\<rparr>) e
         else e)"

definition timer_link :: "nat \<Rightarrow> wb_engine \<Rightarrow> wb_engine" where
  "timer_link k e =
     (if l_id (ls_config (e_links e ! k)) = 0 then e
      else timer_update k (timer_ihu k (timer_hello k e)))"

definition timer_trigger :: "wb_engine \<Rightarrow> wb_engine" where
  "timer_trigger e =
     (if e_trigger e \<and> e_trigger_at e \<le> e_now e then
        let e = fold (\<lambda>k e. let i = l_id (ls_config (e_links e ! k))
                            in if i \<noteq> 0 then dump e i False else e) [0..<length (e_links e)] e
        in if e_repeats e \<noteq> 0 then
             let e = e\<lparr>e_repeats := e_repeats e - 1\<rparr>
             in case jitter e 50 of (j, e) \<Rightarrow> e\<lparr>e_trigger_at := e_now e + 100 + j\<rparr>
           else e\<lparr>e_trigger := False\<rparr>
      else e)"

definition timer_request :: "nat \<Rightarrow> wb_engine \<Rightarrow> wb_engine" where
  "timer_request k e =
     (let q = e_requests e ! k
      in if q_used q \<and> q_remaining q \<noteq> 0 \<and> q_next q \<le> e_now e then
           let e = fold (\<lambda>t e. queue e t (q_message q)) (q_targets q) e
           in e\<lparr>e_requests := (e_requests e)[k :=
                  q\<lparr>q_remaining := q_remaining q - 1, q_next := e_now e + 1000\<rparr>]\<rparr>
         else e)"

definition timer_candidate :: "nat \<Rightarrow> wb_engine \<Rightarrow> wb_engine" where
  "timer_candidate k e =
     (let c = e_candidates e ! k
      in if \<not> c_used c then e
         else case route_for e (r_prefix (c_route c)) of
           None \<Rightarrow> e
         | Some j \<Rightarrow>
             if r_link (e_routes e ! j) = r_link (c_route c) \<and> \<not> c_refresh_requested c \<and>
                c_advertised c \<noteq> WB_INFINITY \<and> c_expires c - e_now e \<le> ucast (c_interval_ms c)
             then
               let e = queue e (r_link (c_route c))
                         ((message WB_REQUEST)\<lparr>m_prefix := r_prefix (c_route c)\<rparr>)
               in e\<lparr>e_candidates := (e_candidates e)[k := c\<lparr>c_refresh_requested := True\<rparr>]\<rparr>
             else e)"

definition timers :: "wb_engine \<Rightarrow> wb_engine" where
  "timers e =
     (let e = fold timer_link [0..<length (e_links e)] e;
          e = timer_trigger e;
          e = fold timer_request [0..<length (e_requests e)] e
      in fold timer_candidate [0..<length (e_candidates e)] e)"

section \<open>The frame of an event\<close>

definition drop_messages :: "wb_engine \<Rightarrow> wb_engine" where
  "drop_messages e = (wb_free_messages e)\<lparr>e_messages := [], e_message_cursor := 0\<rparr>"

definition begin_event :: "wb_engine \<Rightarrow> u64 \<Rightarrow> wb_status \<times> wb_engine" where
  "begin_event e now =
     (if e_stopped e then (WB_STOPPED, e)
      else if e_pending e \<noteq> 0 \<or> e_message_cursor e < length (e_messages e) then (WB_BUSY, e)
      else if now < e_now e \<or> UINT64_MAX - 172800000 < now then (WB_INVALID, e)
      else case wb_reserve_before e (length (e_routes e)) of
        (False, e) \<Rightarrow> (WB_LIMIT, e)
      | (True, e) \<Rightarrow>
          (WB_OK, expire ((drop_messages (e\<lparr>e_before := e_routes e\<rparr>))\<lparr>e_ready := False, e_now := now\<rparr>)))"

definition routes_changed :: "wb_route list \<Rightarrow> wb_route list \<Rightarrow> bool" where
  "routes_changed before routes \<longleftrightarrow>
     length before \<noteq> length routes \<or> \<not> list_all2 route_equal before routes"

definition finish :: "wb_engine \<Rightarrow> wb_status \<times> wb_engine" where
  "finish e =
     (let e = timers (select_routes e)
      in if e_stopped e then (WB_STOPPED, wb_free_before e)
         else
           let changed = routes_changed (e_before e) (e_routes e);
               e = wb_collect (e\<lparr>e_before := []\<rparr>)
           in if changed then
                (WB_PENDING, e\<lparr>e_revision := e_revision e + 1, e_pending := e_revision e + 1\<rparr>)
              else (WB_OK, e\<lparr>e_ready := True\<rparr>))"

section \<open>Public operations\<close>

definition default_ms :: "u32 \<Rightarrow> u32 \<Rightarrow> u32" where
  "default_ms v d = (if v = 0 then d else v)"

definition with_defaults :: "wb_config \<Rightarrow> wb_config" where
  "with_defaults c = c\<lparr>cfg_hello_ms := default_ms (cfg_hello_ms c) 4000,
     cfg_update_ms := default_ms (cfg_update_ms c) 16000,
     cfg_source_ms := default_ms (cfg_source_ms c) 180000\<rparr>"

definition config_refused :: "wb_config \<Rightarrow> bool" where
  "config_refused c \<longleftrightarrow>
     cfg_hello_ms c < 100 \<or> 327670 < cfg_hello_ms c \<or> cfg_hello_ms c mod 10 \<noteq> 0 \<or>
     cfg_update_ms c < 100 \<or> 655340 < cfg_update_ms c \<or> cfg_update_ms c mod 10 \<noteq> 0 \<or>
     cfg_source_ms c < 180000 \<or> (ucast (cfg_source_ms c) :: u64) < hold (ucast (cfg_update_ms c)) \<or>
     86400000 < cfg_source_ms c"

definition wb_init :: "wb_engine \<Rightarrow> wb_config \<Rightarrow> wb_status \<times> wb_engine" where
  "wb_init e config =
     (if cfg_router config = 0 \<or> cfg_router config = UINT64_MAX \<or>
         (cfg_allocate config \<noteq> None) \<noteq> cfg_deallocate config then (WB_INVALID, e)
      else
        let c = with_defaults config
        in if config_refused c then (WB_INVALID, e)
           else (WB_OK, (wb_deinit e)\<lparr>e_config := c, e_seqno := cfg_seqno c,
                          e_rng := (if cfg_seed c \<noteq> 0 then cfg_seed c else cfg_router c),
                          e_ready := True\<rparr>))"

text \<open>Every operation that changes routing runs its body between \<open>begin\<close> and \<open>finish\<close>.\<close>

definition event :: "(wb_engine \<Rightarrow> wb_engine) \<Rightarrow> wb_engine \<Rightarrow> u64 \<Rightarrow> wb_status \<times> wb_engine" where
  "event body e now =
     (case begin_event e now of (r, e') \<Rightarrow> if r \<noteq> WB_OK then (r, e') else finish (body e'))"

definition wb_tick :: "wb_engine \<Rightarrow> u64 \<Rightarrow> wb_status \<times> wb_engine" where
  "wb_tick e now = event (\<lambda>e. e) e now"

definition usable_candidate ::
  "wb_engine \<Rightarrow> u64 \<Rightarrow> wb_prefix \<Rightarrow> u64 \<Rightarrow> u16 \<Rightarrow> wb_candidate \<Rightarrow> bool" where
  "usable_candidate e now p router seqno c \<longleftrightarrow>
     \<not> (\<not> c_used c \<or> c_expires c \<le> now \<or> c_advertised c = WB_INFINITY \<or>
        r_router (c_route c) \<noteq> router \<or> r_seqno (c_route c) \<noteq> seqno \<or>
        \<not> wb_prefix_equal (r_prefix (c_route c)) p \<or> \<not> allowed e c \<or>
        add_cost (c_advertised c) (cost_at (link_at e (r_link (c_route c))) now) = WB_INFINITY) \<and>
     (case source_for e p router of
        None \<Rightarrow> True
      | Some i \<Rightarrow> let s = e_sources e ! i
                 in s_expires s \<le> now \<or> newer seqno (s_seqno s) \<or>
                    (seqno = s_seqno s \<and> c_advertised c < s_metric s))"

definition origin_query_refused :: "wb_engine \<Rightarrow> u64 \<Rightarrow> wb_prefix \<Rightarrow> u64 \<Rightarrow> bool" where
  "origin_query_refused e now p router \<longleftrightarrow>
     e_stopped e \<or> e_pending e \<noteq> 0 \<or> \<not> e_ready e \<or> now < e_now e \<or> \<not> routable p \<or> router = 0 \<or>
     router = UINT64_MAX \<or> local_for e p \<noteq> None"

definition wb_has_usable_origin :: "wb_engine \<Rightarrow> u64 \<Rightarrow> wb_prefix \<Rightarrow> u64 \<Rightarrow> u16 \<Rightarrow> bool" where
  "wb_has_usable_origin e now p router seqno =
     (if origin_query_refused e now p router then False
      else list_ex (usable_candidate e now p router seqno) (e_candidates e))"

definition wb_link_has_usable_origin ::
  "wb_engine \<Rightarrow> u64 \<Rightarrow> u64 \<Rightarrow> wb_prefix \<Rightarrow> u64 \<Rightarrow> u16 \<Rightarrow> bool" where
  "wb_link_has_usable_origin e now lnk p router seqno =
     (if lnk = 0 \<or> origin_query_refused e now p router then False
      else list_ex (\<lambda>c. r_link (c_route c) = lnk \<and> usable_candidate e now p router seqno c)
             (e_candidates e))"

definition live_links :: "wb_engine \<Rightarrow> u64 list" where
  "live_links e = filter (\<lambda>i. i \<noteq> 0) (map (\<lambda>l. l_id (ls_config l)) (e_links e))"

definition wb_request_prefix :: "wb_engine \<Rightarrow> wb_prefix \<Rightarrow> wb_status \<times> wb_engine" where
  "wb_request_prefix e p =
     (if \<not> routable p then (WB_INVALID, e)
      else if e_stopped e then (WB_STOPPED, e)
      else if e_pending e \<noteq> 0 \<or> \<not> e_ready e \<or>
              (e_message_cursor e \<noteq> 0 \<and> e_message_cursor e < length (e_messages e)) then (WB_BUSY, e)
      else
        let e = (if e_message_cursor e = length (e_messages e) then drop_messages e else e);
            n = length (live_links e)
        in if n = 0 then (WB_BUSY, e)
           else if b_messages (e_build e) - length (e_messages e) < n then (WB_LIMIT, e)
           else case wb_reserve_messages e (length (e_messages e) + n) of
             (False, e) \<Rightarrow> (WB_LIMIT, e)
           | (True, e) \<Rightarrow>
               (WB_OK, fold (\<lambda>i e. queue e i ((message WB_REQUEST)\<lparr>m_prefix := p\<rparr>)) (live_links e) e))"

definition link_local :: "bytes \<Rightarrow> bool" where
  "link_local a \<longleftrightarrow> a ! 0 = 0xfe \<and> and (a ! 1) 0xc0 = 0x80"

definition link_refused :: "wb_engine \<Rightarrow> wb_link \<Rightarrow> bool" where
  "link_refused e c \<longleftrightarrow>
     l_id c = 0 \<or> l_id c \<le> e_last_link e \<or> l_cost c = 0 \<or> l_max_packet c < 512 \<or>
     1099 < l_max_packet c \<or>
     (l_hello_ms c \<noteq> 0 \<and> (l_hello_ms c < 100 \<or> 327670 < l_hello_ms c \<or> l_hello_ms c mod 10 \<noteq> 0)) \<or>
     \<not> link_local (l_local c) \<or> \<not> link_local (l_peer c) \<or>
     memcmp (take 16 (l_local c)) (take 16 (l_peer c)) = 0"

definition attach_link :: "nat \<Rightarrow> wb_link \<Rightarrow> wb_engine \<Rightarrow> wb_engine" where
  "attach_link k c e =
     queue (e\<lparr>e_links := (e_links e)[k := zero_link_state\<lparr>ls_config := c, ls_tx := WB_INFINITY\<rparr>],
              e_last_link := l_id c\<rparr>)
       (l_id c) ((message WB_REQUEST)\<lparr>m_wildcard := True\<rparr>)"

definition wb_add_link :: "wb_engine \<Rightarrow> u64 \<Rightarrow> wb_link \<Rightarrow> wb_status \<times> wb_engine" where
  "wb_add_link e now c =
     (if link_refused e c then (WB_INVALID, e)
      else case claim_slot (\<lambda>l. l_id (ls_config l) = 0) e_links wb_reserve_links e of
        (None, e) \<Rightarrow> (WB_LIMIT, e)
      | (Some k, e) \<Rightarrow> event (attach_link k c) e now)"

definition detach_link :: "u64 \<Rightarrow> wb_engine \<Rightarrow> wb_engine" where
  "detach_link i e =
     (let e = (case link_for e i of None \<Rightarrow> e | Some k \<Rightarrow> set_link k (\<lambda>_. zero_link_state) e)
      in e\<lparr>e_candidates := map (\<lambda>c. if c_used c \<and> r_link (c_route c) = i
            then c\<lparr>c_advertised := WB_INFINITY,
                   c_expires := e_now e + hold (ucast (cfg_update_ms (e_config e)))\<rparr>
            else c) (e_candidates e)\<rparr>)"

definition wb_remove_link :: "wb_engine \<Rightarrow> u64 \<Rightarrow> u64 \<Rightarrow> wb_status \<times> wb_engine" where
  "wb_remove_link e now i = event (detach_link i) e now"

definition recost_link :: "u64 \<Rightarrow> u16 \<Rightarrow> wb_engine \<Rightarrow> wb_engine" where
  "recost_link i c e =
     (case link_for e i of
        None \<Rightarrow> e
      | Some k \<Rightarrow> set_link k (\<lambda>l. l\<lparr>ls_config := (ls_config l)\<lparr>l_cost := c\<rparr>\<rparr>) e)"

definition wb_set_cost :: "wb_engine \<Rightarrow> u64 \<Rightarrow> u64 \<Rightarrow> u16 \<Rightarrow> wb_status \<times> wb_engine" where
  "wb_set_cost e now i c =
     (if c = 0 then (WB_INVALID, e) else event (recost_link i c) e now)"

definition local_slot :: "wb_engine \<Rightarrow> wb_prefix \<Rightarrow> nat option \<times> wb_engine" where
  "local_slot e p =
     (case local_for e p of
        Some k \<Rightarrow> (Some k, e)
      | None \<Rightarrow>
          if \<not> prefix_admitted e p \<and> b_routes (e_build e) \<le> admission_count e then (None, e)
          else claim_slot (\<lambda>l. \<not> lo_used l) e_local wb_reserve_local e)"

definition install_local :: "nat \<Rightarrow> wb_prefix \<Rightarrow> u16 \<Rightarrow> wb_engine \<Rightarrow> wb_engine" where
  "install_local k p m e =
     e\<lparr>e_local := (e_local e)[k := \<lparr>lo_prefix = p, lo_metric = m, lo_used = True\<rparr>],
       e_drops := map (\<lambda>d. if d_used d \<and> wb_prefix_equal (d_prefix d) p then d\<lparr>d_used := False\<rparr> else d)
                    (e_drops e)\<rparr>"

definition wb_originate :: "wb_engine \<Rightarrow> u64 \<Rightarrow> wb_prefix \<Rightarrow> u16 \<Rightarrow> wb_status \<times> wb_engine" where
  "wb_originate e now p m =
     (if \<not> routable p \<or> m = WB_INFINITY then (WB_INVALID, e)
      else case local_slot e p of
        (None, e) \<Rightarrow> (WB_LIMIT, e)
      | (Some k, e) \<Rightarrow>
          if \<not> source_space e p (cfg_router (e_config e)) then (WB_LIMIT, e)
          else event (install_local k p m) e now)"

definition uninstall_local :: "wb_prefix \<Rightarrow> wb_engine \<Rightarrow> wb_engine" where
  "uninstall_local p e =
     (case local_for e p of
        None \<Rightarrow> e
      | Some k \<Rightarrow> e\<lparr>e_local := (e_local e)[k := (e_local e ! k)\<lparr>lo_used := False\<rparr>]\<rparr>)"

definition wb_withdraw :: "wb_engine \<Rightarrow> u64 \<Rightarrow> wb_prefix \<Rightarrow> wb_status \<times> wb_engine" where
  "wb_withdraw e now p =
     (if \<not> wb_prefix_valid p then (WB_INVALID, e) else event (uninstall_local p) e now)"

definition receive_packet :: "u64 \<Rightarrow> bytes \<Rightarrow> wb_engine \<Rightarrow> wb_engine" where
  "receive_packet i data e =
     (case link_for e i of
        None \<Rightarrow> e
      | Some k \<Rightarrow>
          let e = e\<lparr>e_counters := (e_counters e)\<lparr>n_received := n_received (e_counters e) + 1\<rparr>\<rparr>;
              c = ls_config (e_links e ! k);
              malformed = e\<lparr>e_counters := (e_counters e)\<lparr>n_malformed := n_malformed (e_counters e) + 1\<rparr>\<rparr>
          in if unat (l_max_packet c) < length data then malformed
             else case wb_decode data (l_peer c) of
               None \<Rightarrow> malformed
             | Some ms \<Rightarrow> fold (receive_message k) ms e)"

definition wb_receive :: "wb_engine \<Rightarrow> u64 \<Rightarrow> u64 \<Rightarrow> bytes \<Rightarrow> wb_status \<times> wb_engine" where
  "wb_receive e now i data = event (receive_packet i data) e now"

definition wb_commit :: "wb_engine \<Rightarrow> u64 \<Rightarrow> bool \<Rightarrow> wb_status \<times> wb_engine" where
  "wb_commit e revision success =
     (if e_stopped e then (WB_STOPPED, e)
      else if revision = 0 \<or> revision \<noteq> e_pending e then (WB_INVALID, e)
      else
        let e = e\<lparr>e_pending := 0\<rparr>
        in if \<not> success then (WB_STOPPED, drop_messages (e\<lparr>e_stopped := True\<rparr>))
           else (WB_OK, e\<lparr>e_ready := True\<rparr>))"

text \<open>The packing loop of \<open>wb_next_packet\<close>: whether it hit a message that cannot be sent, how
  many messages it consumed, and the bytes after the packet header.\<close>

fun pack :: "nat \<Rightarrow> u64 \<Rightarrow> wb_queued list \<Rightarrow> bytes \<Rightarrow> bool \<times> nat \<times> bytes" where
  "pack mx lnk [] body = (False, 0, body)"
| "pack mx lnk (q # qs) body =
     (if qd_link q \<noteq> lnk then (False, 0, body)
      else
        let b = wb_encode (qd_message q) 64
        in if b = [] \<or> mx - 4 < length b then (True, 0, body)
           else if mx < 4 + length body + length b then (False, 0, body)
           else case pack mx lnk qs (body @ b) of (s, k, out) \<Rightarrow> (s, Suc k, out))"

datatype wb_output = Refused wb_status | Drained | Packet u64 bytes

definition wb_next_packet :: "wb_engine \<Rightarrow> nat \<Rightarrow> wb_output \<times> wb_engine" where
  "wb_next_packet e cap =
     (if e_stopped e then (Refused WB_STOPPED, e)
      else if e_pending e \<noteq> 0 \<or> \<not> e_ready e then (Refused WB_BUSY, e)
      else if e_message_cursor e = length (e_messages e) then (Drained, e)
      else
        let lnk = qd_link (e_messages e ! e_message_cursor e)
        in case link_for e lnk of
             None \<Rightarrow> (Refused WB_INVALID, e)
           | Some i \<Rightarrow>
               let mx = unat (l_max_packet (ls_config (e_links e ! i)))
               in if cap < mx then (Refused WB_INVALID, e)
                  else case pack mx lnk (drop (e_message_cursor e) (e_messages e)) [] of
                    (failed, k, body) \<Rightarrow>
                      let e = e\<lparr>e_message_cursor := e_message_cursor e + k\<rparr>
                      in if failed then (Refused WB_STOPPED, e\<lparr>e_stopped := True\<rparr>)
                         else
                           let e = e\<lparr>e_counters := (e_counters e)\<lparr>n_sent := n_sent (e_counters e) + 1\<rparr>\<rparr>;
                               e = (if e_message_cursor e = length (e_messages e)
                                    then drop_messages e else e)
                           in (Packet lnk (42 # 2 # put16 (of_nat (length body)) @ body), e))"

section \<open>Deadlines and lookups\<close>

definition link_deadlines :: "wb_link_state \<Rightarrow> u64 list" where
  "link_deadlines l =
     (if l_id (ls_config l) \<noteq> 0 then
        [ls_next_hello l, ls_next_ihu l, ls_next_update l, ls_ihu_expires l,
         ls_hello_expires l ! 0, ls_hello_expires l ! 1]
      else [])"

definition candidate_deadlines :: "wb_candidate \<Rightarrow> u64 list" where
  "candidate_deadlines c =
     (if c_used c then
        c_expires c # (if \<not> c_refresh_requested c \<and> ucast (c_interval_ms c) \<le> c_expires c
                       then [c_expires c - ucast (c_interval_ms c)] else [])
      else [])"

definition request_deadlines :: "wb_request_state \<Rightarrow> u64 list" where
  "request_deadlines q =
     (if q_used q then q_expires q # (if q_remaining q \<noteq> 0 then [q_next q] else []) else [])"

definition deadlines :: "wb_engine \<Rightarrow> u64 list" where
  "deadlines e =
     concat (map link_deadlines (e_links e)) @
     concat (map candidate_deadlines (e_candidates e)) @
     map s_expires (filter s_used (e_sources e)) @
     map d_expires (filter d_used (e_drops e)) @
     concat (map request_deadlines (e_requests e))"

definition earlier :: "u64 \<Rightarrow> u64 \<Rightarrow> u64 \<Rightarrow> u64" where
  "earlier now d next = (if now < d \<and> d < next then d else next)"

definition wb_next_deadline :: "wb_engine \<Rightarrow> u64" where
  "wb_next_deadline e =
     (if e_stopped e \<or> e_pending e \<noteq> 0 then UINT64_MAX
      else
        let next = fold (earlier (e_now e)) (deadlines e) UINT64_MAX
        in if e_trigger e then
             if e_trigger_at e \<le> e_now e then e_now e
             else earlier (e_now e) (e_trigger_at e) next
           else next)"

definition covers :: "wb_route \<Rightarrow> wb_prefix \<Rightarrow> bool" where
  "covers r host \<longleftrightarrow>
     \<not> (p_family (r_prefix r) \<noteq> p_family host \<or> p_bits host < p_bits (r_prefix r)) \<and>
     wb_prefix_equal (wb_prefix_mask (host\<lparr>p_bits := p_bits (r_prefix r)\<rparr>)) (r_prefix r)"

definition lookup_step :: "wb_prefix \<Rightarrow> wb_route \<Rightarrow> wb_route option \<Rightarrow> wb_route option" where
  "lookup_step host r best =
     (if covers r host \<and>
         (case best of None \<Rightarrow> True | Some b \<Rightarrow> p_bits (r_prefix b) < p_bits (r_prefix r))
      then Some r else best)"

definition wb_lookup :: "wb_engine \<Rightarrow> wb_prefix \<Rightarrow> wb_route option" where
  "wb_lookup e host =
     (if \<not> wb_prefix_valid host then None else fold (lookup_step host) (e_routes e) None)"

end
