(* ===== verification/Babel_History.thy ===== *)
theory Babel_History
  imports Babel_Engine
begin

text \<open>
  The binary checkpoint of \<open>components/wendy_babel/src/history.c\<close>: feasibility history and
  suppressed prefixes, written by \<open>wb_save\<close> and read back by \<open>wb_restore\<close>. A null output
  buffer is the capacity \<^const>\<open>None\<close>.
\<close>

section \<open>Saving\<close>

definition put_prefix :: "wb_prefix \<Rightarrow> bytes" where
  "put_prefix p = take 16 (p_bytes p) @ [p_bits p, p_family p]"

definition get_prefix :: "bytes \<Rightarrow> nat \<Rightarrow> bool \<times> wb_prefix" where
  "get_prefix data n =
     (let p = \<lparr>p_bytes = take 16 (drop n data), p_bits = data ! (n + 16), p_family = data ! (n + 17)\<rparr>
      in (wb_prefix_valid p, p))"

definition save_room :: "nat option \<Rightarrow> nat \<Rightarrow> nat \<Rightarrow> bool" where
  "save_room cap n w = (case cap of None \<Rightarrow> True | Some c \<Rightarrow> \<not> c - n < w)"

definition put_source :: "wb_source \<Rightarrow> bytes" where
  "put_source s = put_prefix (s_prefix s) @ put64 (s_router s) @ put16 (s_seqno s) @ put16 (s_metric s)"

text \<open>The three loops extend the records written so far, or stop at the limit; \<open>n\<close> counts the
  suppressed prefixes already written.\<close>

fun save_sources :: "nat option \<Rightarrow> wb_source list \<Rightarrow> bytes \<Rightarrow> bytes option" where
  "save_sources cap [] out = Some out"
| "save_sources cap (s # ss) out =
     (if \<not> s_used s then save_sources cap ss out
      else if \<not> save_room cap (40 + length out) 30 then None
      else save_sources cap ss (out @ put_source s))"

fun save_routes :: "nat option \<Rightarrow> wb_route list \<Rightarrow> bytes \<Rightarrow> bytes option" where
  "save_routes cap [] out = Some out"
| "save_routes cap (r # rs) out =
     (if \<not> save_room cap (40 + length out) 18 then None
      else save_routes cap rs (out @ put_prefix (r_prefix r)))"

fun save_drops ::
  "nat \<Rightarrow> nat option \<Rightarrow> wb_route list \<Rightarrow> wb_drop list \<Rightarrow> nat \<Rightarrow> bytes \<Rightarrow> (nat \<times> bytes) option" where
  "save_drops limit cap routes [] n out = Some (n, out)"
| "save_drops limit cap routes (d # ds) n out =
     (if \<not> d_used d \<or> list_ex (\<lambda>r. wb_prefix_equal (d_prefix d) (r_prefix r)) routes
      then save_drops limit cap routes ds n out
      else if n = limit \<or> \<not> save_room cap (40 + length out) 18 then None
      else save_drops limit cap routes ds (n + 1) (out @ put_prefix (d_prefix d)))"

definition drop_ms :: "wb_engine \<Rightarrow> u32" where
  "drop_ms e =
     fold (\<lambda>d ms. if d_used d \<and> e_now e < d_expires d \<and> ucast ms < d_expires d - e_now e
                  then ucast (d_expires d - e_now e) else ms)
       (e_drops e) (cfg_update_ms (e_config e) * 7 div 2)"

definition history_header :: "wb_engine \<Rightarrow> nat \<Rightarrow> nat \<Rightarrow> bytes" where
  "history_header e sources drops =
     [0x57, 0x42, 0x43, 0x31] @ put64 (cfg_router (e_config e)) @ put16 (e_seqno e) @
     put64 (e_last_link e) @ put16 (of_nat sources) @ put16 (of_nat drops) @
     put32 (cfg_source_ms (e_config e)) @ put32 (drop_ms e) @ zeros 6"

definition save_history :: "wb_engine \<Rightarrow> nat option \<Rightarrow> wb_status + bytes" where
  "save_history e cap =
     (if (case cap of None \<Rightarrow> False | Some c \<Rightarrow> c < 40) \<or> e_stopped e then Inl WB_INVALID
      else case save_sources cap (e_sources e) [] of
        None \<Rightarrow> Inl WB_LIMIT
      | Some out \<Rightarrow> (case save_routes cap (e_routes e) out of
          None \<Rightarrow> Inl WB_LIMIT
        | Some out \<Rightarrow>
            (case save_drops (b_routes (e_build e)) cap (e_routes e) (e_drops e)
                    (length (e_routes e)) out of
               None \<Rightarrow> Inl WB_LIMIT
             | Some (drops, out) \<Rightarrow>
                 Inr (history_header e (length (filter s_used (e_sources e))) drops @ out))))"

definition wb_save :: "wb_engine \<Rightarrow> nat \<Rightarrow> wb_status + bytes" where
  "wb_save e cap = save_history e (Some cap)"

definition wb_save_size :: "wb_engine \<Rightarrow> wb_status + nat" where
  "wb_save_size e = (case save_history e None of Inl r \<Rightarrow> Inl r | Inr out \<Rightarrow> Inr (length out))"

section \<open>Restoring\<close>

definition restore_refused :: "wb_config \<Rightarrow> bytes \<Rightarrow> bool" where
  "restore_refused config data \<longleftrightarrow>
     length data < 40 \<or> memcmp (take 4 data) [0x57, 0x42, 0x43, 0x31] \<noteq> 0 \<or>
     get64 (take 8 (drop 4 data)) \<noteq> cfg_router config \<or>
     \<not> list_all (\<lambda>b. b = 0) (take 6 (drop 34 data))"

definition hist_sources :: "bytes \<Rightarrow> nat" where
  "hist_sources data = unat (get16 (take 2 (drop 22 data)))"

definition hist_drops :: "bytes \<Rightarrow> nat" where
  "hist_drops data = unat (get16 (take 2 (drop 24 data)))"

definition hist_source_ms :: "bytes \<Rightarrow> u32" where
  "hist_source_ms data = get32 (take 4 (drop 26 data))"

definition hist_drop_ms :: "bytes \<Rightarrow> u32" where
  "hist_drop_ms data = get32 (take 4 (drop 30 data))"

definition restore_source :: "bytes \<Rightarrow> nat \<Rightarrow> wb_engine \<Rightarrow> bool \<times> wb_engine" where
  "restore_source data i e =
     (let n = 40 + 30 * i;
          (ok, p) = get_prefix data n;
          s = (e_sources e ! i)\<lparr>s_prefix := p\<rparr>
      in if \<not> ok then (False, e\<lparr>e_sources := (e_sources e)[i := s]\<rparr>)
         else
           let s = s\<lparr>s_router := get64 (take 8 (drop (n + 18) data)),
                     s_seqno := get16 (take 2 (drop (n + 26) data)),
                     s_metric := get16 (take 2 (drop (n + 28) data))\<rparr>
           in if s_router s = 0 \<or> s_router s = UINT64_MAX \<or> s_metric s = WB_INFINITY \<or>
                 list_ex (\<lambda>t. s_router s = s_router t \<and> wb_prefix_equal (s_prefix s) (s_prefix t))
                   (take i (e_sources e))
              then (False, e\<lparr>e_sources := (e_sources e)[i := s]\<rparr>)
              else (True, e\<lparr>e_sources := (e_sources e)[i :=
                       s\<lparr>s_used := True, s_expires := ucast (cfg_source_ms (e_config e))\<rparr>]\<rparr>))"

definition restore_drop :: "bytes \<Rightarrow> nat \<Rightarrow> nat \<Rightarrow> wb_engine \<Rightarrow> bool \<times> wb_engine" where
  "restore_drop data base i e =
     (let (ok, p) = get_prefix data (base + 18 * i);
          d = (e_drops e ! i)\<lparr>d_prefix := p\<rparr>
      in if \<not> ok \<or> list_ex (\<lambda>t. wb_prefix_equal (d_prefix d) (d_prefix t)) (take i (e_drops e))
         then (False, e\<lparr>e_drops := (e_drops e)[i := d]\<rparr>)
         else
           let hold_ms = cfg_update_ms (e_config e) * 7 div 2;
               ms = (if hold_ms < hist_drop_ms data then hist_drop_ms data else hold_ms)
           in (True, e\<lparr>e_drops := (e_drops e)[i := d\<lparr>d_used := True, d_expires := ucast ms\<rparr>]\<rparr>))"

fun run_all :: "(nat \<Rightarrow> wb_engine \<Rightarrow> bool \<times> wb_engine) \<Rightarrow> nat list \<Rightarrow> wb_engine \<Rightarrow> bool \<times> wb_engine" where
  "run_all f [] e = (True, e)"
| "run_all f (i # is) e = (case f i e of (False, e') \<Rightarrow> (False, e') | (True, e') \<Rightarrow> run_all f is e')"

definition restore_config :: "wb_config \<Rightarrow> bytes \<Rightarrow> wb_config" where
  "restore_config config data =
     config\<lparr>cfg_seqno := get16 (take 2 (drop 12 data)),
            cfg_source_ms := (if cfg_source_ms config < hist_source_ms data
                              then hist_source_ms data else cfg_source_ms config)\<rparr>"

definition restore_tables :: "bytes \<Rightarrow> wb_engine \<Rightarrow> bool \<times> wb_engine" where
  "restore_tables data e =
     (case run_all (restore_source data) [0..<hist_sources data] e of
        (False, e) \<Rightarrow> (False, e)
      | (True, e) \<Rightarrow> run_all (restore_drop data (40 + 30 * hist_sources data)) [0..<hist_drops data] e)"

definition wb_restore :: "wb_engine \<Rightarrow> wb_config \<Rightarrow> bytes \<Rightarrow> wb_status \<times> wb_engine" where
  "wb_restore e config data =
     (let b = cfg_build config
      in if restore_refused config data then (WB_INVALID, e)
         else if b_sources b < hist_sources data \<or> b_routes b < hist_drops data \<or>
                 length data \<noteq> 40 + hist_sources data * 30 + hist_drops data * 18 then (WB_INVALID, e)
         else if hist_source_ms data < 180000 \<or> 86400000 < hist_source_ms data then (WB_INVALID, e)
         else if hist_drop_ms data = 0 \<or> 86400000 < hist_drop_ms data then (WB_INVALID, e)
         else case wb_init e (restore_config config data) of
           (WB_OK, e) \<Rightarrow>
             (case wb_reserve_sources e (hist_sources data) of
                (False, e) \<Rightarrow> (WB_LIMIT, e\<lparr>e_stopped := True\<rparr>)
              | (True, e) \<Rightarrow> (case wb_reserve_drops e (hist_drops data) of
                  (False, e) \<Rightarrow> (WB_LIMIT, e\<lparr>e_stopped := True\<rparr>)
                | (True, e) \<Rightarrow>
                    (case restore_tables data (e\<lparr>e_last_link := get64 (take 8 (drop 14 data))\<rparr>) of
                       (True, e) \<Rightarrow> (WB_OK, e)
                     | (False, e) \<Rightarrow> (WB_INVALID, e\<lparr>e_stopped := True\<rparr>))))
         | (r, e) \<Rightarrow> (r, e))"

end
