(* ===== verification/Babel_Frames.thy ===== *)
theory Babel_Frames
  imports Babel_Select
begin

text \<open>
  Frame and storage lemmas for the operations of \<open>Babel_Select\<close>: which fields of the engine an
  operation leaves alone, and that every operation keeps the tables within their limits with exact
  byte accounting, whatever the allocator answers.
\<close>

section \<open>What each operation leaves alone\<close>

text \<open>
  Advertising touches the outgoing queue, the feasibility history and the bookkeeping; requests
  also touch the request table; route selection touches routes, drops, the update trigger and the
  stop flag as well. Each frame lists the fields an operation of that kind does not change.
\<close>

definition sel_core where
  "sel_core (e :: wb_engine) =
     (e_config e, e_now e, e_last_link e, e_revision e, e_pending e, e_seqno e, e_ready e, e_links e,
      e_candidates e, e_local e, e_before e, e_before_capacity e, e_message_cursor e)"

definition req_core where
  "req_core (e :: wb_engine) =
     (sel_core e, e_drops e, e_routes e, e_routes_capacity e, e_scratch_capacity e, e_rng e, e_trigger e,
      e_trigger_at e, e_repeats e, e_stopped e)"

definition adv_core where
  "adv_core (e :: wb_engine) = (req_core e, e_requests e)"

lemmas core_defs = sel_core_def req_core_def adv_core_def

lemma core_updates [simp]:
  "adv_core (e\<lparr>e_sources := s\<rparr>) = adv_core e" "adv_core (e\<lparr>e_counters := c\<rparr>) = adv_core e"
  "adv_core (e\<lparr>e_messages := ms\<rparr>) = adv_core e" "adv_core (e\<lparr>e_messages_capacity := n\<rparr>) = adv_core e"
  "adv_core (rebook e a p k f) = adv_core e"
  "req_core (e\<lparr>e_requests := qs\<rparr>) = req_core e" "req_core (rebook e a p k f) = req_core e"
  "req_core (e\<lparr>e_counters := c\<rparr>) = req_core e"
  "sel_core (e\<lparr>e_requests := qs\<rparr>) = sel_core e" "sel_core (rebook e a p k f) = sel_core e"
  "sel_core (e\<lparr>e_counters := c\<rparr>) = sel_core e" "sel_core (e\<lparr>e_drops := ds\<rparr>) = sel_core e"
  "sel_core (e\<lparr>e_routes := rs\<rparr>) = sel_core e" "sel_core (e\<lparr>e_routes_capacity := n\<rparr>) = sel_core e"
  "sel_core (e\<lparr>e_scratch_capacity := n\<rparr>) = sel_core e" "sel_core (e\<lparr>e_rng := x\<rparr>) = sel_core e"
  "sel_core (e\<lparr>e_trigger := t\<rparr>) = sel_core e" "sel_core (e\<lparr>e_trigger_at := x\<rparr>) = sel_core e"
  "sel_core (e\<lparr>e_repeats := y\<rparr>) = sel_core e" "sel_core (e\<lparr>e_stopped := t\<rparr>) = sel_core e"
  by (simp_all add: core_defs rebook_def)

lemma sel_coreD:
  assumes "sel_core a = sel_core b"
  shows "e_config a = e_config b" "e_now a = e_now b" "e_last_link a = e_last_link b"
    "e_revision a = e_revision b" "e_pending a = e_pending b" "e_seqno a = e_seqno b"
    "e_ready a = e_ready b" "e_links a = e_links b" "e_candidates a = e_candidates b"
    "e_local a = e_local b" "e_before a = e_before b" "e_before_capacity a = e_before_capacity b"
    "e_message_cursor a = e_message_cursor b"
  using assms by (simp_all add: sel_core_def)

lemma req_coreD:
  assumes "req_core a = req_core b"
  shows "sel_core a = sel_core b" "e_drops a = e_drops b" "e_routes a = e_routes b"
    "e_routes_capacity a = e_routes_capacity b" "e_scratch_capacity a = e_scratch_capacity b"
    "e_rng a = e_rng b" "e_trigger a = e_trigger b" "e_trigger_at a = e_trigger_at b"
    "e_repeats a = e_repeats b" "e_stopped a = e_stopped b"
  using assms by (simp_all add: req_core_def)

lemma adv_coreD:
  assumes "adv_core a = adv_core b"
  shows "req_core a = req_core b" "e_requests a = e_requests b"
  using assms by (simp_all add: adv_core_def)

lemma fold_frame:
  assumes "\<And>x e. g (f x e) = g e"
  shows "g (fold f xs e) = g e"
  by (induction xs arbitrary: e) (simp_all add: assms)

lemma fold_invariant:
  assumes "\<And>x e. x \<in> set xs \<Longrightarrow> P e \<Longrightarrow> P (f x e)" and "P e"
  shows "P (fold f xs e)"
  using assms by (induction xs arbitrary: e) simp_all

subsection \<open>The queue\<close>

lemma queue_cases:
  obtains (kept) a p k c n where
    "queue e i m = e\<lparr>e_allocated_bytes := a, e_peak_bytes := p, e_heap := k, e_counters := c,
       e_messages_capacity := n\<rparr>"
  | (sent) a p k c n where "link_for e i \<noteq> None"
    "queue e i m = e\<lparr>e_allocated_bytes := a, e_peak_bytes := p, e_heap := k, e_counters := c,
       e_messages_capacity := n, e_messages := e_messages e @ [\<lparr>qd_message = m, qd_link = i\<rparr>]\<rparr>"
proof -
  obtain ok e' where r: "wb_reserve_messages e (length (e_messages e) + 1) = (ok, e')" by fastforce
  obtain a p k f n where e': "e' = (rebook e a p k f)\<lparr>e_messages_capacity := n\<rparr>"
    by (rule messages_array.reserve_frame [OF r])
  let ?same = "\<lambda>c. e\<lparr>e_allocated_bytes := e_allocated_bytes e, e_peak_bytes := e_peak_bytes e,
    e_heap := e_heap e, e_counters := c, e_messages_capacity := e_messages_capacity e\<rparr>"
  show ?thesis
  proof (cases "link_for e i = None")
    case True
    then have "queue e i m = ?same (e_counters e)" by (simp add: queue_def)
    then show ?thesis by (rule kept)
  next
    case lnk: False
    show ?thesis
    proof (cases "length (e_messages e) = b_messages (e_build e)")
      case True
      with lnk have "queue e i m = ?same (e_counters (count_queue_drop e))"
        by (simp add: queue_def count_queue_drop_def)
      then show ?thesis by (rule kept)
    next
      case False
      show ?thesis
      proof (cases ok)
        case True
        with lnk False r e' show ?thesis
          by (intro sent) (auto simp: queue_def rebook_def)
      next
        case no: False
        with lnk False r e' have "queue e i m = e\<lparr>e_allocated_bytes := a, e_peak_bytes := p,
            e_heap := k, e_counters := e_counters (count_queue_drop e'), e_messages_capacity := n\<rparr>"
          by (auto simp: queue_def rebook_def count_queue_drop_def)
        then show ?thesis by (rule kept)
      qed
    qed
  qed
qed

lemma queue_frame [simp]:
  "adv_core (queue e i m) = adv_core e" "e_sources (queue e i m) = e_sources e"
  by (cases rule: queue_cases [of e i m]; simp add: core_defs)+

lemmas queue_req [simp] = adv_coreD [OF queue_frame(1)]
lemmas queue_sel [simp] = req_coreD [OF queue_req(1)]
lemmas queue_fields [simp] = sel_coreD [OF queue_sel(1)]


lemma queue_messages:
  "e_messages (queue e i m) = e_messages e \<or>
   link_for e i \<noteq> None \<and> e_messages (queue e i m) = e_messages e @ [\<lparr>qd_message = m, qd_link = i\<rparr>]"
  by (cases rule: queue_cases [of e i m]) simp_all

lemma storage_ok_counters [simp]: "storage_ok (e\<lparr>e_counters := c\<rparr>) = storage_ok e"
  by (simp add: storage_defs)

lemma storage_ok_queue [inv_intros]:
  assumes "storage_ok e"
  shows "storage_ok (queue e i m)"
proof (cases "link_for e i = None \<or> length (e_messages e) = b_messages (e_build e)")
  case True
  with assms show ?thesis by (auto simp: queue_def count_queue_drop_def)
next
  case False
  obtain ok e' where r: "wb_reserve_messages e (length (e_messages e) + 1) = (ok, e')" by fastforce
  obtain a p k f n where e': "e' = (rebook e a p k f)\<lparr>e_messages_capacity := n\<rparr>" "storage_ok e'"
    "ok \<longleftrightarrow> length (e_messages e) + 1 \<le> n"
    by (rule messages_array.reserve_spec [OF r assms])
  show ?thesis
  proof (cases ok)
    case True
    with False r have "queue e i m = e'\<lparr>e_messages := e_messages e' @ [\<lparr>qd_message = m, qd_link = i\<rparr>]\<rparr>"
      by (auto simp: queue_def)
    moreover have "e_messages e' = e_messages e" "e_messages_capacity e' = n"
      by (simp_all add: e'(1) rebook_def)
    ultimately show ?thesis using e'(2,3) True by (simp add: storage_defs)
  next
    case no: False
    with False r e'(2) show ?thesis by (auto simp: queue_def count_queue_drop_def)
  qed
qed

subsection \<open>Advertisement\<close>

lemma refresh_source_frame [simp]:
  "adv_core (refresh_source e i r) = adv_core e" "e_messages (refresh_source e i r) = e_messages e"
  "e_messages_capacity (refresh_source e i r) = e_messages_capacity e"
  "length (e_sources (refresh_source e i r)) = length (e_sources e)"
  by (simp_all add: refresh_source_def core_defs Let_def)

lemma storage_ok_sources: "length xs = length (e_sources e) \<Longrightarrow>
   storage_ok (e\<lparr>e_sources := xs\<rparr>) = storage_ok e"
  by (simp add: storage_defs)

lemma storage_ok_refresh [simp]: "storage_ok (refresh_source e i r) = storage_ok e"
  by (simp add: refresh_source_def Let_def storage_ok_sources)

lemma record_source_frame:
  assumes "record_source e p r = (ok, e')"
  shows "adv_core e' = adv_core e" "e_messages e' = e_messages e"
    "e_messages_capacity e' = e_messages_capacity e" "storage_ok e \<Longrightarrow> storage_ok e'"
proof -
  consider (old) i where "e' = refresh_source e i r"
    | (claimed) res e1 where "claim_slot (\<lambda>s. \<not> s_used s) e_sources wb_reserve_sources e = (res, e1)"
        "e' = count_rejected e1 \<or>
         (\<exists>i. e' = refresh_source (e1\<lparr>e_sources := (e_sources e1)[i := new_source p r]\<rparr>) i r)"
    using assms by (auto simp: record_source_def split: option.splits prod.splits)
  then have "adv_core e' = adv_core e \<and> e_messages e' = e_messages e \<and>
    e_messages_capacity e' = e_messages_capacity e \<and> (storage_ok e \<longrightarrow> storage_ok e')"
  proof cases
    case old
    then show ?thesis by simp
  next
    case claimed
    have core: "adv_core e1 = adv_core e \<and> e_messages e1 = e_messages e \<and>
      e_messages_capacity e1 = e_messages_capacity e"
      by (rule sources_table.claim_frame [OF claimed(1)]) (simp_all add: core_defs rebook_def)
    have st: "storage_ok e1" if "storage_ok e"
      by (rule sources_table.claim_spec [OF claimed(1) that]) (simp_all add: zero_source_def)
    from claimed(2) core st show ?thesis
      by (elim disjE exE) (simp_all add: count_rejected_def storage_ok_sources)
  qed
  then show "adv_core e' = adv_core e" "e_messages e' = e_messages e"
    "e_messages_capacity e' = e_messages_capacity e" "storage_ok e \<Longrightarrow> storage_ok e'"
    by simp_all
qed

lemma advertise_cases:
  obtains (same) "advertise e i p x = e"
  | (lost) "advertise e i p x = queue e i (unreachable_update e p)"
      "case route_for e p of None \<Rightarrow> True | Some ri \<Rightarrow> r_unreachable (e_routes e ! ri)"
  | (full) ri e' where "route_for e p = Some ri" "record_source e p (e_routes e ! ri) = (False, e')"
      "advertise e i p x = e'"
  | (told) li ri m e' where "link_for e i = Some li" "route_for e p = Some ri"
      "\<not> r_unreachable (e_routes e ! ri)"
      "advertise_message e (e_links e ! li) p (e_routes e ! ri) = Some m"
      "record_source e p (e_routes e ! ri) = (True, e')" "advertise e i p x = queue e' i m"
proof (cases "link_for e i")
  case None
  then show ?thesis by (intro same) (simp only: advertise_def option.case)
next
  case (Some li)
  note lnk = Some
  show ?thesis
  proof (cases "route_for e p")
    case None
    then show ?thesis by (intro lost) (simp_all only: advertise_def lnk option.case)
  next
    case (Some ri)
    note rt = Some
    let ?r = "e_routes e ! ri" and ?m = "advertise_message e (e_links e ! li) p (e_routes e ! ri)"
    have eq: "advertise e i p x =
        (if r_unreachable ?r then queue e i (unreachable_update e p)
         else if \<not> x \<and> r_link ?r = i then e
         else case ?m of None \<Rightarrow> e
           | Some m \<Rightarrow> (case record_source e p ?r of (False, e') \<Rightarrow> e' | (True, e') \<Rightarrow> queue e' i m))"
      by (simp only: advertise_def lnk rt option.case Let_def)
    obtain ok e' where rec: "record_source e p ?r = (ok, e')" by fastforce
    consider "r_unreachable ?r" | "\<not> r_unreachable ?r" "\<not> x \<and> r_link ?r = i \<or> ?m = None"
      | m where "\<not> r_unreachable ?r" "\<not> (\<not> x \<and> r_link ?r = i)" "?m = Some m" by blast
    then show ?thesis
    proof cases
      case 1
      then show ?thesis by (intro lost) (simp_all add: eq rt)
    next
      case 2
      then show ?thesis by (intro same) (auto simp: eq)
    next
      case 3
      show ?thesis
      proof (cases ok)
        case True
        with rec have "record_source e p ?r = (True, e')" by simp
        from told [OF lnk rt 3(1,3) this] 3 this show ?thesis by (simp add: eq)
      next
        case False
        with rec have "record_source e p ?r = (False, e')" by simp
        from full [OF rt this] 3 this show ?thesis by (simp add: eq)
      qed
    qed
  qed
qed

lemma advertise_frame [simp]: "adv_core (advertise e i p x) = adv_core e"
  by (cases rule: advertise_cases [of e i p x]) (simp_all add: record_source_frame)

lemma storage_ok_advertise [inv_intros]: "storage_ok e \<Longrightarrow> storage_ok (advertise e i p x)"
  by (cases rule: advertise_cases [of e i p x]) (simp_all add: record_source_frame storage_ok_queue)

lemma dump_frame [simp]: "adv_core (dump e i x) = adv_core e"
  by (simp add: dump_def fold_frame [where g = adv_core])

lemmas advertise_req [simp] = adv_coreD [OF advertise_frame]
lemmas advertise_sel [simp] = req_coreD [OF advertise_req(1)]
lemmas advertise_fields [simp] = sel_coreD [OF advertise_sel(1)]
lemmas dump_req [simp] = adv_coreD [OF dump_frame]
lemmas dump_sel [simp] = req_coreD [OF dump_req(1)]
lemmas dump_fields [simp] = sel_coreD [OF dump_sel(1)]

lemma storage_ok_dump [inv_intros]: "storage_ok e \<Longrightarrow> storage_ok (dump e i x)"
  unfolding dump_def by (rule fold_invariant) (simp_all add: storage_ok_advertise)

subsection \<open>Requests\<close>

lemma storage_ok_tables:
  "length qs = length (e_requests e) \<Longrightarrow> storage_ok (e\<lparr>e_requests := qs\<rparr>) = storage_ok e"
  "length ds = length (e_drops e) \<Longrightarrow> storage_ok (e\<lparr>e_drops := ds\<rparr>) = storage_ok e"
  "length cs = length (e_candidates e) \<Longrightarrow> storage_ok (e\<lparr>e_candidates := cs\<rparr>) = storage_ok e"
  "length ls = length (e_links e) \<Longrightarrow> storage_ok (e\<lparr>e_links := ls\<rparr>) = storage_ok e"
  "length los = length (e_local e) \<Longrightarrow> storage_ok (e\<lparr>e_local := los\<rparr>) = storage_ok e"
  "length rs \<le> length (e_routes e) \<Longrightarrow> storage_ok e \<Longrightarrow> storage_ok (e\<lparr>e_routes := rs\<rparr>)"
  by (simp_all add: storage_defs)

lemma storage_ok_flags [simp]:
  "storage_ok (e\<lparr>e_stopped := b\<rparr>) = storage_ok e" "storage_ok (e\<lparr>e_trigger := b\<rparr>) = storage_ok e"
  "storage_ok (e\<lparr>e_trigger_at := t\<rparr>) = storage_ok e" "storage_ok (e\<lparr>e_repeats := n\<rparr>) = storage_ok e"
  "storage_ok (e\<lparr>e_rng := t\<rparr>) = storage_ok e" "storage_ok (e\<lparr>e_seqno := q\<rparr>) = storage_ok e"
  "storage_ok (e\<lparr>e_ready := b\<rparr>) = storage_ok e" "storage_ok (e\<lparr>e_now := t\<rparr>) = storage_ok e"
  "storage_ok (e\<lparr>e_pending := t\<rparr>) = storage_ok e" "storage_ok (e\<lparr>e_revision := t\<rparr>) = storage_ok e"
  "storage_ok (e\<lparr>e_last_link := t\<rparr>) = storage_ok e"
  by (simp_all add: storage_defs)

lemma request_target_frame [simp]:
  "req_core (request_target i t e) = req_core e" "e_sources (request_target i t e) = e_sources e"
  by (simp_all add: request_target_def Let_def)

lemma storage_ok_request_target [inv_intros]: "storage_ok e \<Longrightarrow> storage_ok (request_target i t e)"
  by (simp add: request_target_def Let_def storage_ok_queue storage_ok_tables)

lemma request_slot_spec:
  assumes "request_slot e p router = (r, e')"
  shows "req_core e' = req_core e" "e_sources e' = e_sources e" "e_messages e' = e_messages e"
    "storage_ok e \<Longrightarrow> storage_ok e'" "\<And>i. r = Some i \<Longrightarrow> storage_ok e \<Longrightarrow> i < length (e_requests e')"
proof -
  have "req_core e' = req_core e \<and> e_sources e' = e_sources e \<and> e_messages e' = e_messages e \<and>
      (storage_ok e \<longrightarrow> storage_ok e' \<and> (\<forall>i. r = Some i \<longrightarrow> i < length (e_requests e')))"
  proof (cases "request_for e p router")
    case (Some i)
    with assms have "r = Some i" "e' = e" by (simp_all add: request_slot_def)
    with Some show ?thesis by (simp add: request_for_def find_slot_Some_less)
  next
    case None
    have c: "claim_slot (\<lambda>q. \<not> q_used q) e_requests wb_reserve_requests e = (r, e')"
      using assms unfolding request_slot_def None by simp
    have "req_core e' = req_core e \<and> e_sources e' = e_sources e \<and> e_messages e' = e_messages e"
      by (rule requests_table.claim_frame [OF c]) (simp_all add: rebook_def core_defs)
    moreover have "storage_ok e' \<and> (\<forall>i. r = Some i \<longrightarrow> i < length (e_requests e'))" if "storage_ok e"
      by (rule requests_table.claim_spec [OF c that]) (simp_all add: zero_request_def)
    ultimately show ?thesis by simp
  qed
  then show "req_core e' = req_core e" "e_sources e' = e_sources e" "e_messages e' = e_messages e"
    "storage_ok e \<Longrightarrow> storage_ok e'" "\<And>i. r = Some i \<Longrightarrow> storage_ok e \<Longrightarrow> i < length (e_requests e')"
    by simp_all
qed

lemma request_cases:
  obtains (same) "request e p router seq targets from hops = e"
  | (full) e' where "request_slot e p router = (None, e')"
      "request e p router seq targets from hops = count_rejected e'"
  | (asked) i e' where "request_slot e p router = (Some i, e')"
      "request e p router seq targets from hops =
        fold (request_target i) (take (b_links (e_build e)) targets)
          (e'\<lparr>e_requests := (e_requests e')[i :=
              \<lparr>q_message = request_message p router seq hops, q_targets = [], q_from = from,
               q_next = e_now e' + 1000, q_expires = e_now e' + 4000, q_remaining = 2,
               q_used = True\<rparr>]\<rparr>)"
proof (cases "case request_for e p router of None \<Rightarrow> False
          | Some i \<Rightarrow> at_least (m_seqno (q_message (e_requests e ! i))) seq")
  case True
  then show ?thesis by (intro same) (simp add: request_def)
next
  case no: False
  obtain r e' where r: "request_slot e p router = (r, e')" by fastforce
  show ?thesis
  proof (cases r)
    case None
    with no r show ?thesis by (intro full) (simp_all add: request_def)
  next
    case (Some i)
    with no r show ?thesis by (intro asked) (simp_all add: request_def)
  qed
qed

lemma request_frame [simp]:
  "req_core (request e p router seq targets from hops) = req_core e"
  "e_sources (request e p router seq targets from hops) = e_sources e"
  by (cases rule: request_cases [of e p router seq targets "from" hops];
      simp add: request_slot_spec(1,2) count_rejected_def fold_frame [where g = req_core]
        fold_frame [where g = e_sources])+

lemmas request_sel [simp] = req_coreD [OF request_frame(1)]
lemmas request_fields [simp] = sel_coreD [OF request_sel(1)]

lemma storage_ok_request [inv_intros]:
  "storage_ok e \<Longrightarrow> storage_ok (request e p router seq targets from hops)"
  by (cases rule: request_cases [of e p router seq targets "from" hops])
    (auto simp: request_slot_spec(4) count_rejected_def storage_ok_tables
      intro!: fold_invariant [where P = storage_ok] storage_ok_request_target)

subsection \<open>Triggers and drops\<close>

lemma trigger_cases:
  obtains r t a n where "trigger e b = e\<lparr>e_rng := r, e_trigger := t, e_trigger_at := a, e_repeats := n\<rparr>"
proof -
  let ?j = "jitter e 50"
  have "trigger e b = e\<lparr>e_rng := (if e_trigger e then e_rng e else xorshift (e_rng e)),
      e_trigger := True, e_trigger_at := (if e_trigger e then e_trigger_at e else e_now e + fst ?j),
      e_repeats := (if b then 2 else e_repeats e)\<rparr>"
    by (simp add: trigger_def jitter_def Let_def)
  then show ?thesis by (rule that)
qed

lemma trigger_frame [simp]:
  "sel_core (trigger e b) = sel_core e" "e_messages (trigger e b) = e_messages e"
  "e_sources (trigger e b) = e_sources e" "e_requests (trigger e b) = e_requests e"
  "e_drops (trigger e b) = e_drops e" "e_routes (trigger e b) = e_routes e"
  "e_stopped (trigger e b) = e_stopped e" "storage_ok (trigger e b) = storage_ok e"
  by (cases rule: trigger_cases [of e b]; simp)+

lemmas trigger_fields [simp] = sel_coreD [OF trigger_frame(1)]

lemma drop_slot_spec:
  assumes "drop_slot e p = (r, e')"
  shows "sel_core e' = sel_core e" "e_sources e' = e_sources e" "e_messages e' = e_messages e"
    "e_routes e' = e_routes e" "e_requests e' = e_requests e" "e_stopped e' = e_stopped e"
    "storage_ok e \<Longrightarrow> storage_ok e'"
proof -
  consider (found) "e' = e"
    | (claimed) "claim_slot (\<lambda>d. \<not> d_used d) e_drops wb_reserve_drops e = (r, e')"
    using assms by (auto simp: drop_slot_def split: option.splits)
  then have "sel_core e' = sel_core e \<and> e_sources e' = e_sources e \<and> e_messages e' = e_messages e \<and>
      e_routes e' = e_routes e \<and> e_requests e' = e_requests e \<and> e_stopped e' = e_stopped e \<and>
      (storage_ok e \<longrightarrow> storage_ok e')"
  proof cases
    case found
    then show ?thesis by simp
  next
    case claimed
    have "sel_core e' = sel_core e \<and> e_sources e' = e_sources e \<and> e_messages e' = e_messages e \<and>
        e_routes e' = e_routes e \<and> e_requests e' = e_requests e \<and> e_stopped e' = e_stopped e"
      by (rule drops_table.claim_frame [OF claimed]) (simp_all add: rebook_def core_defs)
    moreover have "storage_ok e'" if "storage_ok e"
      by (rule drops_table.claim_spec [OF claimed that]) (simp_all add: zero_drop_def)
    ultimately show ?thesis by blast
  qed
  then show "sel_core e' = sel_core e" "e_sources e' = e_sources e" "e_messages e' = e_messages e"
    "e_routes e' = e_routes e" "e_requests e' = e_requests e" "e_stopped e' = e_stopped e"
    "storage_ok e \<Longrightarrow> storage_ok e'"
    by simp_all
qed

lemma drop_route_frame [simp]:
  "sel_core (drop_route e p) = sel_core e" "e_sources (drop_route e p) = e_sources e"
  "e_messages (drop_route e p) = e_messages e" "e_routes (drop_route e p) = e_routes e"
  "e_requests (drop_route e p) = e_requests e"
  by (cases "drop_slot e p"; cases "fst (drop_slot e p)";
      simp add: drop_route_def drop_slot_spec)+

lemmas drop_route_fields [simp] = sel_coreD [OF drop_route_frame(1)]

lemma storage_ok_drop_route [inv_intros]: "storage_ok e \<Longrightarrow> storage_ok (drop_route e p)"
  by (cases "drop_slot e p"; cases "fst (drop_slot e p)")
    (simp_all add: drop_route_def drop_slot_spec(7) storage_ok_tables)

lemma lose_route_frame [simp]:
  "sel_core (lose_route r e) = sel_core e" "e_routes (lose_route r e) = e_routes e"
  "e_sources (lose_route r e) = e_sources e"
  by (simp_all add: lose_route_def Let_def split: option.split)

lemmas lose_route_fields [simp] = sel_coreD [OF lose_route_frame(1)]

lemma storage_ok_lose_route [inv_intros]: "storage_ok e \<Longrightarrow> storage_ok (lose_route r e)"
  by (simp add: lose_route_def Let_def storage_ok_request storage_ok_drop_route split: option.split)

subsection \<open>Route selection\<close>

lemma push_route_spec:
  assumes "push_route e r = (ok, e')"
  shows "sel_core e' = sel_core e" "e_sources e' = e_sources e" "e_messages e' = e_messages e"
    "e_drops e' = e_drops e" "e_requests e' = e_requests e" "storage_ok e \<Longrightarrow> storage_ok e'"
    "ok \<Longrightarrow> e_routes e' = e_routes e @ [r]" "e_stopped e' = (e_stopped e \<or> \<not> ok)"
    "\<not> ok \<Longrightarrow> e_routes e' = e_routes e"
proof -
  obtain got e1 where r: "wb_reserve_routes e (length (e_routes e) + 1) = (got, e1)" by fastforce
  obtain a p k f n where e1: "e1 = (rebook e a p k f)\<lparr>e_routes_capacity := n\<rparr>"
    by (rule routes_array.reserve_frame [OF r])
  have e': "ok = got" "e' = (if got then e1\<lparr>e_routes := e_routes e1 @ [r]\<rparr> else e1\<lparr>e_stopped := True\<rparr>)"
    using assms r by (auto simp: push_route_def split: bool.splits)
  show "sel_core e' = sel_core e" "e_sources e' = e_sources e" "e_messages e' = e_messages e"
    "e_drops e' = e_drops e" "e_requests e' = e_requests e"
    "ok \<Longrightarrow> e_routes e' = e_routes e @ [r]" "e_stopped e' = (e_stopped e \<or> \<not> ok)"
    "\<not> ok \<Longrightarrow> e_routes e' = e_routes e"
    by (simp_all add: e' e1 rebook_def core_defs)
  show "storage_ok e'" if st: "storage_ok e"
  proof -
    obtain a p k f n where *: "e1 = (rebook e a p k f)\<lparr>e_routes_capacity := n\<rparr>" "storage_ok e1"
      "got \<longleftrightarrow> length (e_routes e) + 1 \<le> n"
      by (rule routes_array.reserve_spec [OF r st])
    have "e_routes e1 = e_routes e" "e_routes_capacity e1 = n"
      by (simp_all add: *(1) rebook_def)
    then show ?thesis
      using *(2,3) by (simp add: e' storage_defs)
  qed
qed

lemma select_local_frame:
  assumes "select_local ls e = (ok, e')"
  shows "sel_core e' = sel_core e \<and> e_sources e' = e_sources e \<and> e_messages e' = e_messages e \<and>
    e_drops e' = e_drops e \<and> e_requests e' = e_requests e \<and> (storage_ok e \<longrightarrow> storage_ok e') \<and>
    e_stopped e' = (e_stopped e \<or> \<not> ok)"
  using assms
proof (induction ls arbitrary: e)
  case (Cons l ls)
  obtain got e1 where p: "push_route e (local_route e l) = (got, e1)" by fastforce
  note spec = push_route_spec [OF p]
  show ?case
  proof (cases "lo_used l \<and> got")
    case True
    with Cons.prems p have "select_local ls e1 = (ok, e')" by simp
    from Cons.IH [OF this] spec True show ?thesis by simp
  next
    case False
    with Cons p spec show ?thesis by (cases "lo_used l") (auto split: bool.splits)
  qed
qed simp

lemma select_candidate_cases:
  assumes "select_candidate old c e = (ok, e')"
  obtains (skipped) "ok" "e' = e" "\<not> c_used c \<or> local_for e (r_prefix (c_route c)) \<noteq> None \<or>
      metric e c = WB_INFINITY \<or> \<not> feasible e c"
  | (pushed) "c_used c" "local_for e (r_prefix (c_route c)) = None" "metric e c \<noteq> WB_INFINITY"
      "feasible e c" "route_for e (r_prefix (c_route c)) = None"
      "push_route e ((c_route c)\<lparr>r_metric := metric e c\<rparr>) = (ok, e')"
  | (kept) i where "ok" "e' = e" "c_used c" "local_for e (r_prefix (c_route c)) = None"
      "metric e c \<noteq> WB_INFINITY" "feasible e c" "route_for e (r_prefix (c_route c)) = Some i"
      "r_metric (e_routes e ! i) \<le> metric e c"
  | (replaced) i where "ok" "c_used c" "local_for e (r_prefix (c_route c)) = None"
      "metric e c \<noteq> WB_INFINITY" "feasible e c" "route_for e (r_prefix (c_route c)) = Some i"
      "metric e c \<le> r_metric (e_routes e ! i)"
      "e' = e\<lparr>e_routes := (e_routes e)[i := (c_route c)\<lparr>r_metric := metric e c\<rparr>]\<rparr>"
proof (cases "\<not> c_used c \<or> local_for e (r_prefix (c_route c)) \<noteq> None \<or>
    metric e c = WB_INFINITY \<or> \<not> feasible e c")
  case True
  have "select_candidate old c e = (True, e)"
  proof (cases "\<not> c_used c \<or> local_for e (r_prefix (c_route c)) \<noteq> None")
    case True
    then show ?thesis unfolding select_candidate_def by (rule if_P)
  next
    case no: False
    with True have inf: "metric e c = WB_INFINITY \<or> \<not> feasible e c" by blast
    show ?thesis unfolding select_candidate_def Let_def if_not_P [OF no] by (rule if_P [OF inf])
  qed
  with assms have "ok" "e' = e" by simp_all
  from skipped [OF this True] show ?thesis .
next
  case False
  then have g: "c_used c" "local_for e (r_prefix (c_route c)) = None" "metric e c \<noteq> WB_INFINITY"
    "feasible e c" by simp_all
  show ?thesis
  proof (cases "route_for e (r_prefix (c_route c))")
    case None
    then have "push_route e ((c_route c)\<lparr>r_metric := metric e c\<rparr>) = (ok, e')"
      using assms g unfolding select_candidate_def Let_def None by simp
    with g None show ?thesis by (intro pushed)
  next
    case (Some i)
    let ?better = "metric e c < r_metric (e_routes e ! i) \<or>
      (metric e c = r_metric (e_routes e ! i) \<and>
       (r_link (c_route c) = previous_link old (r_prefix (c_route c)) \<or>
        (r_link (e_routes e ! i) \<noteq> previous_link old (r_prefix (c_route c)) \<and>
         r_link (c_route c) < r_link (e_routes e ! i))))"
    have no: "\<not> (\<not> c_used c \<or> local_for e (r_prefix (c_route c)) \<noteq> None)"
      "\<not> (metric e c = WB_INFINITY \<or> \<not> feasible e c)" using g by simp_all
    have eq: "(ok, e') = (if ?better
        then (True, e\<lparr>e_routes := (e_routes e)[i := (c_route c)\<lparr>r_metric := metric e c\<rparr>]\<rparr>)
        else (True, e))"
      using assms unfolding select_candidate_def Let_def if_not_P [OF no(1)] if_not_P [OF no(2)] Some
      by simp
    show ?thesis
    proof (cases ?better)
      case True
      then have "metric e c \<le> r_metric (e_routes e ! i)" by auto
      with eq [unfolded if_P [OF True]] show ?thesis by (intro replaced [OF _ g Some]) simp_all
    next
      case False
      then have "r_metric (e_routes e ! i) \<le> metric e c" by auto
      with eq [unfolded if_not_P [OF False]] show ?thesis by (intro kept [OF _ _ g Some]) simp_all
    qed
  qed
qed

lemma select_candidate_frame:
  assumes "select_candidate old c e = (ok, e')"
  shows "sel_core e' = sel_core e" "e_sources e' = e_sources e" "e_messages e' = e_messages e"
    "e_drops e' = e_drops e" "e_requests e' = e_requests e" "storage_ok e \<Longrightarrow> storage_ok e'"
    "e_stopped e' = (e_stopped e \<or> \<not> ok)"
  by (rule select_candidate_cases [OF assms]; simp add: push_route_spec storage_ok_tables)+

lemma select_candidates_frame:
  assumes "select_candidates old cs e = (ok, e')"
  shows "sel_core e' = sel_core e \<and> e_sources e' = e_sources e \<and> e_messages e' = e_messages e \<and>
    e_drops e' = e_drops e \<and> e_requests e' = e_requests e \<and> (storage_ok e \<longrightarrow> storage_ok e') \<and>
    e_stopped e' = (e_stopped e \<or> \<not> ok)"
  using assms
proof (induction cs arbitrary: e)
  case (Cons c cs)
  obtain got e1 where p: "select_candidate old c e = (got, e1)" by fastforce
  note spec = select_candidate_frame [OF p]
  show ?case
  proof (cases got)
    case True
    with Cons.prems p have "select_candidates old cs e1 = (ok, e')" by simp
    from Cons.IH [OF this] spec True show ?thesis by simp
  next
    case False
    with Cons.prems p spec show ?thesis by auto
  qed
qed simp

lemma select_drops_Cons:
  assumes "select_drops (i # is) e = (ok, e')"
  obtains (unused) "\<not> d_used (e_drops e ! i)" "select_drops is e = (ok, e')"
  | (ended) "d_used (e_drops e ! i)"
      "route_for e (d_prefix (e_drops e ! i)) \<noteq> None \<or> d_expires (e_drops e ! i) \<le> e_now e"
      "select_drops is (e\<lparr>e_drops := (e_drops e)[i := (e_drops e ! i)\<lparr>d_used := False\<rparr>]\<rparr>) = (ok, e')"
  | (pushed) e1 where "d_used (e_drops e ! i)" "route_for e (d_prefix (e_drops e ! i)) = None"
      "e_now e < d_expires (e_drops e ! i)"
      "push_route e (drop_entry (e_drops e ! i)) = (True, e1)" "select_drops is e1 = (ok, e')"
  | (failed) "\<not> ok" "push_route e (drop_entry (e_drops e ! i)) = (False, e')"
proof (cases "d_used (e_drops e ! i)")
  case False
  with assms show ?thesis by (intro unused) (simp_all add: Let_def)
next
  case used: True
  then have nn: "\<not> \<not> d_used (e_drops e ! i)" by simp
  show ?thesis
  proof (cases "route_for e (d_prefix (e_drops e ! i)) \<noteq> None \<or> d_expires (e_drops e ! i) \<le> e_now e")
    case True
    from assms have "select_drops is (e\<lparr>e_drops := (e_drops e)[i := (e_drops e ! i)\<lparr>d_used := False\<rparr>]\<rparr>) =
        (ok, e')"
      unfolding select_drops.simps Let_def if_not_P [OF nn]
        if_P [OF True] by simp
    with used True show ?thesis by (rule ended)
  next
    case live: False
    obtain got e1 where p: "push_route e (drop_entry (e_drops e ! i)) = (got, e1)" by fastforce
    from assms have eq: "(case (got, e1) of (False, x) \<Rightarrow> (False, x) | (True, x) \<Rightarrow> select_drops is x) = (ok, e')"
      unfolding select_drops.simps Let_def if_not_P [OF nn]
        if_not_P [OF live] p by simp
    show ?thesis
    proof (cases got)
      case True
      with eq p used live show ?thesis by (intro pushed) auto
    next
      case False
      with eq p show ?thesis by (intro failed) simp_all
    qed
  qed
qed

lemma select_drops_frame:
  assumes "select_drops is e = (ok, e')"
  shows "sel_core e' = sel_core e \<and> e_sources e' = e_sources e \<and> e_messages e' = e_messages e \<and>
    e_requests e' = e_requests e \<and> length (e_drops e') = length (e_drops e) \<and>
    (storage_ok e \<longrightarrow> storage_ok e') \<and> e_stopped e' = (e_stopped e \<or> \<not> ok)"
  using assms
proof (induction "is" arbitrary: e)
  case (Cons i "is")
  from Cons.prems show ?case
  proof (cases rule: select_drops_Cons)
    case unused
    from Cons.IH [OF unused(2)] show ?thesis .
  next
    case ended
    from Cons.IH [OF ended(3)] show ?thesis by (simp add: storage_ok_tables)
  next
    case (pushed e1)
    from Cons.IH [OF pushed(5)] push_route_spec [OF pushed(4)] show ?thesis by simp
  next
    case failed
    with push_route_spec [OF failed(2)] show ?thesis by simp
  qed
qed simp

lemma trigger_change_frame [simp]:
  "sel_core (trigger_change old r e) = sel_core e"
  "e_messages (trigger_change old r e) = e_messages e"
  "e_sources (trigger_change old r e) = e_sources e"
  "e_requests (trigger_change old r e) = e_requests e"
  "e_drops (trigger_change old r e) = e_drops e" "e_routes (trigger_change old r e) = e_routes e"
  "e_stopped (trigger_change old r e) = e_stopped e"
  "storage_ok (trigger_change old r e) = storage_ok e"
  by (simp_all add: trigger_change_def Let_def split: option.split)

lemma answer_request_cases:
  obtains (same) "answer_request i e = e"
  | (answered) e1 where "e1 = e \<or> e1 = advertise e (q_from (e_requests e ! i))
        (m_prefix (q_message (e_requests e ! i))) True"
      "answer_request i e = e1\<lparr>e_requests := (e_requests e)[i := (e_requests e ! i)\<lparr>q_used := False\<rparr>]\<rparr>"
proof -
  let ?q = "e_requests e ! i"
  let ?e1 = "if q_from ?q \<noteq> 0 then advertise e (q_from ?q) (m_prefix (q_message ?q)) True else e"
  have req: "e_requests ?e1 = e_requests e" by simp
  have "answer_request i e = e \<or>
      answer_request i e = ?e1\<lparr>e_requests := (e_requests e)[i := ?q\<lparr>q_used := False\<rparr>]\<rparr>"
    unfolding answer_request_def Let_def req by (simp split: option.split)
  then show ?thesis
  proof
    assume "answer_request i e = e"
    then show ?thesis by (rule same)
  next
    assume "answer_request i e = ?e1\<lparr>e_requests := (e_requests e)[i := ?q\<lparr>q_used := False\<rparr>]\<rparr>"
    then show ?thesis by (rule answered [rotated]) simp
  qed
qed

lemma answer_request_frame [simp]:
  "req_core (answer_request i e) = req_core e"
  "length (e_requests (answer_request i e)) = length (e_requests e)"
  by (cases rule: answer_request_cases [of i e]; auto)+

lemmas answer_request_sel [simp] = req_coreD [OF answer_request_frame(1)]
lemmas answer_request_fields [simp] = sel_coreD [OF answer_request_sel(1)]

lemma storage_ok_answer_request [inv_intros]: "storage_ok e \<Longrightarrow> storage_ok (answer_request i e)"
  by (cases rule: answer_request_cases [of i e])
    (auto simp: storage_ok_tables storage_ok_advertise)

lemma length_shift_in [simp]: "length (shift_in r xs) = Suc (length xs)"
  by (induction xs) simp_all

lemma length_sort_routes [simp]: "length (e_routes (sort_routes e)) = length (e_routes e)"
proof -
  have "length (fold shift_in rs acc) = length rs + length acc" for rs acc
    by (induction rs arbitrary: acc) simp_all
  then show ?thesis by (simp add: sort_routes_def)
qed

lemma sort_routes_frame [simp]:
  "sel_core (sort_routes e) = sel_core e" "e_messages (sort_routes e) = e_messages e"
  "e_sources (sort_routes e) = e_sources e" "e_requests (sort_routes e) = e_requests e"
  "e_drops (sort_routes e) = e_drops e" "e_stopped (sort_routes e) = e_stopped e"
  by (simp_all add: sort_routes_def)

lemma storage_ok_sort_routes [inv_intros]: "storage_ok e \<Longrightarrow> storage_ok (sort_routes e)"
  using length_sort_routes [of e] by (simp add: sort_routes_def storage_ok_tables(6))

lemma settle_routes_frame [simp]:
  "sel_core (settle_routes old e) = sel_core e" "e_drops (settle_routes old e) = e_drops e"
  "e_routes (settle_routes old e) = e_routes (sort_routes e)"
  "e_stopped (settle_routes old e) = e_stopped e"
  by (simp_all add: settle_routes_def Let_def fold_frame [where g = sel_core]
      fold_frame [where g = e_drops] fold_frame [where g = e_routes] fold_frame [where g = e_stopped])

lemma storage_ok_settle_routes [inv_intros]: "storage_ok e \<Longrightarrow> storage_ok (settle_routes old e)"
  unfolding settle_routes_def Let_def
  by (intro fold_invariant [where P = storage_ok]) (simp_all add: storage_ok_answer_request storage_ok_sort_routes)

text \<open>The selection loop, with its four ways to end.\<close>

lemma rebuild_routes_cases:
  obtains (local) e1 where "select_local (e_local e) (e\<lparr>e_routes := []\<rparr>) = (False, e1)"
      "rebuild_routes old e = e1"
  | (candidates) e1 e2 where "select_local (e_local e) (e\<lparr>e_routes := []\<rparr>) = (True, e1)"
      "select_candidates old (e_candidates e1) e1 = (False, e2)" "rebuild_routes old e = e2"
  | (drops) e1 e2 e4 where "select_local (e_local e) (e\<lparr>e_routes := []\<rparr>) = (True, e1)"
      "select_candidates old (e_candidates e1) e1 = (True, e2)"
      "select_drops [0..<length (e_drops (fold lose_route old e2))] (fold lose_route old e2) = (False, e4)"
      "rebuild_routes old e = e4"
  | (settled) e1 e2 e4 where "select_local (e_local e) (e\<lparr>e_routes := []\<rparr>) = (True, e1)"
      "select_candidates old (e_candidates e1) e1 = (True, e2)"
      "select_drops [0..<length (e_drops (fold lose_route old e2))] (fold lose_route old e2) = (True, e4)"
      "rebuild_routes old e = settle_routes old e4"
proof -
  obtain a e1 where 1: "select_local (e_local e) (e\<lparr>e_routes := []\<rparr>) = (a, e1)" by fastforce
  obtain b e2 where 2: "select_candidates old (e_candidates e1) e1 = (b, e2)" by fastforce
  obtain c e4 where 3: "select_drops [0..<length (e_drops (fold lose_route old e2))]
      (fold lose_route old e2) = (c, e4)" by fastforce
  have eq: "rebuild_routes old e = (if \<not> a then e1 else if \<not> b then e2 else if \<not> c then e4
      else settle_routes old e4)"
    using 1 2 3 by (cases a; cases b; cases c) (simp_all add: rebuild_routes_def Let_def)
  show ?thesis
  proof (cases a)
    case False with 1 eq show ?thesis by (intro local) simp_all
  next
    case a: True
    show ?thesis
    proof (cases b)
      case False with a 1 2 eq show ?thesis by (intro candidates) simp_all
    next
      case b: True
      show ?thesis
      proof (cases c)
        case False with a b 1 2 3 eq show ?thesis by (intro drops) simp_all
      next
        case True with a b 1 2 3 eq show ?thesis by (intro settled) simp_all
      qed
    qed
  qed
qed

lemma rebuild_routes_frame:
  "sel_core (rebuild_routes old e) = sel_core e"
  "storage_ok e \<Longrightarrow> storage_ok (rebuild_routes old e)"
proof -
  have lose: "sel_core (fold lose_route old x) = sel_core x"
    "storage_ok x \<Longrightarrow> storage_ok (fold lose_route old x)" for x
    by (simp add: fold_frame [where g = sel_core])
      (rule fold_invariant [where P = storage_ok], simp_all add: storage_ok_lose_route)
  have start: "storage_ok e \<Longrightarrow> storage_ok (e\<lparr>e_routes := []\<rparr>)" by (simp add: storage_ok_tables(6))
  have "sel_core (rebuild_routes old e) = sel_core e \<and>
      (storage_ok e \<longrightarrow> storage_ok (rebuild_routes old e))"
    by (cases rule: rebuild_routes_cases [of e old])
      (auto dest!: select_local_frame select_candidates_frame select_drops_frame
        simp: lose start storage_ok_settle_routes)
  then show "sel_core (rebuild_routes old e) = sel_core e"
    "storage_ok e \<Longrightarrow> storage_ok (rebuild_routes old e)" by simp_all
qed

lemma select_routes_cases:
  obtains (stopped) "e_stopped e" "select_routes e = e"
  | (refused) e' where "\<not> e_stopped e" "wb_reserve_scratch e (length (e_routes e)) = (False, e')"
      "select_routes e = e'\<lparr>e_stopped := True\<rparr>"
  | (selected) e' where "\<not> e_stopped e" "wb_reserve_scratch e (length (e_routes e)) = (True, e')"
      "select_routes e = select_done (rebuild_routes (e_routes e) e')"
proof (cases "e_stopped e")
  case True
  then show ?thesis by (intro stopped) (simp_all add: select_routes_def)
next
  case run: False
  obtain ok e' where r: "wb_reserve_scratch e (length (e_routes e)) = (ok, e')" by fastforce
  show ?thesis
  proof (cases ok)
    case True
    with run r show ?thesis by (intro selected) (simp_all add: select_routes_def)
  next
    case False
    with run r show ?thesis by (intro refused) (simp_all add: select_routes_def)
  qed
qed

lemma sel_core_release [simp]: "sel_core (release e p n) = sel_core e"
proof -
  obtain a k where "release e p n = rebook e a (e_peak_bytes e) k (n_allocation_failures (e_counters e))"
    by (rule release_rebook_any)
  then show ?thesis by simp
qed

lemma select_routes_frame [simp]: "sel_core (select_routes e) = sel_core e"
  by (cases rule: select_routes_cases [of e])
    (auto elim!: scratch_array.reserve_frame
      simp: rebuild_routes_frame(1) select_done_def wb_free_scratch_def)

lemmas select_routes_fields [simp] = sel_coreD [OF select_routes_frame]

lemma storage_ok_select_routes [inv_intros]: "storage_ok e \<Longrightarrow> storage_ok (select_routes e)"
  by (cases rule: select_routes_cases [of e])
    (auto elim!: scratch_array.reserve_spec
      simp: rebuild_routes_frame(2) select_done_def storage_ok_free)

end
