(* ===== verification/Babel_Selection.thy ===== *)
theory Babel_Selection
  imports Babel_Frames
begin

text \<open>
  Correctness of route selection: what the routing table holds after \<open>select_routes\<close>, judged by
  the metric, feasibility and policy of the engine it started from.
\<close>

section \<open>Sequence numbers and metrics\<close>

text \<open>Sequence numbers are ordered within half a window of the 16-bit circle.\<close>

lemma newer_int:
  "newer a b \<longleftrightarrow> 0 < (uint a - uint b) mod 65536 \<and> (uint a - uint b) mod 65536 < 32768"
proof -
  have "uint (a - b) = (uint a - uint b) mod 65536" by (simp add: uint_word_ariths)
  moreover have "newer a b \<longleftrightarrow> 0 < uint (a - b) \<and> uint (a - b) < 32768"
    by (simp add: newer_def Let_def word_less_def) (metis eq_iff_diff_eq_0 order_less_le uint_0_eq uint_ge_0 word_uint_eqI)
  ultimately show ?thesis by simp
qed

lemma newer_irrefl [simp]: "\<not> newer a a"
  by (simp add: newer_def)

lemma seq_flip:
  "(uint b - uint a) mod 65536 =
     (if (uint a - uint b) mod 65536 = 0 then 0 else 65536 - (uint a - uint b) mod 65536)"
  for a b :: u16
  using zmod_zminus1_eq_if [of "uint a - uint b" 65536] by simp

lemma newer_asym: "newer a b \<Longrightarrow> \<not> newer b a"
  unfolding newer_int seq_flip [of b a] by (simp split: if_splits)

lemma newer_total: "a \<noteq> b \<Longrightarrow> a - b \<noteq> 32768 \<Longrightarrow> newer a b \<or> newer b a"
proof -
  assume ne: "a \<noteq> b" "a - b \<noteq> 32768"
  have "uint (a - b) \<noteq> uint (32768 :: u16)" "uint (a - b) \<noteq> 0"
    using ne by (simp_all only: word_uint_eq_iff [symmetric] uint_0_iff, simp_all)
  then have "(uint a - uint b) mod 65536 \<noteq> 32768" "(uint a - uint b) mod 65536 \<noteq> 0"
    by (simp_all add: uint_word_ariths)
  moreover have "0 \<le> (uint a - uint b) mod 65536" "(uint a - uint b) mod 65536 < 65536" by simp_all
  ultimately show ?thesis unfolding newer_int seq_flip [of b a] by simp linarith
qed

lemma newer_Suc: "newer (a + 1) a"
  by (simp add: newer_def)

lemma unat_add_cost: "unat (add_cost a b) = min 65535 (unat a + unat b)"
proof -
  have lt: "unat a < 65536" "unat b < 65536"
    using unsigned_less [of a] unsigned_less [of b] by simp_all
  then have n: "unat (ucast a + ucast b :: u32) = unat a + unat b"
    by (simp add: unat_word_ariths unsigned_ucast_eq take_bit_nat_def)
  then have le: "(65535 \<le> (ucast a + ucast b :: u32)) = (65535 \<le> unat a + unat b)"
    by (simp add: word_le_nat_alt)
  show ?thesis
  proof (cases "65535 \<le> unat a + unat b")
    case True
    then show ?thesis unfolding add_cost_def Let_def le by simp
  next
    case False
    then show ?thesis unfolding add_cost_def Let_def le using n by (simp add: unsigned_ucast_eq take_bit_nat_def)
  qed
qed

section \<open>The order of the routing table\<close>

lemma prefix_cmp_antisym: "prefix_cmp b a = - prefix_cmp a b"
  by (auto simp: prefix_cmp_def Let_def memcmp_antisym [of "p_bytes b"])

lemma prefix_cmp_0:
  "length (p_bytes a) = length (p_bytes b) \<Longrightarrow> prefix_cmp a b = 0 \<longleftrightarrow> a = b"
  by (auto simp: prefix_cmp_def Let_def memcmp_0_iff intro!: wb_prefix.equality word_uint_eqI)

lemma prefix_cmp_trans:
  assumes "prefix_cmp a b < 0" "prefix_cmp b c < 0"
    and "length (p_bytes a) = length (p_bytes b)" "length (p_bytes b) = length (p_bytes c)"
  shows "prefix_cmp a c < 0"
proof -
  have fam: "p_family a \<le> p_family b" "p_family b \<le> p_family c"
    using assms(1,2) by (auto simp: prefix_cmp_def split: if_splits)
  show ?thesis
  proof (cases "p_family a = p_family b \<and> p_family b = p_family c")
    case False
    with fam have "p_family a < p_family c" by auto
    then show ?thesis by (auto simp: prefix_cmp_def)
  next
    case same: True
    let ?m = "memcmp (p_bytes a) (p_bytes b)" and ?n = "memcmp (p_bytes b) (p_bytes c)"
    have ab: "?m < 0 \<or> ?m = 0 \<and> uint (p_bits a) < uint (p_bits b)"
      and bc: "?n < 0 \<or> ?n = 0 \<and> uint (p_bits b) < uint (p_bits c)"
      using assms(1,2) same by (auto simp: prefix_cmp_def Let_def split: if_splits)
    consider "?m < 0" | "?m = 0" "?n < 0"
      | "?m = 0" "?n = 0" "uint (p_bits a) < uint (p_bits b)" "uint (p_bits b) < uint (p_bits c)"
      using ab bc by linarith
    then show ?thesis
    proof cases
      case 1
      from memcmp_trans [OF 1 _ assms(3,4)] bc same show ?thesis
        by (auto simp: prefix_cmp_def Let_def)
    next
      case 2
      then have "p_bytes a = p_bytes b" using assms(3) by (simp add: memcmp_0_iff)
      with 2 same show ?thesis by (simp add: prefix_cmp_def Let_def)
    next
      case 3
      then have "p_bytes a = p_bytes b" "p_bytes b = p_bytes c"
        using assms(3,4) by (simp_all add: memcmp_0_iff)
      with 3 same show ?thesis by (simp add: prefix_cmp_def Let_def memcmp_0_iff)
    qed
  qed
qed

abbreviation before :: "wb_route \<Rightarrow> wb_route \<Rightarrow> bool" where
  "before a b \<equiv> prefix_cmp (r_prefix a) (r_prefix b) < 0"

text \<open>The table is strictly ascending, so it holds one route per prefix.\<close>

definition table_sorted :: "wb_route list \<Rightarrow> bool" where
  "table_sorted rs \<longleftrightarrow> sorted_wrt before rs"

lemma set_shift_in [simp]: "set (shift_in r xs) = insert r (set xs)"
  by (induction xs) auto

lemma mset_shift_in: "mset (shift_in r xs) = add_mset r (mset xs)"
  by (induction xs) auto

lemma mset_sort_routes: "mset (e_routes (sort_routes e)) = mset (e_routes e)"
proof -
  have "mset (fold shift_in rs acc) = mset rs + mset acc" for rs acc
    by (induction rs arbitrary: acc) (simp_all add: mset_shift_in)
  then show ?thesis by (simp add: sort_routes_def)
qed

lemma set_sort_routes [simp]: "set (e_routes (sort_routes e)) = set (e_routes e)"
  using mset_sort_routes [THEN mset_eq_setD] .

lemma sorted_shift_in:
  assumes "sorted_wrt (\<lambda>a b. before b a) xs" and "r_prefix r \<notin> r_prefix ` set xs"
    and "\<And>x. x \<in> insert r (set xs) \<Longrightarrow> length (p_bytes (r_prefix x)) = 16"
  shows "sorted_wrt (\<lambda>a b. before b a) (shift_in r xs)"
  using assms
proof (induction xs)
  case (Cons x xs)
  have len: "length (p_bytes (r_prefix y)) = 16" if "y \<in> {r, x} \<union> set xs" for y
    using Cons.prems(3) that by auto
  show ?case
  proof (cases "before r x")
    case True
    have "sorted_wrt (\<lambda>a b. before b a) (shift_in r xs)"
      using Cons.prems by (intro Cons.IH) auto
    with True Cons.prems(1) show ?thesis by simp
  next
    case False
    have "prefix_cmp (r_prefix r) (r_prefix x) \<noteq> 0"
      using Cons.prems(2) len by (simp add: prefix_cmp_0)
    with False have rx: "before x r" using prefix_cmp_antisym [of "r_prefix x" "r_prefix r"] by linarith
    have "before y r" if y: "y \<in> set xs" for y
    proof -
      have "before y x" using Cons.prems(1) y by simp
      from prefix_cmp_trans [OF this rx] show ?thesis using len y by simp
    qed
    with rx False Cons.prems(1) show ?thesis by simp
  qed
qed simp

lemma sort_routes_sorted:
  assumes "distinct (map r_prefix (e_routes e))"
    and "\<And>r. r \<in> set (e_routes e) \<Longrightarrow> length (p_bytes (r_prefix r)) = 16"
  shows "table_sorted (e_routes (sort_routes e))"
proof -
  have "sorted_wrt (\<lambda>a b. before b a) (fold shift_in rs acc)"
    if "sorted_wrt (\<lambda>a b. before b a) acc" "distinct (map r_prefix (acc @ rs))"
      "\<And>x. x \<in> set acc \<union> set rs \<Longrightarrow> length (p_bytes (r_prefix x)) = 16" for rs acc
    using that
  proof (induction rs arbitrary: acc)
    case (Cons r rs)
    have "sorted_wrt (\<lambda>a b. before b a) (shift_in r acc)"
      using Cons.prems by (intro sorted_shift_in) auto
    moreover have "distinct (map r_prefix (shift_in r acc @ rs))"
    proof -
      have "mset (map r_prefix (shift_in r acc @ rs)) = mset (map r_prefix (acc @ r # rs))"
        by (simp add: mset_shift_in)
      then show ?thesis using Cons.prems(2) mset_eq_imp_distinct_iff by blast
    qed
    ultimately show ?case using Cons.prems(3) by (auto intro!: Cons.IH)
  qed simp
  from this [of "[]" "e_routes e"] assms show ?thesis
    by (simp add: sort_routes_def table_sorted_def sorted_wrt_rev)
qed

lemma table_sorted_distinct: "table_sorted rs \<Longrightarrow> distinct (map r_prefix rs)"
proof (induction rs)
  case (Cons r rs)
  have "\<not> before x x" for x :: wb_route
    using prefix_cmp_antisym [of "r_prefix x" "r_prefix x"] by linarith
  then have "r_prefix r \<notin> r_prefix ` set rs"
    using Cons.prems by (auto simp: table_sorted_def)
  then show ?case using Cons by (simp add: table_sorted_def)
qed simp

section \<open>What the selection chooses between\<close>

text \<open>
  A candidate may be selected if no local origin has its prefix, policy and link give it a finite
  metric, and the feasibility condition holds.
\<close>

definition eligible :: "wb_engine \<Rightarrow> wb_candidate \<Rightarrow> bool" where
  "eligible e c \<longleftrightarrow> c_used c \<and> local_for e (r_prefix (c_route c)) = None \<and>
     metric e c \<noteq> WB_INFINITY \<and> feasible e c"

definition route_of :: "wb_engine \<Rightarrow> wb_candidate \<Rightarrow> wb_route" where
  "route_of e c = (c_route c)\<lparr>r_metric := metric e c\<rparr>"

definition origins :: "wb_engine \<Rightarrow> wb_local set" where
  "origins e = {l \<in> set (e_local e). lo_used l}"

lemma local_for_None: "local_for e p = None \<longleftrightarrow> p \<notin> lo_prefix ` origins e"
  by (auto simp: local_for_def origins_def)

lemma route_for_None: "route_for e p = None \<longleftrightarrow> p \<notin> r_prefix ` set (e_routes e)"
  by (auto simp: route_for_def)

lemma route_for_Some:
  "route_for e p = Some i \<Longrightarrow> i < length (e_routes e) \<and> r_prefix (e_routes e ! i) = p"
  unfolding route_for_def by (drule find_slot_SomeD) simp

lemma route_simps [simp]:
  "r_prefix (local_route e l) = lo_prefix l" "\<not> r_unreachable (local_route e l)"
  "r_prefix (route_of e c) = r_prefix (c_route c)" "r_metric (route_of e c) = metric e c"
  "r_unreachable (route_of e c) = r_unreachable (c_route c)"
  "r_prefix (drop_entry d) = d_prefix d" "r_unreachable (drop_entry d)"
  by (simp_all add: local_route_def route_of_def drop_entry_def zero_route_def)

lemma sel_core_cong:
  assumes "sel_core x = sel_core e"
  shows "local_for x p = local_for e p" "metric x c = metric e c" "local_route x l = local_route e l"
    "route_of x c = route_of e c" "origins x = origins e"
  using sel_coreD [OF assms]
  by (simp_all add: local_for_def metric_def allowed_def cost_def link_at_def link_for_def
      local_route_def route_of_def origins_def)

lemma feasible_cong: "e_sources x = e_sources e \<Longrightarrow> feasible x c = feasible e c"
  unfolding feasible_def source_for_def by (simp only:)

lemma eligible_cong:
  assumes "sel_core x = sel_core e" "e_sources x = e_sources e"
  shows "eligible x c = eligible e c"
  unfolding eligible_def sel_core_cong [OF assms(1)] feasible_cong [OF assms(2)] ..

text \<open>The table after the local origins and the candidates \<open>cs\<close> have been looked at.\<close>

definition chosen_from :: "wb_engine \<Rightarrow> wb_candidate list \<Rightarrow> wb_route list \<Rightarrow> bool" where
  "chosen_from e cs rs \<longleftrightarrow>
     (\<forall>r \<in> set rs. r \<in> local_route e ` origins e \<or> (\<exists>c \<in> set cs. eligible e c \<and> r = route_of e c)) \<and>
     (\<forall>l \<in> origins e. local_route e l \<in> set rs) \<and>
     (\<forall>c \<in> set cs. eligible e c \<longrightarrow>
        (\<exists>r \<in> set rs. r_prefix r = r_prefix (c_route c) \<and> r_metric r \<le> metric e c)) \<and>
     distinct (map r_prefix rs)"

lemma chosen_fromI:
  assumes "\<And>r. r \<in> set rs \<Longrightarrow> r \<in> local_route e ` origins e \<or> (\<exists>c \<in> set cs. eligible e c \<and> r = route_of e c)"
    and "\<And>l. l \<in> origins e \<Longrightarrow> local_route e l \<in> set rs"
    and "\<And>c. c \<in> set cs \<Longrightarrow> eligible e c \<Longrightarrow>
           \<exists>r \<in> set rs. r_prefix r = r_prefix (c_route c) \<and> r_metric r \<le> metric e c"
    and "distinct (map r_prefix rs)"
  shows "chosen_from e cs rs"
  unfolding chosen_from_def by (intro conjI ballI impI assms(4)) (rule assms(1-3); assumption)+

lemma select_local_routes:
  assumes "select_local ls e = (True, e')"
  shows "e_routes e' = e_routes e @ map (local_route e) (filter lo_used ls)"
  using assms
proof (induction ls arbitrary: e)
  case (Cons l ls)
  obtain got e1 where p: "push_route e (local_route e l) = (got, e1)" by fastforce
  note spec = push_route_spec [OF p]
  show ?case
  proof (cases "lo_used l")
    case True
    with Cons.prems p have "got" "select_local ls e1 = (True, e')" by (auto split: bool.splits)
    from Cons.IH [OF this(2)] spec(7) [OF this(1)] sel_core_cong(3) [OF spec(1)] True
    show ?thesis by simp
  next
    case False
    with Cons show ?thesis by simp
  qed
qed simp

lemma chosen_from_start:
  assumes "distinct (map lo_prefix (filter lo_used (e_local e)))"
  shows "chosen_from e [] (map (local_route e) (filter lo_used (e_local e)))"
  using assms by (auto simp: chosen_from_def origins_def local_route_def comp_def)

lemma chosen_from_skip:
  assumes "chosen_from e cs rs" and "\<not> eligible e c"
  shows "chosen_from e (cs @ [c]) rs"
  using assms unfolding chosen_from_def by auto

lemma chosen_from_keep:
  assumes "chosen_from e cs rs" and "r \<in> set rs" "r_prefix r = r_prefix (c_route c)" "r_metric r \<le> metric e c"
  shows "chosen_from e (cs @ [c]) rs"
  using assms unfolding chosen_from_def by auto

lemma chosen_from_push:
  assumes "chosen_from e cs rs" and "eligible e c" and "r_prefix (c_route c) \<notin> r_prefix ` set rs"
  shows "chosen_from e (cs @ [c]) (rs @ [route_of e c])"
  using assms unfolding chosen_from_def by auto

lemma chosen_from_replace:
  assumes ch: "chosen_from e cs rs" and el: "eligible e c" and i: "i < length rs"
    and p: "r_prefix (rs ! i) = r_prefix (c_route c)" and m: "metric e c \<le> r_metric (rs ! i)"
  shows "chosen_from e (cs @ [c]) (rs[i := route_of e c])"
proof (rule chosen_fromI)
  let ?rs = "rs[i := route_of e c]"
  have kept: "r \<in> set ?rs" if "r \<in> set rs" "r \<noteq> rs ! i" for r
    using that i by (metis in_set_conv_nth length_list_update nth_list_update_neq)
  have new: "route_of e c \<in> set ?rs" using i by (simp add: set_update_memI)
  show "r \<in> local_route e ` origins e \<or> (\<exists>c' \<in> set (cs @ [c]). eligible e c' \<and> r = route_of e c')"
    if "r \<in> set ?rs" for r
    using set_update_subset_insert [of rs i "route_of e c"] that ch el unfolding chosen_from_def by auto
  show "local_route e l \<in> set ?rs" if l: "l \<in> origins e" for l
  proof (rule kept)
    show "local_route e l \<in> set rs" using ch l unfolding chosen_from_def by blast
    have "lo_prefix l \<noteq> r_prefix (rs ! i)"
      using el l p unfolding eligible_def local_for_None by (metis imageI)
    then show "local_route e l \<noteq> rs ! i" by (metis route_simps(1))
  qed
  show "\<exists>r \<in> set ?rs. r_prefix r = r_prefix (c_route c') \<and> r_metric r \<le> metric e c'"
    if c': "c' \<in> set (cs @ [c])" "eligible e c'" for c'
  proof (cases "c' = c")
    case True
    with new show ?thesis by (intro bexI [of _ "route_of e c"]) simp_all
  next
    case False
    with c' ch obtain r where r: "r \<in> set rs" "r_prefix r = r_prefix (c_route c')" "r_metric r \<le> metric e c'"
      unfolding chosen_from_def by auto
    show ?thesis
    proof (cases "r = rs ! i")
      case True
      with r p m new show ?thesis by (intro bexI [of _ "route_of e c"]) auto
    next
      case False
      with r kept show ?thesis by blast
    qed
  qed
  have "map r_prefix ?rs = map r_prefix rs"
    using i p by (intro nth_equalityI) (auto simp: nth_list_update)
  then show "distinct (map r_prefix ?rs)" using ch by (simp add: chosen_from_def)
qed

lemma select_candidate_chosen:
  assumes sel: "select_candidate old c x = (True, x')" and ch: "chosen_from e cs (e_routes x)"
    and same: "sel_core x = sel_core e" "e_sources x = e_sources e"
  shows "chosen_from e (cs @ [c]) (e_routes x')"
proof -
  note cong = sel_core_cong [OF same(1)] feasible_cong [OF same(2)]
  from sel show ?thesis
  proof (cases rule: select_candidate_cases)
    case skipped
    then have "\<not> eligible e c" by (simp add: eligible_def cong)
    with skipped ch show ?thesis by (simp add: chosen_from_skip)
  next
    case pushed
    have "eligible e c" using pushed by (simp add: eligible_def cong)
    moreover have "e_routes x' = e_routes x @ [route_of e c]"
      using push_route_spec(7) [OF pushed(6)] by (simp add: route_of_def cong)
    ultimately show ?thesis using ch pushed(5) by (simp add: chosen_from_push route_for_None)
  next
    case (kept i)
    with route_for_Some [OF kept(7)] ch show ?thesis
      by (intro chosen_from_keep [where r = "e_routes x ! i"]) (simp_all add: cong)
  next
    case (replaced i)
    then have el: "eligible e c" by (simp add: eligible_def cong)
    show ?thesis using route_for_Some [OF replaced(6)] replaced chosen_from_replace [OF ch el, of i]
      by (simp add: cong route_of_def)
  qed
qed

lemma select_candidates_chosen:
  assumes "select_candidates old ds x = (True, x')" "chosen_from e cs (e_routes x)"
    "sel_core x = sel_core e" "e_sources x = e_sources e"
  shows "chosen_from e (cs @ ds) (e_routes x')"
  using assms
proof (induction ds arbitrary: x cs)
  case (Cons d ds)
  obtain got x1 where p: "select_candidate old d x = (got, x1)" by fastforce
  with Cons.prems(1) have got: "got" "select_candidates old ds x1 = (True, x')"
    by (auto split: bool.splits)
  from p got(1) have p: "select_candidate old d x = (True, x1)" by simp
  have "chosen_from e (cs @ [d]) (e_routes x1)"
    by (rule select_candidate_chosen [OF p Cons.prems(2-4)])
  moreover have "sel_core x1 = sel_core e" "e_sources x1 = e_sources e"
    using select_candidate_frame(1,2) [OF p] Cons.prems(3,4) by simp_all
  ultimately show ?case using Cons.IH [OF got(2)] by fastforce
qed simp

subsection \<open>Suppressed prefixes\<close>

text \<open>A drop entry holds a lost prefix for three and a half update intervals.\<close>

definition clock_ok :: "wb_engine \<Rightarrow> bool" where
  "clock_ok e \<longleftrightarrow> 0 < cfg_update_ms (e_config e) \<and> cfg_update_ms (e_config e) \<le> 655340 \<and>
     e_now e \<le> UINT64_MAX - 172800000"

definition held :: "wb_engine \<Rightarrow> wb_prefix \<Rightarrow> bool" where
  "held e p \<longleftrightarrow> (\<exists>d \<in> set (e_drops e). d_used d \<and> d_prefix d = p \<and> e_now e < d_expires d)"

lemma clock_ok_cong: "sel_core x = sel_core e \<Longrightarrow> clock_ok x = clock_ok e"
  by (simp add: clock_ok_def sel_coreD(1,2) [of x e])

lemma unat_timer:
  fixes t d :: u64
  assumes "t \<le> UINT64_MAX - 172800000" "unat d \<le> 172800000"
  shows "unat (t + d) = unat t + unat d"
proof -
  have "unat t \<le> unat (UINT64_MAX - 172800000 :: u64)" using assms(1) by (simp add: word_le_nat_alt)
  then have "unat t + unat d < 2 ^ 64" using assms(2) by simp
  then show ?thesis by (simp add: unat_word_ariths)
qed

lemma unat_hold: "unat n \<le> 655340 \<Longrightarrow> unat (hold n) = unat n * 7 div 2"
  by (simp add: hold_def unat_div unat_word_ariths)

lemma drop_outlives:
  assumes "clock_ok e"
  shows "e_now e < e_now e + hold (ucast (cfg_update_ms (e_config e)))"
proof -
  let ?d = "hold (ucast (cfg_update_ms (e_config e)))"
  let ?u = "unat (cfg_update_ms (e_config e))"
  have u: "0 < ?u" "?u \<le> 655340"
    using assms by (simp_all add: clock_ok_def word_le_nat_alt word_less_nat_alt)
  then have "unat (ucast (cfg_update_ms (e_config e)) :: u64) = ?u"
    by (simp add: unsigned_ucast_eq take_bit_nat_def)
  with u have d: "unat ?d = ?u * 7 div 2" by (simp add: unat_hold)
  with u have "unat ?d \<le> 172800000" "0 < unat ?d" by simp_all
  with unat_timer [of "e_now e" ?d] assms show ?thesis
    by (simp add: clock_ok_def word_less_nat_alt)
qed

lemma drop_slot_drops:
  assumes "drop_slot e p = (res, e')" and "storage_ok e"
  obtains m where "e_drops e' = e_drops e @ replicate m zero_drop"
    "\<And>i. res = Some i \<Longrightarrow> i < length (e_drops e') \<and>
       (d_used (e_drops e' ! i) \<longrightarrow> d_prefix (e_drops e' ! i) = p)"
proof (cases "drop_for e p")
  case None
  then have "claim_slot (\<lambda>d. \<not> d_used d) e_drops wb_reserve_drops e = (res, e')"
    using assms(1) unfolding drop_slot_def None by simp
  then show ?thesis using assms(2)
    by (rule drops_table.claim_spec) (auto simp: zero_drop_def intro: that)
next
  case (Some j)
  then have "e' = e" "res = Some j" using assms(1) by (simp_all add: drop_slot_def)
  with Some show ?thesis
    by (intro that [of 0]) (auto simp: drop_for_def dest!: find_slot_SomeD)
qed

lemma heldI: "i < length (e_drops e) \<Longrightarrow> d_used (e_drops e ! i) \<Longrightarrow> e_now e < d_expires (e_drops e ! i) \<Longrightarrow>
    d_prefix (e_drops e ! i) = p \<Longrightarrow> held e p"
  unfolding held_def by (rule bexI [of _ "e_drops e ! i"]) simp_all

lemma drop_route_held:
  assumes "storage_ok e" "clock_ok e"
  shows "e_stopped (drop_route e p) \<or> held (drop_route e p) p"
    and "held e q \<Longrightarrow> held (drop_route e p) q"
    and "held (drop_route e p) q \<Longrightarrow> held e q \<or> q = p"
    and "e_stopped e \<Longrightarrow> e_stopped (drop_route e p)"
proof -
  obtain res e1 where s: "drop_slot e p = (res, e1)" by fastforce
  note spec = drop_slot_spec [OF s]
  have now: "e_now e1 = e_now e" "e_config e1 = e_config e" using sel_coreD [OF spec(1)] by simp_all
  obtain m where m: "e_drops e1 = e_drops e @ replicate m zero_drop"
    and slot: "\<And>i. res = Some i \<Longrightarrow> i < length (e_drops e1) \<and>
       (d_used (e_drops e1 ! i) \<longrightarrow> d_prefix (e_drops e1 ! i) = p)"
    using drop_slot_drops [OF s assms(1)] by blast
  let ?d = "\<lparr>d_prefix = p, d_expires = e_now e + hold (ucast (cfg_update_ms (e_config e))), d_used = True\<rparr>"
  have "(e_stopped (drop_route e p) \<or> held (drop_route e p) p) \<and>
    (held e q \<longrightarrow> held (drop_route e p) q) \<and> (held (drop_route e p) q \<longrightarrow> held e q \<or> q = p) \<and>
    (e_stopped e \<longrightarrow> e_stopped (drop_route e p))"
  proof (cases res)
    case (Some i)
    then have eq: "drop_route e p = e1\<lparr>e_drops := (e_drops e1)[i := ?d]\<rparr>"
      using s now by (simp add: drop_route_def)
    note slot = slot [OF Some]
    have new: "held (drop_route e p) p"
      using slot drop_outlives [OF assms(2)]
      by (intro heldI [of i]) (simp_all add: eq now)
    have fwd: "held (drop_route e p) q" if q: "held e q"
    proof (cases "q = p")
      case False
      from q obtain k where k: "k < length (e_drops e)" "d_used (e_drops e ! k)" "d_prefix (e_drops e ! k) = q"
          "e_now e < d_expires (e_drops e ! k)"
        unfolding held_def by (metis in_set_conv_nth)
      then have "e_drops e1 ! k = e_drops e ! k" "k < length (e_drops e1)" using m by (simp_all add: nth_append)
      with k False slot have "i \<noteq> k" by auto
      then show ?thesis using k m by (intro heldI [of k]) (simp_all add: eq now nth_append)
    qed (simp add: new)
    have bwd: "held e q \<or> q = p" if "held (drop_route e p) q"
      using that set_update_subset_insert [of "e_drops e1" i ?d]
      by (auto simp: held_def eq now m zero_drop_def)
    show ?thesis using new fwd bwd spec(6) by (simp add: eq)
  next
    case None
    then have eq: "drop_route e p = e1\<lparr>e_stopped := True\<rparr>" using s by (simp add: drop_route_def)
    show ?thesis by (auto simp: eq held_def m now zero_drop_def)
  qed
  then show "e_stopped (drop_route e p) \<or> held (drop_route e p) p"
    "held e q \<Longrightarrow> held (drop_route e p) q" "held (drop_route e p) q \<Longrightarrow> held e q \<or> q = p"
    "e_stopped e \<Longrightarrow> e_stopped (drop_route e p)" by blast+
qed

lemma held_cong: "e_drops x = e_drops y \<Longrightarrow> e_now x = e_now y \<Longrightarrow> held x p = held y p"
  by (simp add: held_def)

lemma lose_route_cases:
  obtains (same) "r_unreachable r \<or> route_for e (r_prefix r) \<noteq> None" "lose_route r e = e"
  | (lost) "\<not> r_unreachable r" "route_for e (r_prefix r) = None"
      "e_drops (lose_route r e) = e_drops (drop_route e (r_prefix r))"
      "e_stopped (lose_route r e) = e_stopped (drop_route e (r_prefix r))"
proof (cases "\<not> r_unreachable r \<and> route_for e (r_prefix r) = None")
  case True
  let ?x = "trigger (drop_route e (r_prefix r)) True"
  have "e_drops (lose_route r e) = e_drops ?x \<and> e_stopped (lose_route r e) = e_stopped ?x"
    unfolding lose_route_def if_P [OF True] Let_def by (simp split: option.split)
  with True show ?thesis by (intro lost) simp_all
next
  case False
  then show ?thesis by (intro same) (auto simp: lose_route_def)
qed

lemma lose_route_held:
  assumes "storage_ok e" "clock_ok e"
  shows "r_unreachable r \<or> route_for e (r_prefix r) \<noteq> None \<or>
      e_stopped (lose_route r e) \<or> held (lose_route r e) (r_prefix r)"
    and "held e q \<Longrightarrow> held (lose_route r e) q"
    and "held (lose_route r e) q \<Longrightarrow>
      held e q \<or> (\<not> r_unreachable r \<and> q = r_prefix r)"
    and "e_stopped e \<Longrightarrow> e_stopped (lose_route r e)"
proof -
  have "(r_unreachable r \<or> route_for e (r_prefix r) \<noteq> None \<or>
      e_stopped (lose_route r e) \<or> held (lose_route r e) (r_prefix r)) \<and>
    (held e q \<longrightarrow> held (lose_route r e) q) \<and>
    (held (lose_route r e) q \<longrightarrow> held e q \<or> (\<not> r_unreachable r \<and> q = r_prefix r)) \<and>
    (e_stopped e \<longrightarrow> e_stopped (lose_route r e))"
  proof (cases rule: lose_route_cases [of r e])
    case same
    then show ?thesis unfolding same(2) by blast
  next
    case lost
    have "held (lose_route r e) p = held (drop_route e (r_prefix r)) p" for p
      by (rule held_cong) (simp_all add: lost)
    with drop_route_held [OF assms] lost show ?thesis by metis
  qed
  then show "r_unreachable r \<or> route_for e (r_prefix r) \<noteq> None \<or>
      e_stopped (lose_route r e) \<or> held (lose_route r e) (r_prefix r)"
    "held e q \<Longrightarrow> held (lose_route r e) q"
    "held (lose_route r e) q \<Longrightarrow> held e q \<or> (\<not> r_unreachable r \<and> q = r_prefix r)"
    "e_stopped e \<Longrightarrow> e_stopped (lose_route r e)" by satx+
qed

lemma lose_routes_mono:
  assumes "storage_ok e" "clock_ok e"
  shows "(held e q \<longrightarrow> held (fold lose_route old e) q) \<and>
    (e_stopped e \<longrightarrow> e_stopped (fold lose_route old e)) \<and>
    (held (fold lose_route old e) q \<longrightarrow>
      held e q \<or> (\<exists>r \<in> set old. \<not> r_unreachable r \<and> r_prefix r = q))"
  using assms
proof (induction old arbitrary: e)
  case (Cons x old)
  have "storage_ok (lose_route x e)" "clock_ok (lose_route x e)"
    using Cons.prems by (simp_all add: storage_ok_lose_route clock_ok_cong [OF lose_route_frame(1)])
  from Cons.IH [OF this] lose_route_held(2,3) [OF Cons.prems, where q = q and r = x]
    lose_route_held(4) [OF Cons.prems, of x] show ?case
    by (simp del: fold_simps add: fold_simps(2)) metis
qed simp

lemma lose_routes_held:
  assumes "storage_ok e" "clock_ok e"
    and "r \<in> set old" "\<not> r_unreachable r" "route_for e (r_prefix r) = None"
  shows "e_stopped (fold lose_route old e) \<or> held (fold lose_route old e) (r_prefix r)"
  using assms
proof (induction old arbitrary: e)
  case (Cons x old)
  have ok: "storage_ok (lose_route x e)" "clock_ok (lose_route x e)"
    using Cons.prems(1,2) by (simp_all add: storage_ok_lose_route clock_ok_cong [OF lose_route_frame(1)])
  show ?case
  proof (cases "r = x")
    case True
    with Cons.prems lose_route_held(1) [OF Cons.prems(1,2), where r = r]
    have "e_stopped (lose_route x e) \<or> held (lose_route x e) (r_prefix r)" by auto
    with lose_routes_mono [OF ok, of "r_prefix r" old] show ?thesis by auto
  next
    case False
    moreover have "route_for (lose_route x e) (r_prefix r) = None"
      using Cons.prems(5) by (simp add: route_for_def)
    ultimately show ?thesis using Cons.IH [OF ok] Cons.prems by simp
  qed
qed simp

definition live_drop :: "wb_engine \<Rightarrow> nat \<Rightarrow> bool" where
  "live_drop e i \<longleftrightarrow> d_used (e_drops e ! i) \<and> e_now e < d_expires (e_drops e ! i)"

lemma select_drops_sound:
  assumes "select_drops is e = (True, e')" "distinct is" "r \<in> set (e_routes e')"
  shows "r \<in> set (e_routes e) \<or> (\<exists>i \<in> set is. live_drop e i \<and> r = drop_entry (e_drops e ! i))"
  using assms
proof (induction "is" arbitrary: e)
  case (Cons k "is")
  have d: "k \<notin> set is" "distinct is" using Cons.prems(2) by simp_all
  from Cons.prems(1) show ?case
  proof (cases rule: select_drops_Cons)
    case unused
    from Cons.IH [OF unused(2) d(2) Cons.prems(3)] show ?thesis by auto
  next
    case ended
    have nth: "((e_drops e)[k := x]) ! i = e_drops e ! i" if "i \<in> set is" for i x
      using that d(1) by (intro nth_list_update_neq) auto
    from Cons.IH [OF ended(3) d(2) Cons.prems(3)] show ?thesis by (auto simp: live_drop_def nth)
  next
    case (pushed e1)
    note spec = push_route_spec [OF pushed(4)]
    from Cons.IH [OF pushed(5) d(2) Cons.prems(3)] pushed spec(4,7) sel_coreD(2) [OF spec(1)] show ?thesis
      by (auto simp: live_drop_def)
  next
    case failed
    then show ?thesis by simp
  qed
qed simp

lemma select_drops_keeps:
  assumes "select_drops is e = (True, e')" "r \<in> set (e_routes e)"
  shows "r \<in> set (e_routes e')"
  using assms
proof (induction "is" arbitrary: e)
  case (Cons k "is")
  from Cons.prems(1) show ?case
    by (cases rule: select_drops_Cons) (use Cons push_route_spec(7) in auto)
qed simp

lemma select_drops_complete:
  assumes "select_drops is e = (True, e')" "distinct is" "i \<in> set is" "live_drop e i"
  shows "d_prefix (e_drops e ! i) \<in> r_prefix ` set (e_routes e')"
  using assms
proof (induction "is" arbitrary: e)
  case (Cons k "is")
  have d: "k \<notin> set is" "distinct is" using Cons.prems(2) by simp_all
  from Cons.prems(1) show ?case
  proof (cases rule: select_drops_Cons)
    case unused
    with Cons.prems have "i \<in> set is" by (auto simp: live_drop_def)
    from Cons.IH [OF unused(2) d(2) this Cons.prems(4)] show ?thesis .
  next
    case ended
    show ?thesis
    proof (cases "i = k")
      case True
      with ended(2) Cons.prems(4) have "route_for e (d_prefix (e_drops e ! i)) \<noteq> None"
        by (auto simp: live_drop_def)
      then show ?thesis using select_drops_keeps [OF ended(3)] by (auto simp: route_for_None)
    next
      case False
      with Cons.prems(3,4) Cons.IH [OF ended(3) d(2)] show ?thesis by (simp add: live_drop_def)
    qed
  next
    case (pushed e1)
    note spec = push_route_spec [OF pushed(4)]
    show ?thesis
    proof (cases "i = k")
      case True
      have "drop_entry (e_drops e ! k) \<in> set (e_routes e')"
        by (rule select_drops_keeps [OF pushed(5)]) (simp add: spec(7))
      from imageI [OF this, of r_prefix] True show ?thesis by simp
    next
      case False
      with Cons.prems(3,4) Cons.IH [OF pushed(5) d(2)] show ?thesis
        by (simp add: live_drop_def spec(4) sel_coreD(2) [OF spec(1)])
    qed
  next
    case failed
    then show ?thesis by simp
  qed
qed simp

lemma select_drops_distinct:
  assumes "select_drops is e = (True, e')" "distinct (map r_prefix (e_routes e))"
  shows "distinct (map r_prefix (e_routes e'))"
  using assms
proof (induction "is" arbitrary: e)
  case (Cons k "is")
  from Cons.prems(1) show ?case
  proof (cases rule: select_drops_Cons)
    case (pushed e1)
    then have "distinct (map r_prefix (e_routes e1))"
      using Cons.prems(2) by (simp add: push_route_spec(7) [OF pushed(4)] route_for_None)
    from Cons.IH [OF pushed(5) this] show ?thesis .
  next
    case ended
    from Cons.IH [OF ended(3)] Cons.prems(2) show ?thesis by simp
  next
    case unused
    from Cons.IH [OF unused(2) Cons.prems(2)] show ?thesis .
  next
    case failed
    then show ?thesis by simp
  qed
qed simp

section \<open>The selected table\<close>

text \<open>
  What selection needs of the tables it reads: one slot per origin, IPv4 and IPv6 addresses in
  16 bytes, and candidates that do not already carry the suppressed flag.
\<close>

definition prefixes_ok :: "wb_engine \<Rightarrow> bool" where
  "prefixes_ok e \<longleftrightarrow>
     (\<forall>l \<in> set (e_local e). lo_used l \<longrightarrow> length (p_bytes (lo_prefix l)) = 16) \<and>
     (\<forall>c \<in> set (e_candidates e). c_used c \<longrightarrow>
        length (p_bytes (r_prefix (c_route c))) = 16 \<and> \<not> r_unreachable (c_route c)) \<and>
     (\<forall>d \<in> set (e_drops e). d_used d \<longrightarrow> length (p_bytes (d_prefix d)) = 16) \<and>
     (\<forall>r \<in> set (e_routes e). length (p_bytes (r_prefix r)) = 16)"

definition selection_ok :: "wb_engine \<Rightarrow> bool" where
  "selection_ok e \<longleftrightarrow> storage_ok e \<and> clock_ok e \<and> prefixes_ok e \<and>
     distinct (map lo_prefix (filter lo_used (e_local e)))"

text \<open>
  The table \<open>T\<close> is a selection for the engine \<open>e\<close>: the routes \<open>rs\<close> chosen among the origins and the
  eligible candidates, and suppressed entries for other prefixes that were reachable or already
  suppressed.
\<close>

definition selection_of :: "wb_engine \<Rightarrow> wb_route list \<Rightarrow> wb_route list \<Rightarrow> bool" where
  "selection_of e rs T \<longleftrightarrow> chosen_from e (e_candidates e) rs \<and> set rs \<subseteq> set T \<and>
     distinct (map r_prefix T) \<and>
     (\<forall>r \<in> set T - set rs. r_unreachable r \<and>
        (held e (r_prefix r) \<or> (\<exists>w \<in> set (e_routes e). \<not> r_unreachable w \<and> r_prefix w = r_prefix r))) \<and>
     (\<forall>p. held e p \<longrightarrow> p \<in> r_prefix ` set T) \<and>
     (\<forall>w \<in> set (e_routes e). \<not> r_unreachable w \<longrightarrow> r_prefix w \<in> r_prefix ` set T)"

lemma live_drop_held: "held e p \<longleftrightarrow> (\<exists>i < length (e_drops e). live_drop e i \<and> d_prefix (e_drops e ! i) = p)"
  unfolding held_def live_drop_def Bex_def in_set_conv_nth by metis

lemma rebuild_routes_selection:
  assumes ok: "storage_ok e" "clock_ok e" "distinct (map lo_prefix (filter lo_used (e_local e)))"
    and run: "\<not> e_stopped (rebuild_routes (e_routes e) e)"
  shows "\<exists>rs. selection_of e rs (e_routes (rebuild_routes (e_routes e) e))"
proof (cases rule: rebuild_routes_cases [of e "e_routes e"])
  case (settled e1 e2 e4)
  let ?e0 = "e\<lparr>e_routes := []\<rparr>" and ?e3 = "fold lose_route (e_routes e) e2"
  note f1 = select_local_frame [OF settled(1)] and f2 = select_candidates_frame [OF settled(2)]
    and f4 = select_drops_frame [OF settled(3)]
  have s0: "sel_core ?e0 = sel_core e" "storage_ok ?e0" using ok(1) by (simp_all add: storage_ok_tables(6))
  have s1: "sel_core e1 = sel_core e" "e_sources e1 = e_sources e" using f1 s0 by simp_all
  have s2: "sel_core e2 = sel_core e" "e_drops e2 = e_drops e" "storage_ok e2" using f1 f2 s0 by simp_all
  have "e_routes e1 = map (local_route e) (filter lo_used (e_local e))"
    using select_local_routes [OF settled(1)] by (simp add: sel_core_cong(3) [OF s0(1)])
  with chosen_from_start [OF ok(3)] select_candidates_chosen [OF settled(2) _ s1, of "[]"]
  have ch: "chosen_from e (e_candidates e) (e_routes e2)" by (simp add: sel_coreD(9) [OF s1(1)])
  have clk: "clock_ok e2" using ok(2) clock_ok_cong [OF s2(1)] by simp
  have s3: "e_routes ?e3 = e_routes e2" "sel_core ?e3 = sel_core e"
    using fold_frame [of e_routes lose_route] fold_frame [of sel_core lose_route] s2(1) by simp_all
  have run4: "\<not> e_stopped e4" using run settled(4) by simp
  then have run3: "\<not> e_stopped ?e3" using f4 by simp
  have held2: "held e2 p = held e p" for p by (rule held_cong) (simp_all add: s2 sel_coreD(2) [OF s2(1)])
  note mono = lose_routes_mono [OF s2(3) clk, of _ "e_routes e", unfolded held2]
  have T: "set (e_routes (rebuild_routes (e_routes e) e)) = set (e_routes e4)"
    using settled(4) by simp
  have in3: "p \<in> r_prefix ` set (e_routes e4)" if "held ?e3 p" for p
    using that select_drops_complete [OF settled(3) distinct_upt] unfolding live_drop_held by auto
  have out: "r_unreachable r \<and> held ?e3 (r_prefix r)"
    if "r \<in> set (e_routes e4)" "r \<notin> set (e_routes e2)" for r
    using select_drops_sound [OF settled(3) distinct_upt that(1)] that(2) s3(1)
    unfolding live_drop_held by auto
  have "distinct (map r_prefix (e_routes e4))"
    using select_drops_distinct [OF settled(3)] ch s3(1) by (simp add: chosen_from_def)
  moreover have "mset (map r_prefix (e_routes (settle_routes (e_routes e) e4))) = mset (map r_prefix (e_routes e4))"
    by (simp add: mset_sort_routes)
  ultimately have dist: "distinct (map r_prefix (e_routes (settle_routes (e_routes e) e4)))"
    using mset_eq_imp_distinct_iff by blast
  show ?thesis
  proof (rule exI [of _ "e_routes e2"], unfold selection_of_def T, intro conjI ballI allI impI)
    show "chosen_from e (e_candidates e) (e_routes e2)" by (rule ch)
    show "set (e_routes e2) \<subseteq> set (e_routes e4)" using select_drops_keeps [OF settled(3)] s3(1) by auto
    show "distinct (map r_prefix (e_routes (rebuild_routes (e_routes e) e)))" using dist settled(4) by simp
    show "r_unreachable r" if "r \<in> set (e_routes e4) - set (e_routes e2)" for r using out that by blast
    show "held e (r_prefix r) \<or> (\<exists>w \<in> set (e_routes e). \<not> r_unreachable w \<and> r_prefix w = r_prefix r)"
      if "r \<in> set (e_routes e4) - set (e_routes e2)" for r
      using mono [of "r_prefix r"] out [of r] that by simp
    show "p \<in> r_prefix ` set (e_routes e4)" if "held e p" for p
      using in3 [of p] mono [of p] that by simp
    show "r_prefix r \<in> r_prefix ` set (e_routes e4)"
      if "r \<in> set (e_routes e)" "\<not> r_unreachable r" for r
    proof (cases "route_for e2 (r_prefix r)")
      case None
      from lose_routes_held [OF s2(3) clk that None] run3 in3 show ?thesis by blast
    next
      case (Some i)
      then show ?thesis
        using route_for_None [of e2 "r_prefix r"] select_drops_keeps [OF settled(3)] s3(1) by auto
    qed
  qed
qed (use run select_local_frame select_candidates_frame select_drops_frame in auto)

lemma selection_of_cong:
  assumes "sel_core x = sel_core e" "e_sources x = e_sources e" "e_drops x = e_drops e"
    "e_routes x = e_routes e"
  shows "selection_of x rs T = selection_of e rs T"
proof -
  have "held x p = held e p" for p
    by (rule held_cong) (simp_all add: assms(3) sel_coreD(2) [OF assms(1)])
  then show ?thesis
    unfolding selection_of_def chosen_from_def assms(4) sel_core_cong [OF assms(1)]
      eligible_cong [OF assms(1,2)] sel_coreD(9) [OF assms(1)] by simp
qed

lemma select_routes_selection:
  assumes "selection_ok e" "\<not> e_stopped e" "\<not> e_stopped (select_routes e)"
  obtains rs where "selection_of e rs (e_routes (select_routes e))"
proof -
  have ok: "storage_ok e" "clock_ok e" "distinct (map lo_prefix (filter lo_used (e_local e)))"
    using assms(1) by (simp_all add: selection_ok_def)
  show ?thesis
  proof (cases rule: select_routes_cases [of e])
    case (selected e')
    obtain a p k f cap where e': "e' = (rebook e a p k f)\<lparr>e_scratch_capacity := cap\<rparr>" "storage_ok e'"
      by (rule scratch_array.reserve_spec [OF selected(2) ok(1)])
    have same: "sel_core e' = sel_core e" "e_sources e' = e_sources e" "e_drops e' = e_drops e"
      "e_routes e' = e_routes e" "e_local e' = e_local e"
      by (simp_all add: e'(1) rebook_def sel_core_def)
    have run: "\<not> e_stopped (rebuild_routes (e_routes e') e')"
      using assms(3) unfolding selected(3) same(4) by (auto simp: select_done_def wb_free_scratch_def)
    then have fin: "select_routes e = rebuild_routes (e_routes e') e'"
      using selected(3) unfolding same(4) by (simp add: select_done_def)
    from rebuild_routes_selection [OF e'(2) _ _ run] ok(2,3) same(5)
    obtain rs where "selection_of e' rs (e_routes (rebuild_routes (e_routes e') e'))"
      by (auto simp: clock_ok_cong [OF same(1)])
    then have "selection_of e rs (e_routes (select_routes e))"
      unfolding fin by (simp only: selection_of_cong [OF same(1-4)])
    then show ?thesis by (rule that)
  next
    case stopped
    with assms(2) show ?thesis by simp
  next
    case (refused e')
    with assms(3) show ?thesis by simp
  qed
qed

lemma selection_ofD:
  assumes "selection_of e rs T"
  shows "r \<in> set rs \<Longrightarrow> r \<in> local_route e ` origins e \<or> (\<exists>c \<in> set (e_candidates e). eligible e c \<and> r = route_of e c)"
    and "l \<in> origins e \<Longrightarrow> local_route e l \<in> set rs"
    and "c \<in> set (e_candidates e) \<Longrightarrow> eligible e c \<Longrightarrow>
      \<exists>r \<in> set rs. r_prefix r = r_prefix (c_route c) \<and> r_metric r \<le> metric e c"
    and "r \<in> set rs \<Longrightarrow> r \<in> set T"
    and "distinct (map r_prefix T)"
    and "r \<in> set T \<Longrightarrow> r \<notin> set rs \<Longrightarrow> r_unreachable r"
    and "r \<in> set T \<Longrightarrow> r \<notin> set rs \<Longrightarrow>
      held e (r_prefix r) \<or> (\<exists>w \<in> set (e_routes e). \<not> r_unreachable w \<and> r_prefix w = r_prefix r)"
    and "held e p \<Longrightarrow> p \<in> r_prefix ` set T"
    and "w \<in> set (e_routes e) \<Longrightarrow> \<not> r_unreachable w \<Longrightarrow> r_prefix w \<in> r_prefix ` set T"
  using assms by (simp_all add: selection_of_def chosen_from_def subset_iff)

lemma selection_cases:
  assumes "selection_of e rs T" "r \<in> set T"
  obtains (origin) l where "l \<in> origins e" "r = local_route e l"
  | (candidate) c where "c \<in> set (e_candidates e)" "eligible e c" "r = route_of e c"
  | (suppressed) "r_unreachable r" "r \<notin> set rs"
proof (cases "r \<in> set rs")
  case True
  from selection_ofD(1) [OF assms(1) True] origin candidate show ?thesis by auto
next
  case False
  from selection_ofD(6) [OF assms False] False show ?thesis by (rule suppressed)
qed

lemma selection_length:
  assumes "prefixes_ok e" "selection_of e rs T" "r \<in> set T"
  shows "length (p_bytes (r_prefix r)) = 16"
  using assms(2,3)
proof (cases rule: selection_cases)
  case suppressed
  from selection_ofD(7) [OF assms(2,3) suppressed(2)] assms(1) show ?thesis
    by (auto simp: prefixes_ok_def held_def)
qed (use assms(1) in \<open>auto simp: prefixes_ok_def origins_def eligible_def\<close>)

lemma same_prefix_same_route:
  "distinct (map r_prefix T) \<Longrightarrow> a \<in> set T \<Longrightarrow> b \<in> set T \<Longrightarrow> r_prefix a = r_prefix b \<Longrightarrow> a = b"
  by (simp add: distinct_map inj_on_def)

lemma rebuild_routes_sorts:
  assumes "\<not> e_stopped (rebuild_routes old e)"
  shows "\<exists>x. e_routes (rebuild_routes old e) = e_routes (sort_routes x)"
proof (cases rule: rebuild_routes_cases [of e old])
  case (settled e1 e2 e4)
  then have "e_routes (rebuild_routes old e) = e_routes (sort_routes e4)" by simp
  then show ?thesis ..
qed (use assms select_local_frame select_candidates_frame select_drops_frame in auto)

lemma select_routes_sorts:
  assumes "\<not> e_stopped e" "\<not> e_stopped (select_routes e)"
  shows "\<exists>x. e_routes (select_routes e) = e_routes (sort_routes x)"
proof (cases rule: select_routes_cases [of e])
  case (selected e')
  have run: "\<not> e_stopped (rebuild_routes (e_routes e) e')"
    using assms(2) unfolding selected(3) by (auto simp: select_done_def wb_free_scratch_def)
  then have "select_routes e = rebuild_routes (e_routes e) e'"
    using selected(3) by (simp add: select_done_def)
  with rebuild_routes_sorts [OF run] show ?thesis by simp
next
  case (refused e')
  with assms show ?thesis by simp
qed (use assms in simp)

lemma select_routes_table_sorted:
  assumes "selection_ok e" "\<not> e_stopped e" "\<not> e_stopped (select_routes e)"
  shows "table_sorted (e_routes (select_routes e))"
proof -
  obtain rs where sel: "selection_of e rs (e_routes (select_routes e))"
    by (rule select_routes_selection [OF assms])
  obtain x where x: "e_routes (select_routes e) = e_routes (sort_routes x)"
    using select_routes_sorts [OF assms(2,3)] by blast
  have "mset (map r_prefix (e_routes x)) = mset (map r_prefix (e_routes (select_routes e)))"
    by (simp add: x mset_sort_routes)
  then have "distinct (map r_prefix (e_routes x))"
    using selection_ofD(5) [OF sel] mset_eq_imp_distinct_iff by blast
  moreover have "length (p_bytes (r_prefix r)) = 16" if "r \<in> set (e_routes x)" for r
    using selection_length [OF _ sel] assms(1) that by (simp add: selection_ok_def x)
  ultimately show ?thesis unfolding x by (rule sort_routes_sorted)
qed

section \<open>A concrete engine\<close>

text \<open>
  One link of cost 10, an origin \<open>10.1.0.0/16\<close>, two candidates for \<open>10.2.0.0/16\<close> with advertised
  metrics 40 and 5, and a table that still holds a route to \<open>10.3.0.0/16\<close>, which no candidate offers
  any more.
\<close>

definition net4 :: "u8 \<Rightarrow> wb_prefix" where
  "net4 n = \<lparr>p_bytes = [10, n] @ zeros 14, p_bits = 16, p_family = 4\<rparr>"

definition example_candidate :: "u64 \<Rightarrow> u16 \<Rightarrow> wb_candidate" where
  "example_candidate router m =
     zero_candidate\<lparr>c_route := zero_route\<lparr>r_prefix := net4 2, r_router := router, r_link := 1\<rparr>,
                    c_advertised := m, c_used := True\<rparr>"

definition example_engine :: wb_engine where
  "example_engine = (zero_engine example_config \<lparr>h_calls = 0, h_blocks = {#152, 160, 24, 32, 256, 256#}\<rparr>)
     \<lparr>e_now := 1000, e_rng := 1, e_ready := True,
      e_links := [zero_link_state\<lparr>ls_config := zero_link\<lparr>l_id := 1, l_ipv4 := [10, 0, 0, 1], l_cost := 10, l_max_packet := 512\<rparr>,
        ls_hello_expires := [9000, 0], ls_ihu_expires := 9000\<rparr>],
      e_local := [zero_local\<lparr>lo_prefix := net4 1, lo_metric := 0, lo_used := True\<rparr>],
      e_candidates := [example_candidate 8 40, example_candidate 9 5],
      e_routes := [zero_route\<lparr>r_prefix := net4 3, r_router := 9, r_link := 1, r_metric := 12\<rparr>],
      e_routes_capacity := 4, e_scratch_capacity := 4, e_drops := [zero_drop],
      e_allocated_bytes := 880, e_peak_bytes := 880\<rparr>"

lemmas example_engine_defs = example_engine_def example_candidate_def net4_def example_defs
  zero_local_def zero_candidate_def zero_route_def zero_prefix_def
  zero_drop_def

lemma example_engine_ok: "selection_ok example_engine" "\<not> e_stopped example_engine"
  by (simp_all add: selection_ok_def prefixes_ok_def clock_ok_def storage_defs example_engine_defs block_of_def)

lemmas selection_defs = select_routes_def rebuild_routes_def Let_def push_route_def
  select_candidate_def wb_reserve_scratch_def wb_reserve_routes_def reserve_capacity_def local_for_def
  metric_def allowed_def route_for_def cost_def cost_at_def link_at_def link_for_def add_cost_def
  feasible_def source_for_def previous_link_def lose_route_def drop_route_def drop_slot_def
  drop_for_def claim_slot_def wb_reserve_drops_def trigger_def jitter_def xorshift_def
  select_done_def settle_routes_def sort_routes_def prefix_cmp_def local_route_def drop_entry_def
  trigger_change_def answer_request_def hold_def release_def

lemma example_selected:
  "\<not> e_stopped (select_routes example_engine)"
  "e_routes (select_routes example_engine) =
     [zero_route\<lparr>r_prefix := net4 1, r_router := 7, r_local := True\<rparr>,
      zero_route\<lparr>r_prefix := net4 2, r_router := 9, r_link := 1, r_metric := 15\<rparr>,
      zero_route\<lparr>r_prefix := net4 3, r_metric := WB_INFINITY, r_unreachable := True\<rparr>]"
  by (simp_all add: selection_defs example_engine_defs)

section \<open>Properties\<close>

text \<open>C1: after a selection that did not stop the engine, every reachable route of the table that is
  not a local origin is an admitted candidate that policy, link and feasibility allow, carried at
  its current metric, and no other such candidate for the prefix has a smaller metric.\<close>

theorem select_routes_optimal:
  assumes "selection_ok e" "\<not> e_stopped e" "\<not> e_stopped (select_routes e)"
    and "r \<in> set (e_routes (select_routes e))" "\<not> r_unreachable r" "\<not> r_local r"
  shows "\<exists>c \<in> set (e_candidates e). eligible e c \<and> r = (c_route c)\<lparr>r_metric := metric e c\<rparr> \<and>
    (\<forall>c' \<in> set (e_candidates e). eligible e c' \<and> r_prefix (c_route c') = r_prefix (c_route c) \<longrightarrow>
       metric e c \<le> metric e c')"
proof -
  obtain rs where sel: "selection_of e rs (e_routes (select_routes e))"
    by (rule select_routes_selection [OF assms(1-3)])
  from sel assms(4) show ?thesis
  proof (cases rule: selection_cases)
    case (candidate c)
    have "metric e c \<le> metric e c'" if c': "c' \<in> set (e_candidates e)" "eligible e c'"
        "r_prefix (c_route c') = r_prefix (c_route c)" for c'
    proof -
      obtain r' where r': "r' \<in> set rs" "r_prefix r' = r_prefix (c_route c')" "r_metric r' \<le> metric e c'"
        using selection_ofD(3) [OF sel c'(1,2)] by blast
      have "r' = r"
        by (rule same_prefix_same_route [OF selection_ofD(5) [OF sel]])
          (use r' c' candidate assms(4) selection_ofD(4) [OF sel] in simp_all)
      with r'(3) candidate(3) show ?thesis by simp
    qed
    with candidate show ?thesis by (auto simp: route_of_def)
  next
    case (origin l)
    with assms(6) show ?thesis by (simp add: local_route_def)
  next
    case suppressed
    with assms(5) show ?thesis by simp
  qed
qed

theorem select_routes_optimal_witness:
  "selection_ok example_engine \<and> \<not> e_stopped (select_routes example_engine) \<and>
   (\<exists>c \<in> set (e_candidates example_engine). eligible example_engine c \<and> r_router (c_route c) = 9 \<and>
      metric example_engine c = 15)"
proof -
  let ?r = "zero_route\<lparr>r_prefix := net4 2, r_router := 9, r_link := 1, r_metric := 15\<rparr>"
  have "?r \<in> set (e_routes (select_routes example_engine))" "\<not> r_unreachable ?r" "\<not> r_local ?r"
    by (simp_all add: example_selected zero_route_def)
  from select_routes_optimal [OF example_engine_ok example_selected(1) this]
  obtain c where c: "c \<in> set (e_candidates example_engine)" "eligible example_engine c"
      "?r = (c_route c)\<lparr>r_metric := metric example_engine c\<rparr>" by blast
  have "r_router (c_route c) = 9" "metric example_engine c = 15"
    using arg_cong [OF c(3), of r_router] arg_cong [OF c(3), of r_metric] by simp_all
  with c(1,2) example_engine_ok(1) example_selected(1) show ?thesis by blast
qed

text \<open>C7: selection misses nothing: every local origin is in the table as itself, and every prefix
  that an eligible candidate offers has a reachable route at least as good as that candidate.\<close>

theorem select_routes_complete:
  assumes "selection_ok e" "\<not> e_stopped e" "\<not> e_stopped (select_routes e)"
  shows "(\<forall>l \<in> set (e_local e). lo_used l \<longrightarrow> local_route e l \<in> set (e_routes (select_routes e))) \<and>
    (\<forall>c \<in> set (e_candidates e). eligible e c \<longrightarrow>
      (\<exists>r \<in> set (e_routes (select_routes e)). r_prefix r = r_prefix (c_route c) \<and>
         \<not> r_unreachable r \<and> r_metric r \<le> metric e c))"
proof -
  obtain rs where sel: "selection_of e rs (e_routes (select_routes e))"
    by (rule select_routes_selection [OF assms])
  have wf: "prefixes_ok e" using assms(1) by (simp add: selection_ok_def)
  have reach: "\<not> r_unreachable r" if "r \<in> set rs" for r
    using selection_ofD(1) [OF sel that] wf by (auto simp: prefixes_ok_def eligible_def)
  have "local_route e l \<in> set (e_routes (select_routes e))" if "l \<in> set (e_local e)" "lo_used l" for l
    by (rule selection_ofD(4) [OF sel selection_ofD(2) [OF sel]]) (simp add: origins_def that)
  moreover have "\<exists>r \<in> set (e_routes (select_routes e)). r_prefix r = r_prefix (c_route c) \<and>
      \<not> r_unreachable r \<and> r_metric r \<le> metric e c" if c: "c \<in> set (e_candidates e)" "eligible e c" for c
    using selection_ofD(3) [OF sel c] selection_ofD(4) [OF sel] reach by auto
  ultimately show ?thesis by simp
qed

theorem select_routes_complete_witness:
  "selection_ok example_engine \<and> \<not> e_stopped (select_routes example_engine) \<and>
   (\<exists>r \<in> set (e_routes (select_routes example_engine)). r_prefix r = net4 2 \<and> r_metric r \<le> 50)"
proof -
  let ?c = "example_candidate 8 40"
  have c: "?c \<in> set (e_candidates example_engine)" "eligible example_engine ?c"
      "r_prefix (c_route ?c) = net4 2" "metric example_engine ?c = 50"
    by (simp_all add: eligible_def selection_defs example_engine_defs)
  from select_routes_complete [OF example_engine_ok example_selected(1)] c
  show ?thesis using example_engine_ok(1) example_selected(1) by metis
qed

text \<open>C2: no prefix vanishes silently: a prefix that was reachable, or was still being suppressed,
  is in the new table, and it is marked unreachable exactly when no origin and no eligible candidate
  offers it.\<close>

theorem select_routes_no_silent_loss:
  assumes "selection_ok e" "\<not> e_stopped e" "\<not> e_stopped (select_routes e)"
    and "(\<exists>w \<in> set (e_routes e). \<not> r_unreachable w \<and> r_prefix w = p) \<or> held e p"
  shows "\<exists>r \<in> set (e_routes (select_routes e)). r_prefix r = p \<and>
    (r_unreachable r \<longleftrightarrow> local_for e p = None \<and>
      \<not> (\<exists>c \<in> set (e_candidates e). eligible e c \<and> r_prefix (c_route c) = p))"
proof -
  obtain rs where sel: "selection_of e rs (e_routes (select_routes e))"
    by (rule select_routes_selection [OF assms(1-3)])
  have wf: "prefixes_ok e" using assms(1) by (simp add: selection_ok_def)
  have "p \<in> r_prefix ` set (e_routes (select_routes e))"
    using assms(4) selection_ofD(8) [OF sel, of p] selection_ofD(9) [OF sel] by auto
  then obtain r where r: "r \<in> set (e_routes (select_routes e))" "r_prefix r = p" by blast
  note same = same_prefix_same_route [OF selection_ofD(5) [OF sel] r(1)]
  have "r_unreachable r \<longleftrightarrow> local_for e p = None \<and>
      \<not> (\<exists>c \<in> set (e_candidates e). eligible e c \<and> r_prefix (c_route c) = p)"
    using sel r(1)
  proof (cases rule: selection_cases)
    case (origin l)
    with r(2) show ?thesis by (auto simp: local_for_None)
  next
    case (candidate c)
    with r(2) wf show ?thesis by (auto simp: prefixes_ok_def eligible_def)
  next
    case suppressed
    have "local_for e p = None"
    proof (rule ccontr)
      assume "local_for e p \<noteq> None"
      then obtain l where "l \<in> origins e" "lo_prefix l = p" by (auto simp: local_for_None)
      with selection_ofD(2) [OF sel, of l] same [of "local_route e l"] selection_ofD(4) [OF sel] r(2)
      show False using suppressed(2) by simp
    qed
    moreover have False if c: "c \<in> set (e_candidates e)" "eligible e c" "r_prefix (c_route c) = p" for c
    proof -
      obtain r' where "r' \<in> set rs" "r_prefix r' = p" using selection_ofD(3) [OF sel c(1,2)] c(3) by auto
      with same [of r'] selection_ofD(4) [OF sel, of r'] r(2) suppressed(2) show False by simp
    qed
    ultimately show ?thesis using suppressed(1) by auto
  qed
  with r show ?thesis by (intro bexI [of _ r] conjI)
qed

theorem select_routes_no_silent_loss_witness:
  "selection_ok example_engine \<and> \<not> e_stopped (select_routes example_engine) \<and>
   (\<exists>w \<in> set (e_routes example_engine). \<not> r_unreachable w \<and> r_prefix w = net4 3) \<and>
   (\<exists>r \<in> set (e_routes (select_routes example_engine)). r_prefix r = net4 3 \<and> r_unreachable r)"
proof -
  have old: "\<exists>w \<in> set (e_routes example_engine). \<not> r_unreachable w \<and> r_prefix w = net4 3"
    and none: "local_for example_engine (net4 3) = None"
      "\<not> (\<exists>c \<in> set (e_candidates example_engine). eligible example_engine c \<and> r_prefix (c_route c) = net4 3)"
    by (simp_all add: local_for_def example_engine_defs)
  from select_routes_no_silent_loss [OF example_engine_ok example_selected(1) disjI1 [OF old]] none
  show ?thesis using old example_engine_ok(1) example_selected(1) by blast
qed

text \<open>C8: the table is strictly ascending by prefix, so it holds at most one route for each prefix.\<close>

theorem select_routes_sorted:
  assumes "selection_ok e" "\<not> e_stopped e" "\<not> e_stopped (select_routes e)"
  shows "table_sorted (e_routes (select_routes e)) \<and> distinct (map r_prefix (e_routes (select_routes e)))"
proof -
  have "table_sorted (e_routes (select_routes e))"
    by (rule select_routes_table_sorted [OF assms])
  then show ?thesis by (simp add: table_sorted_distinct)
qed

theorem select_routes_sorted_witness:
  "selection_ok example_engine \<and> \<not> e_stopped (select_routes example_engine) \<and>
   table_sorted (e_routes (select_routes example_engine)) \<and>
   map r_prefix (e_routes (select_routes example_engine)) = [net4 1, net4 2, net4 3]"
proof -
  have "map r_prefix (e_routes (select_routes example_engine)) = [net4 1, net4 2, net4 3]"
    by (simp add: example_selected)
  with select_routes_sorted [OF example_engine_ok example_selected(1)] show ?thesis
    using example_engine_ok(1) example_selected(1) by blast
qed

end
