(* ===== verification/Babel_Feasible.thy ===== *)
theory Babel_Feasible
  imports Babel_Selection
begin

text \<open>
  The feasibility history (\<open>advertise\<close> in \<open>engine.c\<close>): the distance recorded for a source never
  gets worse, no update leaves the engine that beats it, and recording the selected route does not
  make that route infeasible. These are the facts Babel's freedom from loops rests on.
\<close>

section \<open>Distances\<close>

text \<open>
  The distance \<open>(seqno, metric)\<close> of \<open>a\<close> beats that of \<open>b\<close>: a newer sequence number, or the same one
  with a smaller metric. \<open>feasible\<close> and \<open>refresh_source\<close> both compare this way.
\<close>

definition beats :: "u16 \<Rightarrow> u16 \<Rightarrow> wb_source \<Rightarrow> bool" where
  "beats seq m s \<longleftrightarrow> newer seq (s_seqno s) \<or> (seq = s_seqno s \<and> m < s_metric s)"

definition no_worse :: "wb_source \<Rightarrow> wb_source \<Rightarrow> bool" where
  "no_worse s' s \<longleftrightarrow> s' = s \<or> (s_used s' \<and> s_prefix s' = s_prefix s \<and> s_router s' = s_router s \<and>
     (beats (s_seqno s') (s_metric s') s \<or> (s_seqno s' = s_seqno s \<and> s_metric s' = s_metric s)))"

lemma no_worse_refl [simp]: "no_worse s s"
  by (simp add: no_worse_def)

lemma not_beats_self: "\<not> beats (s_seqno s) (s_metric s) s"
  by (simp add: beats_def)

definition refreshed :: "wb_engine \<Rightarrow> wb_route \<Rightarrow> wb_source \<Rightarrow> wb_source" where
  "refreshed e r s =
     (if beats (r_seqno r) (r_metric r) s then s\<lparr>s_seqno := r_seqno r, s_metric := r_metric r\<rparr> else s)
     \<lparr>s_expires := e_now e + ucast (cfg_source_ms (e_config e))\<rparr>"

lemma refresh_source_eq: "refresh_source e i r = e\<lparr>e_sources := (e_sources e)[i := refreshed e r (e_sources e ! i)]\<rparr>"
  by (simp add: refresh_source_def refreshed_def beats_def Let_def)

lemma refreshed_simps [simp]:
  "s_used (refreshed e r s) = s_used s" "s_prefix (refreshed e r s) = s_prefix s"
  "s_router (refreshed e r s) = s_router s"
  by (simp_all add: refreshed_def)

lemma refreshed_no_worse: "s_used s \<Longrightarrow> no_worse (refreshed e r s) s"
  by (simp add: refreshed_def no_worse_def beats_def)

lemma refreshed_not_beaten: "\<not> beats (r_seqno r) (r_metric r) (refreshed e r s)"
  by (auto simp: refreshed_def beats_def)

section \<open>Recording a distance\<close>

lemma source_forD:
  "source_for e p router = Some i \<Longrightarrow> i < length (e_sources e) \<and> s_used (e_sources e ! i) \<and>
     s_prefix (e_sources e ! i) = p \<and> s_router (e_sources e ! i) = router"
  unfolding source_for_def by (drule find_slot_SomeD) simp

lemma find_slot_put:
  assumes "i < length xs" "P x" "\<And>j. j < i \<Longrightarrow> \<not> P (xs ! j)"
  shows "find_slot P (xs[i := x]) = Some i"
  using assms
proof (induction xs arbitrary: i)
  case (Cons y ys)
  show ?case
  proof (cases i)
    case (Suc j)
    have "\<not> P y" using Cons.prems(3) [of 0] Suc by simp
    moreover have "find_slot P (ys[j := x]) = Some j"
    proof (rule Cons.IH)
      show "\<not> P (ys ! k)" if "k < j" for k using Cons.prems(3) [of "Suc k"] that Suc by simp
    qed (use Cons.prems Suc in simp_all)
    ultimately show ?thesis using Suc by simp
  qed (use Cons.prems in simp)
qed simp

lemma record_source_spec:
  assumes "record_source e p r = (True, e')" and "storage_ok e"
  obtains (known) i where "source_for e p (r_router r) = Some i"
      "e_sources e' = (e_sources e)[i := refreshed e r (e_sources e ! i)]"
      "source_for e' p (r_router r) = Some i"
  | (fresh) i m where "source_for e p (r_router r) = None" "i < length (e_sources e')"
      "\<not> s_used ((e_sources e @ replicate m zero_source) ! i)"
      "e_sources e' = (e_sources e @ replicate m zero_source)[i := refreshed e r (new_source p r)]"
      "source_for e' p (r_router r) = Some i"
proof (cases "source_for e p (r_router r)")
  case (Some i)
  then have e': "e_sources e' = (e_sources e)[i := refreshed e r (e_sources e ! i)]"
    using assms(1) by (auto simp: record_source_def refresh_source_eq)
  note i = find_slot_SomeD [OF Some [unfolded source_for_def]]
  have "source_for e' p (r_router r) = Some i"
    unfolding source_for_def e' using i by (intro find_slot_put) auto
  with Some e' show ?thesis by (rule known)
next
  case None
  obtain res e1 where c: "claim_slot (\<lambda>s. \<not> s_used s) e_sources wb_reserve_sources e = (res, e1)"
    by fastforce
  obtain i where i: "res = Some i"
      "e' = refresh_source (e1\<lparr>e_sources := (e_sources e1)[i := new_source p r]\<rparr>) i r"
    using assms(1) c unfolding record_source_def None by (cases res) auto
  obtain m where m: "e_sources e1 = e_sources e @ replicate m zero_source"
      "i < length (e_sources e1)" "\<not> s_used (e_sources e1 ! i)" "sel_core e1 = sel_core e"
    by (rule sources_table.claim_spec [OF c assms(2)])
      (use i(1) in \<open>auto simp: zero_source_def sel_core_def rebook_def\<close>)
  have "refreshed e1 r s = refreshed e r s" for s
    using sel_coreD(1,2) [OF m(4)] by (simp add: refreshed_def)
  then have e': "e_sources e' = (e_sources e @ replicate m zero_source)[i := refreshed e r (new_source p r)]"
    using i(2) m by (simp add: refresh_source_eq refreshed_def)
  have none: "\<not> (s_used s \<and> s_router s = r_router r \<and> wb_prefix_equal (s_prefix s) p)"
    if "s \<in> set (e_sources e @ replicate m zero_source)" for s
    using that None by (auto simp: source_for_def zero_source_def)
  have "source_for e' p (r_router r) = Some i"
    unfolding source_for_def e'
  proof (rule find_slot_put)
    show i: "i < length (e_sources e @ replicate m zero_source)" using m(1,2) by simp
    fix j assume "j < i"
    with i show "\<not> (s_used ((e_sources e @ replicate m zero_source) ! j) \<and>
        s_router ((e_sources e @ replicate m zero_source) ! j) = r_router r \<and>
        wb_prefix_equal (s_prefix ((e_sources e @ replicate m zero_source) ! j)) p)"
      by (intro none nth_mem) simp
  qed (simp add: new_source_def)
  from fresh [OF None _ _ e' this] m e' show ?thesis by simp
qed

lemma record_source_monotone:
  assumes "record_source e p r = (ok, e')" and "storage_ok e" and "j < length (e_sources e)"
    and "s_used (e_sources e ! j)"
  shows "no_worse (e_sources e' ! j) (e_sources e ! j) \<and> j < length (e_sources e')"
proof (cases ok)
  case True
  with assms(1) have "record_source e p r = (True, e')" by simp
  from this assms(2) show ?thesis
  proof (cases rule: record_source_spec)
    case (known i)
    with assms(3,4) show ?thesis
      by (cases "i = j") (simp_all add: refreshed_no_worse)
  next
    case (fresh i m)
    then have "i \<noteq> j" using assms(3,4) by (auto simp: nth_append)
    with fresh assms(3) show ?thesis by (simp add: nth_append)
  qed
next
  case False
  show ?thesis
  proof (cases "source_for e p (r_router r)")
    case (Some i)
    with assms(1) False show ?thesis by (simp add: record_source_def)
  next
    case None
    obtain res e1 where c: "claim_slot (\<lambda>s. \<not> s_used s) e_sources wb_reserve_sources e = (res, e1)"
      by fastforce
    with assms(1) False have "e' = count_rejected e1"
      unfolding record_source_def None by (auto split: option.splits)
    then have src: "e_sources e' = e_sources e1" by (simp add: count_rejected_def)
    show ?thesis
      by (rule sources_table.claim_spec [OF c assms(2)])
        (use assms(3) in \<open>auto simp: src zero_source_def nth_append\<close>)
  qed
qed

lemma record_source_not_beaten:
  assumes "record_source e p r = (True, e')" and "storage_ok e"
  obtains i where "source_for e' p (r_router r) = Some i" "i < length (e_sources e')"
    "\<not> beats (r_seqno r) (r_metric r) (e_sources e' ! i)"
  using assms
proof (cases rule: record_source_spec)
  case (known i)
  with that source_forD [OF known(3)] show ?thesis by (simp add: refreshed_not_beaten)
next
  case (fresh i m)
  with that source_forD [OF fresh(5)] show ?thesis by (simp add: refreshed_not_beaten)
qed

lemma cost_pos: "0 < cost_at l now"
  by (auto simp: cost_at_def word_gt_0 split: option.split)

lemma metric_exceeds: "metric e c \<noteq> WB_INFINITY \<Longrightarrow> c_advertised c < metric e c"
proof -
  assume fin: "metric e c \<noteq> WB_INFINITY"
  let ?k = "cost_at (link_at e (r_link (c_route c))) (e_now e)"
  from fin have m: "metric e c = add_cost (c_advertised c) ?k" by (auto simp: metric_def cost_def)
  have "unat (metric e c) \<noteq> unat WB_INFINITY"
    using fin by (simp only: word_unat_eq_iff [symmetric] not_False_eq_True)
  moreover have "0 < unat ?k" using cost_pos by (simp add: word_less_nat_alt)
  ultimately show ?thesis unfolding m by (simp add: word_less_nat_alt unat_add_cost)
qed

lemma advertise_message_fields:
  "advertise_message e l p r = Some m \<Longrightarrow>
     m_router m = r_router r \<and> m_seqno m = r_seqno r \<and> m_metric m = r_metric r"
  by (auto simp: advertise_message_def Let_def split: if_splits)

lemma beats_feasible:
  "source_for e (r_prefix (c_route c)) (r_router (c_route c)) = Some i \<Longrightarrow>
     feasible e c \<longleftrightarrow> c_advertised c = WB_INFINITY \<or> beats (r_seqno (c_route c)) (c_advertised c) (e_sources e ! i)"
  by (simp add: feasible_def beats_def Let_def)

section \<open>Properties\<close>

text \<open>C3: advertising a prefix never worsens a recorded distance, and a finite update is queued only
  once the history holds a distance for its source that the update does not beat.\<close>

theorem advertise_distance:
  assumes "storage_ok e"
  shows "(\<forall>j < length (e_sources e). s_used (e_sources e ! j) \<longrightarrow>
      no_worse (e_sources (advertise e i p explicit) ! j) (e_sources e ! j)) \<and>
    (\<forall>m. e_messages (advertise e i p explicit) = e_messages e @ [\<lparr>qd_message = m, qd_link = i\<rparr>] \<longrightarrow>
      m_metric m \<noteq> WB_INFINITY \<longrightarrow>
      (\<exists>k < length (e_sources (advertise e i p explicit)).
        source_for (advertise e i p explicit) p (m_router m) = Some k \<and>
        \<not> beats (m_seqno m) (m_metric m) (e_sources (advertise e i p explicit) ! k)))"
proof (cases rule: advertise_cases [of e i p explicit])
  case same
  then show ?thesis by simp
next
  case lost
  have "m_metric (unreachable_update e p) = WB_INFINITY" by (simp add: unreachable_update_def)
  with lost queue_messages [of e i "unreachable_update e p"] show ?thesis by auto
next
  case (full ri e')
  with record_source_monotone [OF full(2) assms] record_source_frame(2) [OF full(2)] show ?thesis by simp
next
  case (told li ri m e')
  note fields = advertise_message_fields [OF told(4)]
  obtain k where k: "source_for e' p (m_router m) = Some k" "k < length (e_sources e')"
      "\<not> beats (m_seqno m) (m_metric m) (e_sources e' ! k)"
    by (rule record_source_not_beaten [OF told(5) assms]) (simp add: fields)
  have src: "source_for (queue e' i m) p router = source_for e' p router" for router
    by (simp add: source_for_def)
  have msgs: "m' = m"
    if "e_messages (queue e' i m) = e_messages e @ [\<lparr>qd_message = m', qd_link = i\<rparr>]" for m'
    using that queue_messages [of e' i m] record_source_frame(2) [OF told(5)] by auto
  show ?thesis
    using record_source_monotone [OF told(5) assms] k msgs by (auto simp: told(6) src)
qed

text \<open>C4: recording the route a candidate was selected with keeps that candidate feasible.\<close>

theorem selected_stays_feasible:
  assumes "storage_ok e" "eligible e c"
    and "record_source e (r_prefix (c_route c)) ((c_route c)\<lparr>r_metric := metric e c\<rparr>) = (True, e')"
  shows "feasible e' c"
proof -
  let ?r = "(c_route c)\<lparr>r_metric := metric e c\<rparr>"
  have lt: "c_advertised c < metric e c" and feas: "feasible e c"
    using assms(2) by (auto simp: eligible_def intro: metric_exceeds)
  from assms(3,1) show ?thesis
  proof (cases rule: record_source_spec)
    case (known i)
    have "unat (metric e c) < 2 ^ 16" using unsigned_less [of "metric e c"] by simp
    with lt have "c_advertised c \<noteq> WB_INFINITY" by (auto simp: word_less_nat_alt)
    with feas known(1) have "beats (r_seqno (c_route c)) (c_advertised c) (e_sources e ! i)"
      by (simp add: beats_feasible)
    then show ?thesis using lt known source_forD [of e "r_prefix (c_route c)" "r_router (c_route c)" i]
      by (auto simp: beats_feasible refreshed_def beats_def)
  next
    case (fresh i m)
    then show ?thesis using lt by (auto simp: beats_feasible refreshed_def beats_def new_source_def)
  qed
qed

text \<open>
  The witnesses use the example engine with a recorded distance of 20 for the route it still holds
  to \<open>10.3.0.0/16\<close> at metric 12, and one of 20 for its second candidate, which has metric 15.
\<close>

definition example_history :: wb_engine where
  "example_history = example_engine\<lparr>e_sources :=
       [zero_source\<lparr>s_prefix := net4 3, s_router := 9, s_metric := 20, s_used := True\<rparr>,
        zero_source\<lparr>s_prefix := net4 2, s_router := 9, s_metric := 20, s_used := True\<rparr>],
     e_messages_capacity := 1, e_allocated_bytes := 1048, e_peak_bytes := 1048,
     e_heap := \<lparr>h_calls = 0, h_blocks = {#152, 160, 24, 32, 256, 256, 96, 72#}\<rparr>\<rparr>"

lemma example_history_ok: "storage_ok example_history"
  by (simp add: example_history_def storage_defs example_engine_defs block_of_def)

definition example_update :: wb_message where
  "example_update = (unreachable_update example_history (net4 3))\<lparr>m_router := 9, m_metric := 12,
     m_address_family := 4, m_address := [10, 0, 0, 1] @ zeros 12\<rparr>"

theorem advertise_distance_witness:
  "storage_ok example_history \<and>
   no_worse (e_sources (advertise example_history 1 (net4 3) True) ! 0) (e_sources example_history ! 0) \<and>
   (\<exists>k < length (e_sources (advertise example_history 1 (net4 3) True)).
      source_for (advertise example_history 1 (net4 3) True) (net4 3) 9 = Some k \<and>
      \<not> beats 0 12 (e_sources (advertise example_history 1 (net4 3) True) ! k))"
proof -
  have src: "0 < length (e_sources example_history)" "s_used (e_sources example_history ! 0)"
    by (simp_all add: example_history_def)
  have msg: "e_messages (advertise example_history 1 (net4 3) True) =
      e_messages example_history @ [\<lparr>qd_message = example_update, qd_link = 1\<rparr>]"
    by (simp add: advertise_def advertise_message_def record_source_def refresh_source_def queue_def
        wb_reserve_messages_def example_update_def example_history_def unreachable_update_def message_def
        zero_bytes_def memcpy_at_def zeros_def selection_defs example_engine_defs)
  have upd: "m_metric example_update = 12" "m_seqno example_update = 0" "m_router example_update = 9"
    by (simp_all add: example_update_def unreachable_update_def message_def)
  note all = advertise_distance [OF example_history_ok, of 1 "net4 3" True]
  have "no_worse (e_sources (advertise example_history 1 (net4 3) True) ! 0) (e_sources example_history ! 0)"
    using all src by blast
  moreover have "m_metric example_update \<noteq> WB_INFINITY" by (simp add: upd)
  with all msg have "\<exists>k < length (e_sources (advertise example_history 1 (net4 3) True)).
      source_for (advertise example_history 1 (net4 3) True) (net4 3) (m_router example_update) = Some k \<and>
      \<not> beats (m_seqno example_update) (m_metric example_update)
        (e_sources (advertise example_history 1 (net4 3) True) ! k)" by blast
  ultimately show ?thesis using example_history_ok unfolding upd by blast
qed

theorem selected_stays_feasible_witness:
  "\<exists>e'. record_source example_history (net4 2) ((c_route (example_candidate 9 5))\<lparr>r_metric := 15\<rparr>) = (True, e') \<and>
     eligible example_history (example_candidate 9 5) \<and> feasible e' (example_candidate 9 5)"
proof -
  let ?c = "example_candidate 9 5"
  have m: "metric example_history ?c = 15" and el: "eligible example_history ?c"
    and p: "r_prefix (c_route ?c) = net4 2"
    by (simp_all add: eligible_def example_history_def selection_defs example_engine_defs)
  obtain e' where "record_source example_history (net4 2) ((c_route ?c)\<lparr>r_metric := 15\<rparr>) = (True, e')"
    by (simp add: record_source_def example_history_def selection_defs example_engine_defs)
  then show ?thesis
    using selected_stays_feasible [OF example_history_ok el, unfolded m p] el by blast
qed

end
