(* ===== verification/Gossip.thy ===== *)
theory Gossip
  imports Wendy_Prelude
begin

text \<open>
  The gossip pool of \<open>components/wendy_net_gossip/src/gossip.c\<close>: a bounded, shared store of signed
  artifacts (objects) with the downloads (fetches) and uploads (transfers) of every open session.

  Correspondence. A linked list is a list in the same order. A \<open>wg_object *\<close> that outlives a call
  (in a transfer or in \<open>accepted\<close>) is the object's \<open>born\<close> number, which \<open>offer\<close> takes from a
  counter and never changes; a \<open>wg_fetch *\<close> lives only during a call and is a position in the pending
  list. A payload buffer is its contents, \<open>NULL\<close> is \<^const>\<open>None\<close>, and \<open>o->size\<close> is the length of the
  payload. Callers pass non-null pointers. Clocks and counters are 64-bit words.

  The adapter's functions in \<open>struct wg_config\<close> are parameters: \<open>identify\<close> gives the digest or fails,
  the predicates are optional. \<open>evicted\<close>, \<open>retain\<close>, \<open>release\<close> and \<open>free\<close> have no result, and the
  log records their calls. Allocation asks an oracle, by call number and size. \<open>emit\<close> is a function
  of the message, which is general because no two messages of one call are equal. \<open>complete\<close> may
  call \<open>wg_offer\<close> any number of times before it returns, and is a tree of such calls.
\<close>

section \<open>Data\<close>

definition WG_CHUNK :: nat where "WG_CHUNK = 1024"
definition WG_OBJECT_MAX :: nat where "WG_OBJECT_MAX = 40 * 1024"
definition WG_IDLE_MS :: u64 where "WG_IDLE_MS = 30000"
definition WG_HINT_MS :: u64 where "WG_HINT_MS = 120000"
definition WG_DEFER :: int where "WG_DEFER = 2"
definition WG_RESUME_MISSING :: int where "WG_RESUME_MISSING = 3"

text \<open>The values of \<open>enum wg_op\<close>; a message from a later protocol carries another number.\<close>

datatype wg_op = WG_HAVE | WG_WANT | WG_UNAVAILABLE | WG_DATA | WG_GONE | WG_OTHER nat

record wg_id =
  i_type :: u8
  i_hash :: bytes

record wg_message =
  gm_id :: wg_id
  gm_op :: wg_op
  gm_request :: u64
  gm_offset :: nat
  gm_total :: nat
  gm_data :: "bytes option"
  gm_size :: nat

record wg_config =
  wc_identify :: "u8 \<Rightarrow> bytes \<Rightarrow> bytes option"
  wc_objects :: nat
  wc_pending :: nat
  wc_bytes :: nat
  wc_route_pending_reserve :: nat
  wc_want_object :: "(wg_id \<Rightarrow> u64 \<Rightarrow> bool) option"
  wc_downloads :: nat
  wc_uploads :: nat
  wc_route_download_reserve :: nat
  wc_fifo :: bool
  wc_type_bytes :: "nat list"
  wc_reserve_objects :: nat
  wc_critical_object :: "(wg_id \<Rightarrow> bool) option"
  wc_known_object :: "(wg_id \<Rightarrow> bool) option"
  wc_protected_object :: "(wg_id \<Rightarrow> bool) option"
  wc_evicted :: bool
  wc_allocate :: "nat \<Rightarrow> nat \<Rightarrow> bool"
  wc_sizeof_object :: nat
  wc_sizeof_fetch :: nat
  wc_sizeof_supplier :: nat
  wc_sizeof_transfer :: nat
  wc_sizeof_pool :: nat

record wg_object =
  o_id :: wg_id
  o_expires :: u64
  o_born :: u64
  o_withdrawal :: u64
  o_data :: "bytes option"
  o_refs :: nat
  o_critical :: bool
  o_release :: bool

record supplier =
  su_owner :: u64
  su_until :: u64

record wg_fetch =
  f_id :: wg_id
  f_suppliers :: "supplier list"
  f_accepted :: "u64 option"
  f_owner :: u64
  f_request :: u64
  f_progress :: u64
  f_avoid :: u64
  f_data :: "bytes option"
  f_size :: nat
  f_total :: nat

record wg_transfer =
  t_object :: u64
  t_request :: u64
  t_offset :: nat

datatype wg_event = Evicted wg_id bytes | Retained bytes | Released bytes | Freed bytes

record wg_pool =
  g_config :: wg_config
  g_objects :: "wg_object list"
  g_pending :: "wg_fetch list"
  g_delivering :: "wg_fetch option"
  g_next_owner :: u64
  g_next_request :: u64
  g_object_count :: nat
  g_pending_count :: nat
  g_payload_bytes :: nat
  g_metadata_bytes :: nat
  g_serving :: nat
  g_type_payload :: "nat list"
  g_next_object :: u64
  g_withdrawal :: u64
  g_allocs :: nat
  g_log :: "wg_event list"

record wg_session =
  ss_open :: bool
  ss_out :: "wg_transfer list"
  ss_owner :: u64
  ss_type :: u8
  ss_serving :: nat
  ss_withdrawal :: u64

section \<open>Payloads, metadata and fetches\<close>

definition same :: "wg_id \<Rightarrow> wg_id \<Rightarrow> bool" where
  "same a b \<longleftrightarrow> i_type a = i_type b \<and> i_hash a = i_hash b"

definition slot :: "wg_id \<Rightarrow> nat" where
  "slot i = unat (i_type i) - 1"

definition o_size :: "wg_object \<Rightarrow> nat" where
  "o_size ob = (case o_data ob of None \<Rightarrow> 0 | Some d \<Rightarrow> length d)"

definition log_event :: "wg_pool \<Rightarrow> wg_event \<Rightarrow> wg_pool" where
  "log_event p ev = p\<lparr>g_log := g_log p @ [ev]\<rparr>"

definition release_payload :: "wg_pool \<Rightarrow> wg_object \<Rightarrow> wg_pool" where
  "release_payload p ob =
     (case o_data ob of None \<Rightarrow> p
      | Some d \<Rightarrow> log_event p (if o_release ob then Released d else Freed d))"

definition uncharge :: "wg_pool \<Rightarrow> wg_id \<Rightarrow> nat \<Rightarrow> wg_pool" where
  "uncharge p i n = p\<lparr>g_payload_bytes := g_payload_bytes p - n,
     g_type_payload := (g_type_payload p)[slot i := g_type_payload p ! slot i - n]\<rparr>"

definition charge :: "wg_pool \<Rightarrow> wg_id \<Rightarrow> nat \<Rightarrow> wg_pool" where
  "charge p i n = p\<lparr>g_payload_bytes := g_payload_bytes p + n,
     g_type_payload := (g_type_payload p)[slot i := g_type_payload p ! slot i + n]\<rparr>"

definition drop_payload :: "wg_pool \<Rightarrow> wg_object \<Rightarrow> nat \<times> wg_pool \<times> wg_object" where
  "drop_payload p ob =
     (case o_data ob of
        None \<Rightarrow> (0, p, ob)
      | Some d \<Rightarrow>
          let p = (if wc_evicted (g_config p) then log_event p (Evicted (o_id ob) d) else p);
              p = uncharge p (o_id ob) (length d);
              p = release_payload p ob
          in (length d, p, ob\<lparr>o_data := None, o_release := False\<rparr>))"

definition meta :: "wg_pool \<Rightarrow> nat \<Rightarrow> bool \<times> wg_pool" where
  "meta p n =
     (let ok = wc_allocate (g_config p) (g_allocs p) n;
          p = p\<lparr>g_allocs := Suc (g_allocs p)\<rparr>
      in (ok, if ok then p\<lparr>g_metadata_bytes := g_metadata_bytes p + n\<rparr> else p))"

definition unmeta :: "wg_pool \<Rightarrow> nat \<Rightarrow> wg_pool" where
  "unmeta p n = p\<lparr>g_metadata_bytes := g_metadata_bytes p - n\<rparr>"

text \<open>Freeing the receive buffer of a fetch, as \<open>drop_fetch\<close> and \<open>reset_fetch\<close> begin.\<close>

definition free_buffer :: "wg_pool \<Rightarrow> wg_fetch \<Rightarrow> wg_pool" where
  "free_buffer p f =
     (case f_data f of None \<Rightarrow> p | Some d \<Rightarrow> log_event (uncharge p (f_id f) (f_total f)) (Freed d))"

definition free_fetch :: "wg_pool \<Rightarrow> wg_fetch \<Rightarrow> wg_pool" where
  "free_fetch p f =
     (let p = unmeta p (length (f_suppliers f) * wc_sizeof_supplier (g_config p));
          p = free_buffer p f;
          p = unmeta p (wc_sizeof_fetch (g_config p))
      in p\<lparr>g_pending_count := g_pending_count p - 1\<rparr>)"

definition drop_fetch :: "wg_pool \<Rightarrow> nat \<Rightarrow> wg_pool" where
  "drop_fetch p i =
     (let f = g_pending p ! i
      in free_fetch (p\<lparr>g_pending := take i (g_pending p) @ drop (Suc i) (g_pending p)\<rparr>) f)"

definition reset_fetch :: "wg_pool \<Rightarrow> wg_fetch \<Rightarrow> wg_pool \<times> wg_fetch" where
  "reset_fetch p f =
     (free_buffer p f,
      f\<lparr>f_data := None, f_size := 0, f_total := 0, f_avoid := f_owner f, f_owner := 0\<rparr>)"

definition drop_suppliers :: "(supplier \<Rightarrow> bool) \<Rightarrow> wg_pool \<Rightarrow> wg_fetch \<Rightarrow> wg_pool \<times> wg_fetch" where
  "drop_suppliers gone p f =
     (unmeta p (length (filter gone (f_suppliers f)) * wc_sizeof_supplier (g_config p)),
      f\<lparr>f_suppliers := filter (\<lambda>q. \<not> gone q) (f_suppliers f)\<rparr>)"

definition withdraw_owner :: "u64 \<Rightarrow> wg_pool \<Rightarrow> wg_fetch \<Rightarrow> wg_pool \<times> wg_fetch" where
  "withdraw_owner owner p f =
     (let (p, f) = (if f_owner f = owner then reset_fetch p f else (p, f))
      in drop_suppliers (\<lambda>q. su_owner q = owner) p f)"

definition drop_supplier :: "wg_pool \<Rightarrow> nat \<Rightarrow> u64 \<Rightarrow> wg_pool" where
  "drop_supplier p i owner =
     (let (p, f) = withdraw_owner owner p (g_pending p ! i);
          p = p\<lparr>g_pending := (g_pending p)[i := f]\<rparr>
      in if f_suppliers f = [] then drop_fetch p i else p)"

definition find_object :: "wg_pool \<Rightarrow> wg_id \<Rightarrow> wg_object option" where
  "find_object p i = find (\<lambda>ob. same (o_id ob) i) (g_objects p)"

definition find_fetch :: "wg_pool \<Rightarrow> wg_id \<Rightarrow> nat option" where
  "find_fetch p i = find_slot (\<lambda>f. same (f_id f) i) (g_pending p)"

text \<open>An object reached through a pointer, and writing back what was changed through it.\<close>

definition object_at :: "wg_pool \<Rightarrow> u64 \<Rightarrow> wg_object option" where
  "object_at p b = find (\<lambda>ob. o_born ob = b) (g_objects p)"

definition put_object :: "wg_pool \<Rightarrow> wg_object \<Rightarrow> wg_pool" where
  "put_object p ob = p\<lparr>g_objects := map (\<lambda>x. if o_born x = o_born ob then ob else x) (g_objects p)\<rparr>"

definition remove_object :: "wg_pool \<Rightarrow> wg_object \<Rightarrow> wg_pool" where
  "remove_object p ob =
     (let p = unmeta (p\<lparr>g_objects := filter (\<lambda>x. o_born x \<noteq> o_born ob) (g_objects p)\<rparr>)
                (wc_sizeof_object (g_config p))
      in p\<lparr>g_object_count := g_object_count p - 1\<rparr>)"

definition forget :: "wg_pool \<Rightarrow> wg_id \<Rightarrow> bool \<Rightarrow> wg_pool" where
  "forget p i keep_retired =
     (case find_object p i of
        None \<Rightarrow> p
      | Some ob \<Rightarrow>
          if keep_retired \<and> wc_fifo (g_config p) \<and> o_data ob = None then p
          else
            let (n, p, ob) = drop_payload p (ob\<lparr>o_expires := 0\<rparr>);
                p = put_object p ob
            in if o_refs ob = 0 then remove_object p ob else p)"

definition wg_forget :: "wg_pool \<Rightarrow> wg_id \<Rightarrow> wg_pool" where
  "wg_forget p i = forget p i True"

definition wg_expire :: "wg_pool \<Rightarrow> wg_id \<Rightarrow> wg_pool" where
  "wg_expire p i = forget p i False"

section \<open>Pools and sessions\<close>

definition wg_init :: "wg_config \<Rightarrow> wg_pool option" where
  "wg_init c =
     (if wc_objects c = 0 \<or> wc_pending c = 0 \<or> wc_bytes c = 0 \<or>
         wc_objects c \<le> wc_reserve_objects c \<or> wc_pending c \<le> wc_route_pending_reserve c \<or>
         (if wc_downloads c \<noteq> 0 then wc_downloads c else 16) \<le> wc_route_download_reserve c
      then None
      else Some \<lparr>g_config = c, g_objects = [], g_pending = [], g_delivering = None,
                 g_next_owner = 0, g_next_request = 0, g_object_count = 0, g_pending_count = 0,
                 g_payload_bytes = 0, g_metadata_bytes = 0, g_serving = 0, g_type_payload = [0, 0, 0],
                 g_next_object = 0, g_withdrawal = 0, g_allocs = 0, g_log = []\<rparr>)"

text \<open>\<open>wg_deinit\<close> frees everything and clears the pool, unless an upload still uses an object.\<close>

definition deinit_log :: "wg_pool \<Rightarrow> wg_event list" where
  "deinit_log p =
     g_log (fold (\<lambda>f p. free_fetch p f) (g_pending p) (fold (\<lambda>ob p. release_payload p ob) (g_objects p) p))"

definition wg_deinit :: "wg_pool \<Rightarrow> wg_pool option \<times> wg_event list" where
  "wg_deinit p = (if g_serving p \<noteq> 0 then (Some p, g_log p) else (None, deinit_log p))"

definition type_ok :: "u8 \<Rightarrow> bool" where
  "type_ok t \<longleftrightarrow> t = 1 \<or> t = 2 \<or> t = 3"

definition wg_open :: "wg_pool \<Rightarrow> u8 \<Rightarrow> (wg_pool \<times> wg_session) option" where
  "wg_open p t =
     (if \<not> type_ok t \<or> g_next_owner p = UINT64_MAX then None
      else
        let p = p\<lparr>g_next_owner := g_next_owner p + 1\<rparr>
        in Some (p, \<lparr>ss_open = True, ss_out = [], ss_owner = g_next_owner p, ss_type = t,
                     ss_serving = 0, ss_withdrawal = g_withdrawal p\<rparr>))"

definition unref :: "wg_pool \<Rightarrow> u64 \<Rightarrow> wg_pool" where
  "unref p b = p\<lparr>g_objects := map (\<lambda>x. if o_born x = b then x\<lparr>o_refs := o_refs x - 1\<rparr> else x) (g_objects p)\<rparr>"

definition end_transfer :: "wg_pool \<Rightarrow> wg_transfer \<Rightarrow> wg_pool" where
  "end_transfer p t =
     (let p = unref p (t_object t);
          p = p\<lparr>g_serving := g_serving p - 1\<rparr>
      in unmeta p (wc_sizeof_transfer (g_config p)))"

text \<open>
  The loop over the pending list that \<open>wg_close\<close> and \<open>wg_prune\<close> share: change each fetch, then drop
  the ones left without a supplier.
\<close>

fun sweep :: "(wg_pool \<Rightarrow> wg_fetch \<Rightarrow> wg_pool \<times> wg_fetch) \<Rightarrow> wg_fetch list \<Rightarrow> wg_pool \<Rightarrow> wg_fetch list \<times> wg_pool" where
  "sweep change [] p = ([], p)"
| "sweep change (f # fs) p =
     (case change p f of
        (p, f) \<Rightarrow>
          if f_suppliers f = [] then sweep change fs (free_fetch p f)
          else case sweep change fs p of (fs, p) \<Rightarrow> (f # fs, p))"

definition sweep_pending :: "(wg_pool \<Rightarrow> wg_fetch \<Rightarrow> wg_pool \<times> wg_fetch) \<Rightarrow> wg_pool \<Rightarrow> wg_pool" where
  "sweep_pending change p = (case sweep change (g_pending p) p of (fs, p) \<Rightarrow> p\<lparr>g_pending := fs\<rparr>)"

definition closed_session :: wg_session where
  "closed_session = \<lparr>ss_open = False, ss_out = [], ss_owner = 0, ss_type = 0, ss_serving = 0,
                     ss_withdrawal = 0\<rparr>"

definition wg_close :: "wg_pool \<Rightarrow> wg_session \<Rightarrow> wg_pool \<times> wg_session" where
  "wg_close p s =
     (if \<not> ss_open s then (p, s)
      else
        let p = fold (\<lambda>t p. end_transfer p t) (ss_out s) p;
            p = sweep_pending (withdraw_owner (ss_owner s)) p
        in (p, closed_session))"

definition wg_discard :: "wg_pool \<Rightarrow> wg_session \<Rightarrow> wg_id \<Rightarrow> wg_pool" where
  "wg_discard p s i =
     (if \<not> ss_open s then p
      else case find_slot (\<lambda>f. same (f_id f) i \<and> f_owner f = ss_owner s) (g_pending p) of
        None \<Rightarrow> p
      | Some k \<Rightarrow> drop_supplier p k (ss_owner s))"

fun known_op :: "wg_op \<Rightarrow> bool" where
  "known_op (WG_OTHER _) = False"
| "known_op _ = True"

definition wg_validate :: "wg_message \<Rightarrow> int" where
  "wg_validate m =
     (if \<not> known_op (gm_op m) then 0
      else if \<not> type_ok (i_type (gm_id m)) then -1
      else if gm_op m = WG_HAVE \<or> gm_op m = WG_GONE then
        (if gm_request m \<noteq> 0 \<or> gm_offset m \<noteq> 0 \<or> gm_total m \<noteq> 0 \<or> gm_size m \<noteq> 0 then -1 else 0)
      else if gm_op m = WG_WANT \<or> gm_op m = WG_UNAVAILABLE then
        (if gm_request m = 0 \<or> gm_offset m \<noteq> 0 \<or> gm_total m \<noteq> 0 \<or> gm_size m \<noteq> 0 then -1 else 0)
      else if gm_op m \<noteq> WG_DATA \<or> gm_request m = 0 \<or> gm_total m = 0 \<or> WG_OBJECT_MAX < gm_total m \<or>
              gm_total m \<le> gm_offset m \<or> gm_offset m mod WG_CHUNK \<noteq> 0 \<or> gm_data m = None then -1
      else
        let n = gm_total m - gm_offset m;
            n = (if WG_CHUNK < n then WG_CHUNK else n)
        in if gm_size m = n then 0 else -1)"

section \<open>Expiry and retirement\<close>

fun prune_objects :: "u64 \<Rightarrow> wg_object list \<Rightarrow> wg_pool \<Rightarrow> wg_object list \<times> wg_pool" where
  "prune_objects now [] p = ([], p)"
| "prune_objects now (ob # obs) p =
     (if o_expires ob \<le> now then
        let borrowed = (case g_delivering p of None \<Rightarrow> False | Some f \<Rightarrow> f_accepted f = Some (o_born ob));
            (p, ob) = (if borrowed then (p, ob) else snd (drop_payload p ob))
        in if o_refs ob = 0 then
             let p = unmeta p (wc_sizeof_object (g_config p))
             in prune_objects now obs (p\<lparr>g_object_count := g_object_count p - 1\<rparr>)
           else case prune_objects now obs p of (obs, p) \<Rightarrow> (ob # obs, p)
      else case prune_objects now obs p of (obs, p) \<Rightarrow> (ob # obs, p))"

definition prune_fetch :: "u64 \<Rightarrow> wg_pool \<Rightarrow> wg_fetch \<Rightarrow> wg_pool \<times> wg_fetch" where
  "prune_fetch now p f =
     (let (p, f) = (if f_owner f \<noteq> 0 \<and> f_progress f \<le> now \<and> WG_IDLE_MS \<le> now - f_progress f
                    then reset_fetch p f else (p, f))
      in drop_suppliers (\<lambda>q. su_until q \<le> now \<and> su_owner q \<noteq> f_owner f) p f)"

definition wg_prune :: "wg_pool \<Rightarrow> u64 \<Rightarrow> wg_pool" where
  "wg_prune p now =
     (case prune_objects now (g_objects p) p of
        (obs, p) \<Rightarrow> sweep_pending (prune_fetch now) (p\<lparr>g_objects := obs\<rparr>))"

definition retirable :: "wg_pool \<Rightarrow> u8 \<Rightarrow> wg_object \<Rightarrow> bool" where
  "retirable p t ob \<longleftrightarrow>
     \<not> (o_data ob = None \<or> o_refs ob \<noteq> 0 \<or> (t \<noteq> 0 \<and> i_type (o_id ob) \<noteq> t) \<or>
        (case wc_protected_object (g_config p) of None \<Rightarrow> False | Some f \<Rightarrow> f (o_id ob)))"

definition older :: "wg_object \<Rightarrow> wg_object option \<Rightarrow> wg_object option" where
  "older ob oldest =
     (case oldest of None \<Rightarrow> Some ob | Some x \<Rightarrow> if o_born ob < o_born x then Some ob else Some x)"

definition oldest_payload :: "wg_pool \<Rightarrow> u8 \<Rightarrow> wg_object option" where
  "oldest_payload p t =
     fold (\<lambda>ob oldest. if \<not> retirable p t ob then oldest else older ob oldest) (g_objects p) None"

definition retire_payload :: "wg_pool \<Rightarrow> wg_object \<Rightarrow> nat \<times> wg_pool" where
  "retire_payload p ob =
     (case drop_payload p ob of
        (n, p, ob) \<Rightarrow>
          let p = p\<lparr>g_withdrawal := g_withdrawal p + 1\<rparr>;
              ob = ob\<lparr>o_withdrawal := g_withdrawal p,
                      o_expires := (if UINT64_MAX - WG_HINT_MS < o_expires ob then UINT64_MAX
                                    else o_expires ob + WG_HINT_MS)\<rparr>
          in (n, put_object p ob))"

definition payload_count :: "wg_pool \<Rightarrow> nat" where
  "payload_count p = length (filter (\<lambda>ob. o_data ob \<noteq> None) (g_objects p))"

text \<open>What dropping a payload does, in one update of the pool.\<close>

definition drop_events :: "wg_pool \<Rightarrow> wg_object \<Rightarrow> bytes \<Rightarrow> wg_event list" where
  "drop_events p ob d =
     (if wc_evicted (g_config p) then [Evicted (o_id ob) d] else []) @
     [if o_release ob then Released d else Freed d]"

lemma drop_payload_Some:
  "o_data ob = Some d \<Longrightarrow> drop_payload p ob =
     (length d, (uncharge p (o_id ob) (length d))\<lparr>g_log := g_log p @ drop_events p ob d\<rparr>,
      ob\<lparr>o_data := None, o_release := False\<rparr>)"
  by (simp add: drop_payload_def Let_def release_payload_def uncharge_def log_event_def drop_events_def)

lemma drop_payload_None: "o_data ob = None \<Longrightarrow> drop_payload p ob = (0, p, ob)"
  by (simp add: drop_payload_def)

lemma oldest_payload_retirable:
  assumes "oldest_payload p t = Some ob"
  shows "ob \<in> set (g_objects p) \<and> retirable p t ob"
proof -
  let ?g = "\<lambda>ob oldest. if \<not> retirable p t ob then oldest else older ob oldest"
  have "(\<forall>x. acc = Some x \<longrightarrow> x \<in> A \<and> retirable p t x) \<Longrightarrow> fold ?g obs acc = Some y \<Longrightarrow>
      y \<in> A \<union> set obs \<and> retirable p t y" for obs acc A y
  proof (induction obs arbitrary: acc A)
    case (Cons x obs)
    have "\<forall>z. ?g x acc = Some z \<longrightarrow> z \<in> insert x A \<and> retirable p t z"
      using Cons.prems(1) by (auto simp: older_def split: option.splits if_splits)
    from Cons.IH [OF this] Cons.prems(2) show ?case by auto
  qed simp
  from this [of None "{}" "g_objects p" ob] assms show ?thesis by (simp add: oldest_payload_def)
qed

lemma retire_payload_count:
  assumes "oldest_payload p t = Some ob"
  shows "payload_count (snd (retire_payload p ob)) < payload_count p"
proof -
  have ob: "ob \<in> set (g_objects p)" "o_data ob \<noteq> None"
    using oldest_payload_retirable [OF assms] by (auto simp: retirable_def)
  then obtain d where d: "o_data ob = Some d" by blast
  define ob' where "ob' = ob\<lparr>o_data := None, o_release := False, o_withdrawal := g_withdrawal p + 1,
    o_expires := (if UINT64_MAX - WG_HINT_MS < o_expires ob then UINT64_MAX else o_expires ob + WG_HINT_MS)\<rparr>"
  have ob': "o_data ob' = None" "o_born ob' = o_born ob" by (simp_all add: ob'_def)
  have objs: "g_objects (snd (retire_payload p ob)) =
      map (\<lambda>x. if o_born x = o_born ob then ob' else x) (g_objects p)"
    by (simp add: retire_payload_def drop_payload_Some [OF d] put_object_def Let_def uncharge_def ob'_def)
  let ?n = "\<lambda>xs. length (filter (\<lambda>ob. o_data ob \<noteq> None) xs)"
  let ?m = "map (\<lambda>x. if o_born x = o_born ob then ob' else x)"
  have le: "?n (?m xs) \<le> ?n xs" for xs
    by (induction xs) (use ob' in auto)
  have "?n (?m xs) < ?n xs" if "ob \<in> set xs" for xs
    using that
  proof (induction xs)
    case (Cons x xs)
    with le [of xs] ob' ob(2) show ?case by (cases "x = ob") (auto simp: less_Suc_eq_le)
  qed simp
  from this [OF ob(1)] show ?thesis unfolding payload_count_def objs .
qed

function reclaim_loop :: "wg_pool \<Rightarrow> nat \<Rightarrow> nat \<Rightarrow> nat \<times> wg_pool" where
  "reclaim_loop p wanted released =
     (if released < wanted \<and> g_withdrawal p \<noteq> UINT64_MAX then
        (case oldest_payload p 0 of
           None \<Rightarrow> (released, p)
         | Some ob \<Rightarrow> reclaim_loop (snd (retire_payload p ob)) wanted (released + fst (retire_payload p ob)))
      else (released, p))"
  by pat_completeness auto
termination
  by (relation "measure (\<lambda>(p, _). payload_count p)") (auto intro: retire_payload_count)

definition wg_reclaim :: "wg_pool \<Rightarrow> nat \<Rightarrow> nat \<times> wg_pool" where
  "wg_reclaim p wanted = (if \<not> wc_fifo (g_config p) then (0, p) else reclaim_loop p wanted 0)"

definition category :: "wg_config \<Rightarrow> u8 \<Rightarrow> nat" where
  "category c t = (let n = wc_type_bytes c ! (unat t - 1) in if n = 0 then wc_bytes c else n)"

text \<open>
  The loop of \<open>room\<close>; \<open>True\<close> when the size now fits. The differences are the C ones: no use exceeds
  its limit, so they do not wrap.
\<close>

function room_loop :: "wg_pool \<Rightarrow> u8 \<Rightarrow> nat \<Rightarrow> bool \<times> wg_pool" where
  "room_loop p t n =
     (let cat = category (g_config p) t;
          same_type = cat - g_type_payload p ! (unat t - 1) < n
      in if wc_bytes (g_config p) - g_payload_bytes p < n \<or> same_type then
           (if \<not> wc_fifo (g_config p) \<or> g_withdrawal p = UINT64_MAX then (False, p)
            else case oldest_payload p (if same_type then t else 0) of
              None \<Rightarrow> (False, p)
            | Some ob \<Rightarrow> room_loop (snd (retire_payload p ob)) t n)
         else (True, p))"
  by pat_completeness auto
termination
  by (relation "measure (\<lambda>(p, _). payload_count p)") (auto intro: retire_payload_count)

declare reclaim_loop.simps [simp del] room_loop.simps [simp del]

definition room :: "wg_pool \<Rightarrow> u8 \<Rightarrow> nat \<Rightarrow> bool \<times> wg_pool" where
  "room p t n =
     (if category (g_config p) t < n \<or> wc_bytes (g_config p) < n then (False, p)
      else room_loop p t n)"

definition object_full :: "wg_pool \<Rightarrow> bool \<Rightarrow> bool" where
  "object_full p critical =
     (if wc_objects (g_config p) \<le> g_object_count p then True
      else if \<not> critical \<and> wc_reserve_objects (g_config p) \<noteq> 0 then
        wc_objects (g_config p) - wc_reserve_objects (g_config p)
          \<le> length (filter (\<lambda>ob. \<not> o_critical ob) (g_objects p))
      else False)"

section \<open>Offers\<close>

text \<open>
  The arguments of \<open>wg_offer\<close> and \<open>wg_offer_shared\<close> (\<open>oa_shared\<close>). \<open>oa_borrowed\<close> says that the bytes
  pointer is the receive buffer of the fetch being delivered.
\<close>

record wg_offering =
  oa_type :: u8
  oa_bytes :: bytes
  oa_borrowed :: bool
  oa_shared :: bool
  oa_expires :: u64
  oa_now :: u64

definition resolve_fetch :: "wg_pool \<Rightarrow> wg_id \<Rightarrow> wg_pool" where
  "resolve_fetch p i = (case find_fetch p i of None \<Rightarrow> p | Some k \<Rightarrow> drop_fetch p k)"

definition critical_for :: "wg_pool \<Rightarrow> wg_id \<Rightarrow> bool" where
  "critical_for p i = (case wc_critical_object (g_config p) of None \<Rightarrow> False | Some f \<Rightarrow> f i)"

definition adopts :: "wg_pool \<Rightarrow> wg_offering \<Rightarrow> wg_id \<Rightarrow> bool" where
  "adopts p a i \<longleftrightarrow> \<not> oa_shared a \<and> oa_borrowed a \<and>
     (case g_delivering p of None \<Rightarrow> False
      | Some f \<Rightarrow> f_data f \<noteq> None \<and> f_size f = length (oa_bytes a) \<and> same (f_id f) i)"

text \<open>A plain \<open>malloc\<close>, which no byte counter records by itself.\<close>

definition alloc :: "wg_pool \<Rightarrow> nat \<Rightarrow> bool \<times> wg_pool" where
  "alloc p n = (wc_allocate (g_config p) (g_allocs p) n, p\<lparr>g_allocs := Suc (g_allocs p)\<rparr>)"

definition new_object :: "wg_pool \<Rightarrow> wg_offering \<Rightarrow> wg_id \<Rightarrow> wg_object" where
  "new_object p a i =
     \<lparr>o_id = i, o_expires = oa_expires a, o_born = g_next_object p + 1, o_withdrawal = 0,
      o_data = Some (oa_bytes a), o_refs = 0, o_critical = critical_for p i, o_release = oa_shared a\<rparr>"

definition link_object :: "wg_pool \<Rightarrow> wg_object \<Rightarrow> wg_pool" where
  "link_object p ob = p\<lparr>g_objects := ob # g_objects p, g_object_count := g_object_count p + 1,
                        g_next_object := g_next_object p + 1\<rparr>"

definition adopt_object :: "wg_pool \<Rightarrow> wg_offering \<Rightarrow> wg_id \<Rightarrow> wg_fetch \<Rightarrow> wg_pool" where
  "adopt_object p a i f =
     (let ob = (new_object p a i)\<lparr>o_data := f_data f, o_refs := 1\<rparr>;
          p = p\<lparr>g_delivering := Some (f\<lparr>f_data := None, f_accepted := Some (o_born ob)\<rparr>)\<rparr>
      in resolve_fetch (link_object p ob) i)"

definition store_object :: "wg_pool \<Rightarrow> wg_offering \<Rightarrow> wg_id \<Rightarrow> bool \<times> wg_pool" where
  "store_object p a i =
     (let (ok, p) = (if oa_shared a then (True, log_event p (Retained (oa_bytes a)))
                     else alloc p (length (oa_bytes a)))
      in if \<not> ok then (False, unmeta p (wc_sizeof_object (g_config p)))
         else (True, resolve_fetch (charge (link_object p (new_object p a i)) i (length (oa_bytes a))) i))"

definition admit_object :: "wg_pool \<Rightarrow> wg_offering \<Rightarrow> wg_id \<Rightarrow> int \<times> wg_pool" where
  "admit_object p a i =
     (case (if adopts p a i then (True, p) else room p (oa_type a) (length (oa_bytes a))) of
        (False, p) \<Rightarrow> (1, p)
      | (True, p) \<Rightarrow> (case meta p (wc_sizeof_object (g_config p)) of
          (False, p) \<Rightarrow> (1, p)
        | (True, p) \<Rightarrow>
            if adopts p a i then
              (case g_delivering p of Some f \<Rightarrow> (0, adopt_object p a i f) | None \<Rightarrow> (1, p))
            else (case store_object p a i of (ok, p) \<Rightarrow> (if ok then 0 else 1, p))))"

definition offer :: "wg_pool \<Rightarrow> wg_offering \<Rightarrow> (int \<times> wg_id option) \<times> wg_pool" where
  "offer p a =
     (if oa_bytes a = [] \<or> WG_OBJECT_MAX < length (oa_bytes a) \<or> oa_expires a \<le> oa_now a \<or>
         \<not> type_ok (oa_type a) then ((-1, None), p)
      else case wc_identify (g_config p) (oa_type a) (oa_bytes a) of
        None \<Rightarrow> ((-1, None), p)
      | Some h \<Rightarrow>
          let i = \<lparr>i_type = oa_type a, i_hash = h\<rparr>;
              p = wg_prune p (oa_now a)
          in case find_object p i of
               Some ob \<Rightarrow>
                 if o_data ob = None then ((2, Some i), p)
                 else
                   let p = (if oa_expires a < o_expires ob then put_object p (ob\<lparr>o_expires := oa_expires a\<rparr>)
                            else p)
                   in ((0, Some i), resolve_fetch p i)
             | None \<Rightarrow>
                 if object_full p (critical_for p i) \<or> g_next_object p = UINT64_MAX then ((1, Some i), p)
                 else case admit_object p a i of (r, p) \<Rightarrow> ((r, Some i), p))"

text \<open>\<open>retain\<close> and \<open>release\<close> say whether the caller passed the two callbacks.\<close>

definition wg_offer :: "wg_pool \<Rightarrow> wg_offering \<Rightarrow> (int \<times> wg_id option) \<times> wg_pool" where
  "wg_offer p a = offer p (a\<lparr>oa_shared := False\<rparr>)"

definition wg_offer_shared :: "wg_pool \<Rightarrow> wg_offering \<Rightarrow> bool \<Rightarrow> bool \<Rightarrow> (int \<times> wg_id option) \<times> wg_pool" where
  "wg_offer_shared p a retain release =
     (if \<not> retain \<or> \<not> release then ((-1, None), p) else offer p (a\<lparr>oa_shared := True\<rparr>))"

section \<open>Downloads\<close>

definition control :: "wg_op \<Rightarrow> wg_id \<Rightarrow> u64 \<Rightarrow> wg_message" where
  "control op i request = \<lparr>gm_id = i, gm_op = op, gm_request = request, gm_offset = 0, gm_total = 0,
                           gm_data = None, gm_size = 0\<rparr>"

definition download_limit :: "wg_config \<Rightarrow> nat" where
  "download_limit c = (if wc_downloads c \<noteq> 0 then wc_downloads c else 16)"

definition upload_limit :: "wg_config \<Rightarrow> nat" where
  "upload_limit c = (if wc_uploads c \<noteq> 0 then wc_uploads c else 16)"

definition downloads_full :: "wg_pool \<Rightarrow> u64 \<Rightarrow> u8 \<Rightarrow> bool" where
  "downloads_full p owner t \<longleftrightarrow>
     4 \<le> length (filter (\<lambda>q. f_owner q = owner) (g_pending p)) \<or>
     download_limit (g_config p) \<le> length (filter (\<lambda>q. f_owner q \<noteq> 0) (g_pending p)) \<or>
     (t \<noteq> 1 \<and> download_limit (g_config p) - wc_route_download_reserve (g_config p)
        \<le> length (filter (\<lambda>q. f_owner q \<noteq> 0 \<and> i_type (f_id q) \<noteq> 1) (g_pending p))) \<or>
     g_next_request p = UINT64_MAX"

definition claimable :: "wg_pool \<Rightarrow> wg_session \<Rightarrow> wg_fetch \<Rightarrow> u64 \<Rightarrow> bool" where
  "claimable p s f now =
     (if f_owner f \<noteq> 0 \<or> i_type (f_id f) \<noteq> ss_type s then False
      else
        let mine = list_ex (\<lambda>q. su_owner q = ss_owner s) (f_suppliers f);
            other = list_ex (\<lambda>q. su_owner q \<noteq> ss_owner s) (f_suppliers f)
        in if \<not> mine \<or> (f_avoid f = ss_owner s \<and> other) then False
           else if (case wc_want_object (g_config p) of None \<Rightarrow> False | Some w \<Rightarrow> \<not> w (f_id f) now) then False
           else if wc_fifo (g_config p) \<and> object_full p (critical_for p (f_id f)) then False
           else \<not> downloads_full p (ss_owner s) (i_type (f_id f)))"

type_synonym wg_emit = "wg_message \<Rightarrow> int"

definition claim :: "wg_session \<Rightarrow> nat \<Rightarrow> u64 \<Rightarrow> wg_emit \<Rightarrow> wg_pool \<Rightarrow> int \<times> wg_message list \<times> wg_pool" where
  "claim s k now emit p =
     (let f = g_pending p ! k
      in if \<not> claimable p s f now then (0, [], p)
         else
           let p = p\<lparr>g_next_request := g_next_request p + 1\<rparr>;
               m = control WG_WANT (f_id f) (g_next_request p);
               sent = emit m
           in if sent \<noteq> 0 then (if sent < 0 then -1 else 1, [], p)
              else (0, [m], p\<lparr>g_pending := (g_pending p)[k :=
                       f\<lparr>f_owner := ss_owner s, f_request := gm_request m, f_progress := now\<rparr>]\<rparr>))"

fun claim_from :: "wg_session \<Rightarrow> nat list \<Rightarrow> u64 \<Rightarrow> wg_emit \<Rightarrow> wg_pool \<Rightarrow> int \<times> wg_message list \<times> wg_pool" where
  "claim_from s [] now emit p = (0, [], p)"
| "claim_from s (k # ks) now emit p =
     (case claim s k now emit p of
        (r, ms, p) \<Rightarrow>
          if r \<noteq> 0 then (r, ms, p)
          else case claim_from s ks now emit p of (r, ms', p) \<Rightarrow> (r, ms @ ms', p))"

definition claim_pending :: "wg_session \<Rightarrow> u64 \<Rightarrow> wg_emit \<Rightarrow> wg_pool \<Rightarrow> int \<times> wg_message list \<times> wg_pool" where
  "claim_pending s now emit p = claim_from s [0..<length (g_pending p)] now emit p"

text \<open>The completion callback: offers, each with its result at hand, and then a verdict.\<close>

datatype wg_action = Verdict int | Offer wg_offering "int \<times> wg_id option \<Rightarrow> wg_action"

primrec run_action :: "wg_action \<Rightarrow> wg_pool \<Rightarrow> int \<times> wg_pool" where
  "run_action (Verdict r) p = (r, p)"
| "run_action (Offer a next) p = (case offer p a of (r, p) \<Rightarrow> run_action (next r) p)"

type_synonym wg_complete = "wg_id \<Rightarrow> bytes \<Rightarrow> wg_action"

definition fetched :: "wg_fetch \<Rightarrow> bytes" where
  "fetched f = (case f_data f of None \<Rightarrow> [] | Some d \<Rightarrow> d)"

definition finish_delivery :: "int \<Rightarrow> wg_fetch \<Rightarrow> wg_pool \<Rightarrow> int \<times> wg_pool" where
  "finish_delivery r f p =
     (let p = p\<lparr>g_delivering := None, g_pending := f # g_pending p\<rparr>
      in case f_accepted f of
           Some b \<Rightarrow> (if r = WG_DEFER then 0 else r, drop_fetch (unref p b) 0)
         | None \<Rightarrow> if r = WG_DEFER then (WG_DEFER, p) else (r, drop_fetch p 0))"

definition deliver :: "wg_pool \<Rightarrow> nat \<Rightarrow> wg_complete \<Rightarrow> int \<times> wg_pool" where
  "deliver p k complete =
     (let f = g_pending p ! k;
          p = p\<lparr>g_pending := take k (g_pending p) @ drop (Suc k) (g_pending p), g_delivering := Some f\<rparr>
      in case run_action (complete (f_id f) (fetched f)) p of
           (r, p) \<Rightarrow> (case g_delivering p of Some f \<Rightarrow> finish_delivery r f p | None \<Rightarrow> (r, p)))"

section \<open>Receiving\<close>

definition new_fetch :: "wg_id \<Rightarrow> wg_fetch" where
  "new_fetch i = \<lparr>f_id = i, f_suppliers = [], f_accepted = None, f_owner = 0, f_request = 0,
                  f_progress = 0, f_avoid = 0, f_data = None, f_size = 0, f_total = 0\<rparr>"

text \<open>A route hint may take the place of an idle service hint.\<close>

definition yield_hint :: "wg_pool \<Rightarrow> wg_pool" where
  "yield_hint p =
     (case find_slot (\<lambda>f. i_type (f_id f) = 2 \<and> f_owner f = 0) (g_pending p) of
        None \<Rightarrow> p | Some k \<Rightarrow> drop_fetch p k)"

definition hint_limit :: "wg_config \<Rightarrow> u8 \<Rightarrow> nat" where
  "hint_limit c t = wc_pending c - (if t = 2 then wc_route_pending_reserve c else 0)"

definition admit_hint :: "wg_pool \<Rightarrow> wg_id \<Rightarrow> nat option \<times> wg_pool" where
  "admit_hint p i =
     (case find_fetch p i of
        Some k \<Rightarrow> (Some k, p)
      | None \<Rightarrow>
          let limit = hint_limit (g_config p) (i_type i);
              p = (if i_type i \<noteq> 2 \<and> wc_route_pending_reserve (g_config p) \<noteq> 0 \<and> limit \<le> g_pending_count p
                   then yield_hint p else p)
          in if limit \<le> g_pending_count p then (None, p)
             else case meta p (wc_sizeof_fetch (g_config p)) of
               (False, p) \<Rightarrow> (None, p)
             | (True, p) \<Rightarrow>
                 (Some (length (g_pending p)),
                  p\<lparr>g_pending := g_pending p @ [new_fetch i], g_pending_count := g_pending_count p + 1\<rparr>))"

definition add_supplier :: "wg_pool \<Rightarrow> nat \<Rightarrow> u64 \<Rightarrow> u64 \<Rightarrow> bool \<times> wg_pool" where
  "add_supplier p k owner until =
     (let f = g_pending p ! k
      in case find_slot (\<lambda>q. su_owner q = owner) (f_suppliers f) of
           Some j \<Rightarrow>
             (True, p\<lparr>g_pending := (g_pending p)[k := f\<lparr>f_suppliers :=
                (f_suppliers f)[j := (f_suppliers f ! j)\<lparr>su_until := until\<rparr>]\<rparr>]\<rparr>)
         | None \<Rightarrow>
             if 4 \<le> length (f_suppliers f) then (False, p)
             else case meta p (wc_sizeof_supplier (g_config p)) of
               (False, p) \<Rightarrow> (False, p)
             | (True, p) \<Rightarrow>
                 (True, p\<lparr>g_pending := (g_pending p)[k := f\<lparr>f_suppliers :=
                    \<lparr>su_owner = owner, su_until = until\<rparr> # f_suppliers f\<rparr>]\<rparr>))"

definition receive_have ::
  "wg_pool \<Rightarrow> wg_session \<Rightarrow> wg_message \<Rightarrow> u64 \<Rightarrow> wg_emit \<Rightarrow> int \<times> wg_message list \<times> wg_pool" where
  "receive_have p s m now emit =
     (if (case find_object p (gm_id m) of None \<Rightarrow> False | Some ob \<Rightarrow> now < o_expires ob) \<or>
         (case wc_known_object (g_config p) of None \<Rightarrow> False | Some f \<Rightarrow> f (gm_id m)) then (0, [], p)
      else case admit_hint p (gm_id m) of
        (None, p) \<Rightarrow> (1, [], p)
      | (Some k, p) \<Rightarrow> (case add_supplier p k (ss_owner s) (now + WG_HINT_MS) of
          (False, p) \<Rightarrow> (1, [], p)
        | (True, p) \<Rightarrow> claim_pending s now emit p))"

definition receive_want ::
  "wg_pool \<Rightarrow> wg_session \<Rightarrow> wg_message \<Rightarrow> u64 \<Rightarrow> wg_emit \<Rightarrow> int \<times> wg_message list \<times> wg_pool \<times> wg_session" where
  "receive_want p s m now emit =
     (if list_ex (\<lambda>t. t_request t = gm_request m) (ss_out s) then (0, [], p, s)
      else
        let refuse = (let reply = control WG_UNAVAILABLE (gm_id m) (gm_request m)
                      in (emit reply, if emit reply = 0 then [reply] else [], p, s))
        in case find_object p (gm_id m) of
             None \<Rightarrow> refuse
           | Some ob \<Rightarrow>
               if o_data ob = None \<or> o_expires ob \<le> now \<or> 4 \<le> ss_serving s \<or>
                  upload_limit (g_config p) \<le> g_serving p then refuse
               else case meta p (wc_sizeof_transfer (g_config p)) of
                 (False, p) \<Rightarrow> (1, [], p, s)
               | (True, p) \<Rightarrow>
                   (0, [], (put_object p (ob\<lparr>o_refs := o_refs ob + 1\<rparr>))\<lparr>g_serving := g_serving p + 1\<rparr>,
                    s\<lparr>ss_serving := ss_serving s + 1,
                      ss_out := ss_out s @ [\<lparr>t_object = o_born ob, t_request = gm_request m, t_offset = 0\<rparr>]\<rparr>))"

text \<open>The receive buffer is there, or is allocated within the byte limits.\<close>

definition open_buffer :: "wg_pool \<Rightarrow> nat \<Rightarrow> wg_message \<Rightarrow> bool \<times> wg_pool" where
  "open_buffer p k m =
     (if f_data (g_pending p ! k) \<noteq> None then (True, p)
      else case room p (i_type (gm_id m)) (gm_total m) of
        (False, p) \<Rightarrow> (False, p)
      | (True, p) \<Rightarrow> (case alloc p (gm_total m) of
          (False, p) \<Rightarrow> (False, p)
        | (True, p) \<Rightarrow>
            let f = (g_pending p ! k)\<lparr>f_data := Some [], f_total := gm_total m\<rparr>
            in (True, charge (p\<lparr>g_pending := (g_pending p)[k := f]\<rparr>) (f_id f) (gm_total m))))"

definition append_chunk :: "wg_pool \<Rightarrow> nat \<Rightarrow> wg_message \<Rightarrow> u64 \<Rightarrow> wg_pool" where
  "append_chunk p k m now =
     (let f = g_pending p ! k;
          chunk = (case gm_data m of None \<Rightarrow> [] | Some d \<Rightarrow> take (gm_size m) d)
      in p\<lparr>g_pending := (g_pending p)[k :=
             f\<lparr>f_data := Some (take (f_size f) (fetched f) @ chunk), f_size := f_size f + gm_size m,
               f_progress := now\<rparr>]\<rparr>)"

definition receive_data ::
  "wg_pool \<Rightarrow> wg_session \<Rightarrow> nat \<Rightarrow> wg_message \<Rightarrow> u64 \<Rightarrow> wg_complete \<Rightarrow> int \<times> wg_pool" where
  "receive_data p s k m now complete =
     (let f = g_pending p ! k
      in if gm_offset m \<noteq> f_size f \<or> (f_total f \<noteq> 0 \<and> f_total f \<noteq> gm_total m) then (-1, p)
         else case open_buffer p k m of
           (False, p) \<Rightarrow> (0, drop_supplier p k (ss_owner s))
         | (True, p) \<Rightarrow>
             let p = append_chunk p k m now;
                 f = g_pending p ! k
             in if f_size f = f_total f then
                  (if wc_identify (g_config p) (i_type (f_id f)) (fetched f) \<noteq> Some (i_hash (f_id f))
                   then (-1, drop_supplier p k (ss_owner s))
                   else case deliver p k complete of (r, p) \<Rightarrow> (if r = WG_DEFER then 0 else r, p))
                else (0, p))"

definition wg_receive ::
  "wg_pool \<Rightarrow> wg_session \<Rightarrow> wg_message \<Rightarrow> u64 \<Rightarrow> wg_emit \<Rightarrow> wg_complete \<Rightarrow>
     int \<times> wg_message list \<times> wg_pool \<times> wg_session" where
  "wg_receive p s m now emit complete =
     (if \<not> ss_open s \<or> wg_validate m \<noteq> 0 then (-1, [], p, s)
      else if \<not> known_op (gm_op m) then (0, [], p, s)
      else if i_type (gm_id m) \<noteq> ss_type s \<or> UINT64_MAX - WG_HINT_MS < now then (-1, [], p, s)
      else
        let p = wg_prune p now
        in if gm_op m = WG_GONE then
             (0, [], (case find_fetch p (gm_id m) of None \<Rightarrow> p | Some k \<Rightarrow> drop_supplier p k (ss_owner s)), s)
           else if gm_op m = WG_HAVE then
             (case receive_have p s m now emit of (r, ms, p) \<Rightarrow> (r, ms, p, s))
           else if gm_op m = WG_WANT then receive_want p s m now emit
           else case find_fetch p (gm_id m) of
             None \<Rightarrow> (0, [], p, s)
           | Some k \<Rightarrow>
               if f_owner (g_pending p ! k) \<noteq> ss_owner s \<or> f_request (g_pending p ! k) \<noteq> gm_request m
               then (0, [], p, s)
               else if gm_op m = WG_UNAVAILABLE then (0, [], drop_supplier p k (ss_owner s), s)
               else case receive_data p s k m now complete of (r, p) \<Rightarrow> (r, [], p, s))"

section \<open>Polling\<close>

definition earlier_withdrawal :: "wg_object \<Rightarrow> wg_object option \<Rightarrow> wg_object option" where
  "earlier_withdrawal ob gone =
     (case gone of None \<Rightarrow> Some ob
      | Some x \<Rightarrow> if o_withdrawal ob < o_withdrawal x then Some ob else Some x)"

definition next_gone :: "wg_pool \<Rightarrow> wg_session \<Rightarrow> wg_object option" where
  "next_gone p s =
     fold (\<lambda>ob gone. if i_type (o_id ob) = ss_type s \<and> ss_withdrawal s < o_withdrawal ob
                     then earlier_withdrawal ob gone else gone) (g_objects p) None"

definition retry :: "int \<Rightarrow> int" where
  "retry sent = (if sent < 0 then -1 else 1)"

definition data_message :: "wg_object \<Rightarrow> wg_transfer \<Rightarrow> wg_message" where
  "data_message ob t =
     (let n = min WG_CHUNK (o_size ob - t_offset t)
      in \<lparr>gm_id = o_id ob, gm_op = WG_DATA, gm_request = t_request t, gm_offset = t_offset t,
          gm_total = o_size ob, gm_data = map_option (\<lambda>d. take n (drop (t_offset t) d)) (o_data ob),
          gm_size = n\<rparr>)"

definition finish_transfer :: "wg_pool \<Rightarrow> wg_session \<Rightarrow> wg_transfer \<Rightarrow> wg_transfer list \<Rightarrow> wg_pool \<times> wg_session" where
  "finish_transfer p s t rest =
     (end_transfer p t, s\<lparr>ss_out := rest, ss_serving := ss_serving s - 1\<rparr>)"

text \<open>
  The upload at the head of the session's queue. Its object exists as long as the reference count is
  right; the first branch is a dangling pointer in the code.
\<close>

definition poll_upload ::
  "wg_pool \<Rightarrow> wg_session \<Rightarrow> wg_transfer \<Rightarrow> wg_transfer list \<Rightarrow> u64 \<Rightarrow> wg_emit \<Rightarrow>
     int \<times> wg_message list \<times> wg_pool \<times> wg_session" where
  "poll_upload p s t rest now emit =
     (case object_at p (t_object t) of
        None \<Rightarrow> (-1, [], p, s)
      | Some ob \<Rightarrow>
          if o_expires ob \<le> now then
            let m = control WG_UNAVAILABLE (o_id ob) (t_request t)
            in if emit m \<noteq> 0 then (retry (emit m), [], p, s)
               else (0, [m], finish_transfer p s t rest)
          else
            let m = data_message ob t
            in if emit m \<noteq> 0 then (retry (emit m), [], p, s)
               else
                 let t = t\<lparr>t_offset := t_offset t + gm_size m\<rparr>
                 in if t_offset t = o_size ob then (0, [m], finish_transfer p s t rest)
                    else (0, [m], p, s\<lparr>ss_out := rest @ [t]\<rparr>))"

definition wg_poll ::
  "wg_pool \<Rightarrow> wg_session \<Rightarrow> u64 \<Rightarrow> wg_emit \<Rightarrow> int \<times> wg_message list \<times> wg_pool \<times> wg_session" where
  "wg_poll p s now emit =
     (if \<not> ss_open s then (-1, [], p, s)
      else
        let p = wg_prune p now
        in case next_gone p s of
             Some gone \<Rightarrow>
               let m = control WG_GONE (o_id gone) 0
               in if emit m \<noteq> 0 then (retry (emit m), [], p, s)
                  else (0, [m], p, s\<lparr>ss_withdrawal := o_withdrawal gone\<rparr>)
           | None \<Rightarrow> (case claim_pending s now emit p of
               (r, ms, p) \<Rightarrow>
                 if r \<noteq> 0 then (r, ms, p, s)
                 else case ss_out s of
                   [] \<Rightarrow> (0, ms, p, s)
                 | t # rest \<Rightarrow>
                     (case poll_upload p s t rest now emit of (r, ms', ps) \<Rightarrow> (r, ms @ ms', ps))))"

definition wg_memory :: "wg_pool \<Rightarrow> nat" where
  "wg_memory p = wc_sizeof_pool (g_config p) + g_metadata_bytes p + g_payload_bytes p"

definition complete_fetch :: "wg_fetch \<Rightarrow> bool" where
  "complete_fetch f \<longleftrightarrow> f_data f \<noteq> None \<and> f_total f \<noteq> 0 \<and> f_size f = f_total f"

definition resume_at :: "wg_pool \<Rightarrow> nat \<Rightarrow> wg_complete \<Rightarrow> int \<times> wg_pool" where
  "resume_at p k complete =
     (case deliver p k complete of
        (r, p) \<Rightarrow> (if r = WG_DEFER then 0 else if r < 0 then -1 else 1, p))"

definition wg_resume :: "wg_pool \<Rightarrow> wg_session \<Rightarrow> wg_complete \<Rightarrow> int \<times> wg_pool" where
  "wg_resume p s complete =
     (if \<not> ss_open s then (-1, p)
      else case find_slot (\<lambda>f. f_owner f = ss_owner s \<and> complete_fetch f) (g_pending p) of
        None \<Rightarrow> (0, p) | Some k \<Rightarrow> resume_at p k complete)"

definition wg_resume_id :: "wg_pool \<Rightarrow> wg_session \<Rightarrow> wg_id \<Rightarrow> wg_complete \<Rightarrow> int \<times> wg_pool" where
  "wg_resume_id p s i complete =
     (if \<not> ss_open s then (-1, p)
      else case find_slot (\<lambda>f. f_owner f = ss_owner s \<and> same (f_id f) i \<and> complete_fetch f) (g_pending p) of
        None \<Rightarrow> (WG_RESUME_MISSING, p) | Some k \<Rightarrow> resume_at p k complete)"

record wg_progress =
  pr_hints :: "nat list"
  pr_active :: "nat list"
  pr_complete :: "nat list"
  pr_bytes :: "nat list"

definition add_at :: "nat \<Rightarrow> nat \<Rightarrow> nat list \<Rightarrow> nat list" where
  "add_at i n xs = xs[i := xs ! i + n]"

definition progress_fetch :: "wg_fetch \<Rightarrow> wg_progress \<Rightarrow> wg_progress" where
  "progress_fetch f out =
     (if i_type (f_id f) < 1 \<or> 3 < i_type (f_id f) then out
      else
        let i = slot (f_id f)
        in \<lparr>pr_hints = add_at i 1 (pr_hints out),
            pr_active = add_at i (if f_owner f \<noteq> 0 then 1 else 0) (pr_active out),
            pr_complete = add_at i (if complete_fetch f then 1 else 0) (pr_complete out),
            pr_bytes = add_at i (f_size f) (pr_bytes out)\<rparr>)"

definition wg_progress_of :: "wg_pool \<Rightarrow> wg_progress" where
  "wg_progress_of p = fold progress_fetch (g_pending p)
     \<lparr>pr_hints = [0, 0, 0], pr_active = [0, 0, 0], pr_complete = [0, 0, 0], pr_bytes = [0, 0, 0]\<rparr>"

end
