(* ===== verification/Net_Memory.thy ===== *)
theory Net_Memory
  imports Wendy_Prelude "HOL-Library.Multiset"
begin

text \<open>
  The memory ledger of \<open>components/wendy_net_common/src/memory.c\<close> and the runtime-wide ledger of
  \<open>runtime_memory.c\<close>.

  The world holds the ledgers (an owner pointer is a position in that list, \<open>NULL\<close> is \<^const>\<open>None\<close>),
  the live blocks with their ownership prefix, the reservation tokens and the task's scope. A
  pointer is the number of the block, a fresh one for each allocation. A byte of a block that nothing
  has written is \<^const>\<open>None\<close>. A failed \<open>assert\<close> sets the abort flag. The platform is a parameter: the
  width of \<open>size_t\<close>, the size of the prefix, and the heap, asked by call number, size and, where
  the code passes capabilities, placement. Each critical section of the code is one definition.
\<close>

section \<open>The ledger\<close>

datatype placement = INTERNAL | EXTERNAL | RTC | PLACEMENT_OTHER nat

record platform =
  pf_size_max :: nat
  pf_header :: nat
  pf_esp :: bool
  pf_spiram :: nat
  pf_spiram8 :: nat
  pf_heap :: "nat \<Rightarrow> nat \<Rightarrow> placement option \<Rightarrow> bool"
  pf_internal_limit :: nat

record ledger =
  le_limit_bytes :: nat
  le_current_bytes :: nat
  le_high_water_bytes :: nat
  le_internal_bytes :: nat
  le_external_bytes :: nat
  le_allocation_count :: nat
  le_reservation_bytes :: nat
  le_reservation_count :: nat
  le_failed_admissions :: u64
  le_accepting :: bool
  le_external_enabled :: bool

definition zero_ledger :: ledger where
  "zero_ledger = \<lparr>le_limit_bytes = 0, le_current_bytes = 0, le_high_water_bytes = 0,
     le_internal_bytes = 0, le_external_bytes = 0, le_allocation_count = 0, le_reservation_bytes = 0,
     le_reservation_count = 0, le_failed_admissions = 0, le_accepting = False,
     le_external_enabled = False\<rparr>"

fun placement_valid :: "placement \<Rightarrow> bool" where
  "placement_valid (PLACEMENT_OTHER _) = False"
| "placement_valid _ = True"

definition ledger_open :: "platform \<Rightarrow> ledger \<Rightarrow> nat \<Rightarrow> bool \<Rightarrow> bool \<times> ledger" where
  "ledger_open pf l limit external =
     (if limit = 0 then (False, l)
      else if pf_esp pf \<and> external \<and> pf_spiram pf = 0 then (False, l)
      else if \<not> le_accepting l \<and> le_allocation_count l = 0 \<and> le_reservation_count l = 0 then
        (True, zero_ledger\<lparr>le_limit_bytes := limit, le_external_enabled := external, le_accepting := True\<rparr>)
      else (False, l))"

definition ledger_close :: "ledger \<Rightarrow> ledger" where
  "ledger_close l = l\<lparr>le_accepting := False\<rparr>"

definition ledger_drained :: "ledger \<Rightarrow> bool" where
  "ledger_drained l \<longleftrightarrow> le_allocation_count l = 0 \<and> le_reservation_count l = 0"

definition memory_charge :: "platform \<Rightarrow> nat \<Rightarrow> nat" where
  "memory_charge pf n = (if n = 0 \<or> pf_size_max pf - pf_header pf < n then 0 else n + pf_header pf)"

definition admission_failed :: "ledger \<Rightarrow> ledger" where
  "admission_failed l = l\<lparr>le_failed_admissions := le_failed_admissions l + 1\<rparr>"

definition admit :: "ledger \<Rightarrow> nat \<Rightarrow> placement \<Rightarrow> bool \<Rightarrow> bool \<times> ledger" where
  "admit l ch pl reservation =
     (if ch \<noteq> 0 \<and> placement_valid pl \<and> le_accepting l \<and>
         (pl \<noteq> EXTERNAL \<or> le_external_enabled l) \<and> ch \<le> le_limit_bytes l - le_current_bytes l
      then
        let l = l\<lparr>le_current_bytes := le_current_bytes l + ch\<rparr>;
            l = (if le_high_water_bytes l < le_current_bytes l
                 then l\<lparr>le_high_water_bytes := le_current_bytes l\<rparr> else l);
            l = (if pl = EXTERNAL then l\<lparr>le_external_bytes := le_external_bytes l + ch\<rparr>
                 else l\<lparr>le_internal_bytes := le_internal_bytes l + ch\<rparr>)
        in (True,
            if reservation then l\<lparr>le_reservation_bytes := le_reservation_bytes l + ch,
                                  le_reservation_count := le_reservation_count l + 1\<rparr>
            else l\<lparr>le_allocation_count := le_allocation_count l + 1\<rparr>)
      else (False, admission_failed l))"

text \<open>\<open>retire\<close>, with \<^const>\<open>None\<close> for a failed assertion.\<close>

definition retire :: "ledger \<Rightarrow> nat \<Rightarrow> placement \<Rightarrow> bool \<Rightarrow> ledger option" where
  "retire l ch pl reservation =
     (if le_current_bytes l < ch then None
      else
        let l = l\<lparr>le_current_bytes := le_current_bytes l - ch\<rparr>;
            l = (if pl = EXTERNAL then l\<lparr>le_external_bytes := le_external_bytes l - ch\<rparr>
                 else l\<lparr>le_internal_bytes := le_internal_bytes l - ch\<rparr>)
        in if reservation then
             (if le_reservation_count l = 0 \<or> le_reservation_bytes l < ch then None
              else Some (l\<lparr>le_reservation_bytes := le_reservation_bytes l - ch,
                           le_reservation_count := le_reservation_count l - 1\<rparr>))
           else if le_allocation_count l = 0 then None
           else Some (l\<lparr>le_allocation_count := le_allocation_count l - 1\<rparr>))"

section \<open>Blocks, scopes and reservations\<close>

record block =
  bk_owner :: "nat option"
  bk_payload :: nat
  bk_charged :: nat
  bk_placement :: placement
  bk_bytes :: "u8 option list"

record scope =
  sc_owner :: "nat option"
  sc_placement :: placement

record reservation =
  rv_owner :: "nat option"
  rv_bytes :: nat
  rv_placement :: placement

record memory =
  my_ledgers :: "ledger list"
  my_blocks :: "nat \<rightharpoonup> block"
  my_next :: nat
  my_tokens :: "reservation list"
  my_scope :: scope
  my_heap_calls :: nat
  my_aborted :: bool

definition put_ledger :: "memory \<Rightarrow> nat \<Rightarrow> ledger \<Rightarrow> memory" where
  "put_ledger y o1 l = y\<lparr>my_ledgers := (my_ledgers y)[o1 := l]\<rparr>"

definition note_failure :: "memory \<Rightarrow> nat option \<Rightarrow> memory" where
  "note_failure y owner =
     (case owner of None \<Rightarrow> y | Some o1 \<Rightarrow> put_ledger y o1 (admission_failed (my_ledgers y ! o1)))"

definition retire_at :: "memory \<Rightarrow> nat \<Rightarrow> nat \<Rightarrow> placement \<Rightarrow> bool \<Rightarrow> memory" where
  "retire_at y o1 ch pl reservation =
     (case retire (my_ledgers y ! o1) ch pl reservation of
        None \<Rightarrow> y\<lparr>my_aborted := True\<rparr> | Some l \<Rightarrow> put_ledger y o1 l)"

definition admit_for :: "memory \<Rightarrow> nat option \<Rightarrow> nat \<Rightarrow> placement \<Rightarrow> bool \<Rightarrow> bool \<times> memory" where
  "admit_for y owner ch pl reservation =
     (case owner of
        None \<Rightarrow> (\<not> reservation, y)
      | Some o1 \<Rightarrow> (case admit (my_ledgers y ! o1) ch pl reservation of
          (ok, l) \<Rightarrow> (ok, put_ledger y o1 l)))"

text \<open>The heap answers, and a live block gets its prefix.\<close>

definition heap_alloc :: "platform \<Rightarrow> memory \<Rightarrow> nat option \<Rightarrow> nat \<Rightarrow> nat \<Rightarrow> placement \<Rightarrow> bool \<Rightarrow>
    nat option \<times> memory" where
  "heap_alloc pf y owner n ch pl strict =
     (let caps = (if pf_esp pf \<and> (owner \<noteq> None \<or> strict) then Some pl else None);
          ok = pf_heap pf (my_heap_calls y) ch caps;
          y = y\<lparr>my_heap_calls := my_heap_calls y + 1\<rparr>
      in if ok then
           (Some (my_next y),
            y\<lparr>my_next := my_next y + 1,
              my_blocks := (my_blocks y)(my_next y \<mapsto>
                \<lparr>bk_owner = owner, bk_payload = n, bk_charged = ch, bk_placement = pl,
                 bk_bytes = replicate n None\<rparr>)\<rparr>)
         else (None, y))"

definition heap_failed :: "memory \<Rightarrow> nat option \<Rightarrow> nat \<Rightarrow> placement \<Rightarrow> memory" where
  "heap_failed y owner ch pl =
     (case owner of None \<Rightarrow> y | Some o1 \<Rightarrow> note_failure (retire_at y o1 ch pl False) owner)"

definition allocate_in :: "platform \<Rightarrow> memory \<Rightarrow> nat option \<Rightarrow> nat \<Rightarrow> placement \<Rightarrow> bool \<Rightarrow>
    nat option \<times> memory" where
  "allocate_in pf y owner n pl strict =
     (if n = 0 then (None, y)
      else
        let ch = memory_charge pf n
        in if ch = 0 then (None, note_failure y owner)
           else case admit_for y owner ch pl False of
             (False, y) \<Rightarrow> (None, y)
           | (True, y) \<Rightarrow> (case heap_alloc pf y owner n ch pl strict of
               (None, y) \<Rightarrow> (None, heap_failed y owner ch pl)
             | (Some a, y) \<Rightarrow> (Some a, y)))"

definition memory_malloc :: "platform \<Rightarrow> memory \<Rightarrow> nat option \<Rightarrow> nat \<Rightarrow> placement \<Rightarrow> nat option \<times> memory" where
  "memory_malloc pf y owner n pl = (if owner = None then (None, y) else allocate_in pf y owner n pl False)"

definition set_bytes :: "memory \<Rightarrow> nat \<Rightarrow> u8 option list \<Rightarrow> memory" where
  "set_bytes y a bs =
     (case my_blocks y a of None \<Rightarrow> y
      | Some b \<Rightarrow> y\<lparr>my_blocks := (my_blocks y)(a \<mapsto> b\<lparr>bk_bytes := bs\<rparr>)\<rparr>)"

definition zero_fill :: "nat option \<times> memory \<Rightarrow> nat \<Rightarrow> nat option \<times> memory" where
  "zero_fill r n =
     (case r of (None, y) \<Rightarrow> (None, y) | (Some a, y) \<Rightarrow> (Some a, set_bytes y a (replicate n (Some 0))))"

definition product_overflows :: "platform \<Rightarrow> nat \<Rightarrow> nat \<Rightarrow> bool" where
  "product_overflows pf n_items n \<longleftrightarrow> n \<noteq> 0 \<and> pf_size_max pf div n < n_items"

definition memory_calloc :: "platform \<Rightarrow> memory \<Rightarrow> nat option \<Rightarrow> nat \<Rightarrow> nat \<Rightarrow> placement \<Rightarrow>
    nat option \<times> memory" where
  "memory_calloc pf y owner n_items n pl =
     (if product_overflows pf n_items n then (None, note_failure y owner)
      else zero_fill (memory_malloc pf y owner (n_items * n) pl) (n_items * n))"

definition memory_free :: "memory \<Rightarrow> nat option \<Rightarrow> memory" where
  "memory_free y ptr =
     (case ptr of
        None \<Rightarrow> y
      | Some a \<Rightarrow> (case my_blocks y a of
          None \<Rightarrow> y\<lparr>my_aborted := True\<rparr>
        | Some b \<Rightarrow>
            let y = y\<lparr>my_blocks := (my_blocks y)(a := None)\<rparr>
            in case bk_owner b of
                 None \<Rightarrow> y | Some o1 \<Rightarrow> retire_at y o1 (bk_charged b) (bk_placement b) False))"

definition memory_realloc :: "platform \<Rightarrow> memory \<Rightarrow> nat option \<Rightarrow> nat option \<Rightarrow> nat \<Rightarrow> placement \<Rightarrow>
    nat option \<times> memory" where
  "memory_realloc pf y owner ptr n pl =
     (case ptr of
        None \<Rightarrow> memory_malloc pf y owner n pl
      | Some a \<Rightarrow> (case my_blocks y a of
          None \<Rightarrow> (None, y\<lparr>my_aborted := True\<rparr>)
        | Some b \<Rightarrow>
            if owner \<noteq> bk_owner b then (None, note_failure y owner)
            else if n = 0 then (None, memory_free y (Some a))
            else case memory_malloc pf y owner n (bk_placement b) of
              (None, y) \<Rightarrow> (None, y)
            | (Some a', y) \<Rightarrow>
                let copied = min n (bk_payload b);
                    y = set_bytes y a' (take copied (bk_bytes b) @ replicate (n - copied) None)
                in (Some a', memory_free y (Some a))))"

definition scope_enter :: "memory \<Rightarrow> nat option \<Rightarrow> placement \<Rightarrow> scope \<times> memory" where
  "scope_enter y owner pl = (my_scope y, y\<lparr>my_scope := \<lparr>sc_owner = owner, sc_placement = pl\<rparr>\<rparr>)"

definition scope_leave :: "memory \<Rightarrow> scope \<Rightarrow> memory" where
  "scope_leave y previous = y\<lparr>my_scope := previous\<rparr>"

definition unscoped_calloc :: "platform \<Rightarrow> memory \<Rightarrow> nat \<Rightarrow> nat \<Rightarrow> nat option \<times> memory" where
  "unscoped_calloc pf y n_items n =
     (if product_overflows pf n_items n then (None, y)
      else zero_fill (allocate_in pf y None (n_items * n) INTERNAL False) (n_items * n))"

definition unscoped_calloc_in :: "platform \<Rightarrow> memory \<Rightarrow> nat \<Rightarrow> nat \<Rightarrow> placement \<Rightarrow> nat option \<times> memory" where
  "unscoped_calloc_in pf y n_items n pl =
     (if \<not> placement_valid pl \<or> product_overflows pf n_items n then (None, y)
      else zero_fill (allocate_in pf y None (n_items * n) pl True) (n_items * n))"

definition scoped_calloc :: "platform \<Rightarrow> memory \<Rightarrow> nat \<Rightarrow> nat \<Rightarrow> nat option \<times> memory" where
  "scoped_calloc pf y n_items n =
     (if product_overflows pf n_items n then (None, note_failure y (sc_owner (my_scope y)))
      else zero_fill (allocate_in pf y (sc_owner (my_scope y)) (n_items * n) (sc_placement (my_scope y)) False)
             (n_items * n))"

definition scoped_free :: "memory \<Rightarrow> nat option \<Rightarrow> memory" where
  "scoped_free y ptr = memory_free y ptr"

text \<open>Reservation tokens are the caller's; \<open>k\<close> is the token's position.\<close>

definition memory_reserve :: "memory \<Rightarrow> nat option \<Rightarrow> nat \<Rightarrow> nat \<Rightarrow> placement \<Rightarrow> bool \<times> memory" where
  "memory_reserve y owner k n pl =
     (if rv_owner (my_tokens y ! k) \<noteq> None then (False, y)
      else case admit_for y owner n pl True of
        (False, y) \<Rightarrow> (False, y)
      | (True, y) \<Rightarrow> (True, y\<lparr>my_tokens := (my_tokens y)[k :=
          \<lparr>rv_owner = owner, rv_bytes = n, rv_placement = pl\<rparr>]\<rparr>))"

definition zero_token :: reservation where
  "zero_token = \<lparr>rv_owner = None, rv_bytes = 0, rv_placement = INTERNAL\<rparr>"

definition memory_release :: "memory \<Rightarrow> nat \<Rightarrow> memory" where
  "memory_release y k =
     (let t = my_tokens y ! k
      in case rv_owner t of
           None \<Rightarrow> y
         | Some o1 \<Rightarrow>
             (retire_at y o1 (rv_bytes t) (rv_placement t) True)
               \<lparr>my_tokens := (my_tokens y)[k := zero_token]\<rparr>)"

section \<open>The runtime ledger\<close>

text \<open>The static \<open>runtime_memory\<close> of \<open>runtime_memory.c\<close> is the first ledger.\<close>

definition runtime_owner :: "nat option" where
  "runtime_owner = Some 0"

definition external_available :: "platform \<Rightarrow> bool" where
  "external_available pf \<longleftrightarrow> pf_esp pf \<and> pf_spiram8 pf \<noteq> 0"

definition runtime_memory_limit :: "platform \<Rightarrow> nat" where
  "runtime_memory_limit pf = (if external_available pf then 2 * 1024 * 1024 else pf_internal_limit pf)"

definition runtime_memory_open :: "platform \<Rightarrow> memory \<Rightarrow> bool \<times> memory" where
  "runtime_memory_open pf y =
     (case ledger_open pf (my_ledgers y ! 0) (runtime_memory_limit pf) (external_available pf) of
        (ok, l) \<Rightarrow> (ok, put_ledger y 0 l))"

definition runtime_memory_close :: "memory \<Rightarrow> memory" where
  "runtime_memory_close y = put_ledger y 0 (ledger_close (my_ledgers y ! 0))"

definition runtime_memory_drained :: "memory \<Rightarrow> bool" where
  "runtime_memory_drained y = ledger_drained (my_ledgers y ! 0)"

definition default_placement :: "memory \<Rightarrow> placement" where
  "default_placement y = (if le_external_enabled (my_ledgers y ! 0) then EXTERNAL else INTERNAL)"

definition runtime_scope_enter :: "memory \<Rightarrow> scope \<times> memory" where
  "runtime_scope_enter y = scope_enter y runtime_owner (default_placement y)"

definition net_malloc :: "platform \<Rightarrow> memory \<Rightarrow> nat \<Rightarrow> nat option \<times> memory" where
  "net_malloc pf y n = memory_malloc pf y runtime_owner n (default_placement y)"

definition net_calloc :: "platform \<Rightarrow> memory \<Rightarrow> nat \<Rightarrow> nat \<Rightarrow> nat option \<times> memory" where
  "net_calloc pf y n_items n = memory_calloc pf y runtime_owner n_items n (default_placement y)"

definition net_realloc :: "platform \<Rightarrow> memory \<Rightarrow> nat option \<Rightarrow> nat \<Rightarrow> nat option \<times> memory" where
  "net_realloc pf y ptr n = memory_realloc pf y runtime_owner ptr n (default_placement y)"

definition net_free :: "memory \<Rightarrow> nat option \<Rightarrow> memory" where
  "net_free y ptr = memory_free y ptr"

definition net_rtc_malloc :: "platform \<Rightarrow> memory \<Rightarrow> nat \<Rightarrow> nat option \<times> memory" where
  "net_rtc_malloc pf y n = memory_malloc pf y runtime_owner n RTC"

definition net_internal_malloc :: "platform \<Rightarrow> memory \<Rightarrow> nat \<Rightarrow> nat option \<times> memory" where
  "net_internal_malloc pf y n = memory_malloc pf y runtime_owner n INTERNAL"

definition net_internal_calloc :: "platform \<Rightarrow> memory \<Rightarrow> nat \<Rightarrow> nat \<Rightarrow> nat option \<times> memory" where
  "net_internal_calloc pf y n_items n = memory_calloc pf y runtime_owner n_items n INTERNAL"

text \<open>A string is its bytes without the terminator.\<close>

definition net_strdup :: "platform \<Rightarrow> memory \<Rightarrow> bytes \<Rightarrow> nat option \<times> memory" where
  "net_strdup pf y text =
     (case net_malloc pf y (length text + 1) of
        (None, y) \<Rightarrow> (None, y)
      | (Some a, y) \<Rightarrow> (Some a, set_bytes y a (map Some (text @ [0]))))"

section \<open>What a ledger records\<close>

text \<open>
  The abstract ledger: the charges of the outstanding allocations \<open>A\<close> and of the outstanding
  reservations \<open>R\<close>, each with its placement.
\<close>

type_synonym charges = "(nat \<times> placement) multiset"

definition bytes_of :: "charges \<Rightarrow> nat" where
  "bytes_of M = sum_mset (image_mset fst M)"

definition ext_total :: "charges \<Rightarrow> nat" where
  "ext_total M = bytes_of (filter_mset (\<lambda>(n, pl). pl = EXTERNAL) M)"

definition records :: "ledger \<Rightarrow> charges \<Rightarrow> charges \<Rightarrow> bool" where
  "records l A R \<longleftrightarrow>
     le_current_bytes l = bytes_of A + bytes_of R \<and>
     le_external_bytes l = ext_total A + ext_total R \<and>
     le_internal_bytes l + le_external_bytes l = le_current_bytes l \<and>
     le_allocation_count l = size A \<and> le_reservation_count l = size R \<and>
     le_reservation_bytes l = bytes_of R \<and>
     le_current_bytes l \<le> le_high_water_bytes l \<and> le_high_water_bytes l \<le> le_limit_bytes l"

lemma bytes_of_simps [simp]:
  "bytes_of {#} = 0" "bytes_of (add_mset x M) = fst x + bytes_of M" "bytes_of (M + N) = bytes_of M + bytes_of N"
  "ext_total {#} = 0" "ext_total (M + N) = ext_total M + ext_total N"
  "ext_total (add_mset x M) = (if snd x = EXTERNAL then fst x else 0) + ext_total M"
  by (auto simp: bytes_of_def ext_total_def split: prod.splits)

lemma ext_total_le: "ext_total M \<le> bytes_of M"
  by (induction M) auto

lemma admit_records:
  assumes "records l A R" "admit l ch pl reservation = (ok, l')"
  shows "ok \<Longrightarrow> \<not> reservation \<Longrightarrow> records l' (add_mset (ch, pl) A) R"
    and "ok \<Longrightarrow> reservation \<Longrightarrow> records l' A (add_mset (ch, pl) R)"
    and "\<not> ok \<Longrightarrow> records l' A R"
  using assms by (auto simp: admit_def records_def admission_failed_def Let_def split: if_splits)

lemma retire_allocation:
  assumes "records l (add_mset (ch, pl) A) R"
  obtains l' where "retire l ch pl False = Some l'" "records l' A R"
  using assms ext_total_le [of A] ext_total_le [of R] by (auto simp: retire_def records_def Let_def split: if_splits)

lemma retire_reservation:
  assumes "records l A (add_mset (ch, pl) R)"
  obtains l' where "retire l ch pl True = Some l'" "records l' A R"
  using assms ext_total_le [of A] ext_total_le [of R] by (auto simp: retire_def records_def Let_def split: if_splits)

lemma open_records:
  assumes "records l A R" "ledger_open pf l limit external = (ok, l')"
  shows "records l' A R" "ok \<Longrightarrow> A = {#} \<and> R = {#}"
  using assms by (auto simp: ledger_open_def records_def zero_ledger_def split: if_splits)

lemma other_records [simp]:
  "records (admission_failed l) A R = records l A R" "records (ledger_close l) A R = records l A R"
  by (simp_all add: records_def admission_failed_def ledger_close_def)

lemma drained_records: "records l A R \<Longrightarrow> ledger_drained l \<longleftrightarrow> A = {#} \<and> R = {#}"
  by (auto simp: records_def ledger_drained_def)

section \<open>Interleaved tasks\<close>

text \<open>
  Tasks share the ledgers, and each takes the lock only for single admissions and retirements. Between
  them an allocation is in flight (admitted, not yet answered by the heap) or a freed block is being
  retired. The state lists both; each step is one critical section or one heap call of some task.
\<close>

record inflight =
  if_owner :: "nat option"
  if_payload :: nat
  if_charge :: nat
  if_placement :: placement

record retiring =
  rt_owner :: nat
  rt_charge :: nat
  rt_placement :: placement

type_synonym tasks = "memory \<times> inflight list \<times> retiring list"

definition owner_ok :: "memory \<Rightarrow> nat option \<Rightarrow> bool" where
  "owner_ok y owner \<longleftrightarrow> (case owner of None \<Rightarrow> True | Some o1 \<Rightarrow> o1 < length (my_ledgers y))"

inductive mem_step :: "platform \<Rightarrow> tasks \<Rightarrow> tasks \<Rightarrow> bool" for pf where
  admitted: "owner_ok y owner \<Longrightarrow> admit_for y owner ch pl False = (True, y') \<Longrightarrow>
    mem_step pf (y, I, T) (y', \<lparr>if_owner = owner, if_payload = n, if_charge = ch, if_placement = pl\<rparr> # I, T)"
| refused: "owner_ok y owner \<Longrightarrow> admit_for y owner ch pl reservation = (False, y') \<Longrightarrow>
    mem_step pf (y, I, T) (y', I, T)"
| failed: "owner_ok y owner \<Longrightarrow> mem_step pf (y, I, T) (note_failure y owner, I, T)"
| served: "heap_alloc pf y (if_owner i) (if_payload i) (if_charge i) (if_placement i) strict = (Some a, y') \<Longrightarrow>
    mem_step pf (y, us @ i # vs, T) (y', us @ vs, T)"
| denied: "heap_alloc pf y (if_owner i) (if_payload i) (if_charge i) (if_placement i) strict = (None, y') \<Longrightarrow>
    mem_step pf (y, us @ i # vs, T) (heap_failed y' (if_owner i) (if_charge i) (if_placement i), us @ vs, T)"
| written: "mem_step pf (y, I, T) (set_bytes y a bs, I, T)"
| freed: "my_blocks y a = Some b \<Longrightarrow> bk_owner b = Some o1 \<Longrightarrow>
    mem_step pf (y, I, T) (y\<lparr>my_blocks := (my_blocks y)(a := None)\<rparr>, I,
      \<lparr>rt_owner = o1, rt_charge = bk_charged b, rt_placement = bk_placement b\<rparr> # T)"
| freed_unowned: "my_blocks y a = Some b \<Longrightarrow> bk_owner b = None \<Longrightarrow>
    mem_step pf (y, I, T) (y\<lparr>my_blocks := (my_blocks y)(a := None)\<rparr>, I, T)"
| retired: "mem_step pf (y, I, us @ t # vs)
    (retire_at y (rt_owner t) (rt_charge t) (rt_placement t) False, I, us @ vs)"
| reserved: "owner_ok y owner \<Longrightarrow> k < length (my_tokens y) \<Longrightarrow> memory_reserve y owner k n pl = (ok, y') \<Longrightarrow>
    mem_step pf (y, I, T) (y', I, T)"
| released: "k < length (my_tokens y) \<Longrightarrow> mem_step pf (y, I, T) (memory_release y k, I, T)"
| opened: "o1 < length (my_ledgers y) \<Longrightarrow> ledger_open pf (my_ledgers y ! o1) limit external = (ok, l) \<Longrightarrow>
    mem_step pf (y, I, T) (put_ledger y o1 l, I, T)"
| closed: "o1 < length (my_ledgers y) \<Longrightarrow>
    mem_step pf (y, I, T) (put_ledger y o1 (ledger_close (my_ledgers y ! o1)), I, T)"
| scoped: "mem_step pf (y, I, T) (scope_leave y sc, I, T)"

definition owned :: "(nat \<rightharpoonup> block) \<Rightarrow> nat \<Rightarrow> nat set" where
  "owned m o1 = {a. \<exists>b. m a = Some b \<and> bk_owner b = Some o1}"

definition block_charge :: "block option \<Rightarrow> nat \<times> placement" where
  "block_charge b = (bk_charged (the b), bk_placement (the b))"

definition block_charges :: "(nat \<rightharpoonup> block) \<Rightarrow> nat \<Rightarrow> charges" where
  "block_charges m o1 = image_mset (\<lambda>a. block_charge (m a)) (mset_set (owned m o1))"

definition inflight_charges :: "inflight list \<Rightarrow> nat \<Rightarrow> charges" where
  "inflight_charges I o1 =
     mset (map (\<lambda>i. (if_charge i, if_placement i)) (filter (\<lambda>i. if_owner i = Some o1) I))"

definition retiring_charges :: "retiring list \<Rightarrow> nat \<Rightarrow> charges" where
  "retiring_charges T o1 =
     mset (map (\<lambda>t. (rt_charge t, rt_placement t)) (filter (\<lambda>t. rt_owner t = o1) T))"

definition token_charges :: "reservation list \<Rightarrow> nat \<Rightarrow> charges" where
  "token_charges ts o1 =
     mset (map (\<lambda>t. (rv_bytes t, rv_placement t)) (filter (\<lambda>t. rv_owner t = Some o1) ts))"

definition allocations :: "tasks \<Rightarrow> nat \<Rightarrow> charges" where
  "allocations s o1 = (case s of (y, I, T) \<Rightarrow>
     block_charges (my_blocks y) o1 + inflight_charges I o1 + retiring_charges T o1)"

fun mem_inv :: "tasks \<Rightarrow> bool" where
  "mem_inv (y, I, T) \<longleftrightarrow> \<not> my_aborted y \<and> finite (dom (my_blocks y)) \<and> (\<forall>a \<in> dom (my_blocks y). a < my_next y) \<and>
     (\<forall>t \<in> set T. rt_owner t < length (my_ledgers y)) \<and> (\<forall>i \<in> set I. owner_ok y (if_owner i)) \<and>
     (\<forall>b \<in> ran (my_blocks y). owner_ok y (bk_owner b)) \<and> (\<forall>t \<in> set (my_tokens y). owner_ok y (rv_owner t)) \<and>
     (\<forall>o1 < length (my_ledgers y).
        records (my_ledgers y ! o1) (allocations (y, I, T) o1) (token_charges (my_tokens y) o1))"

lemma owned_finite: "finite (dom m) \<Longrightarrow> finite (owned m o1)"
  by (rule finite_subset [of _ "dom m"]) (auto simp: owned_def)

lemma block_charges_add:
  assumes "finite (dom m)" "m a = None"
  shows "block_charges (m(a \<mapsto> b)) o1 =
    (if bk_owner b = Some o1 then add_mset (bk_charged b, bk_placement b) (block_charges m o1)
     else block_charges m o1)"
proof -
  have fin: "finite (owned m o1)" using assms(1) by (rule owned_finite)
  have out: "a \<notin> owned m o1" using assms(2) by (simp add: owned_def)
  have same: "image_mset (\<lambda>x. block_charge ((m(a \<mapsto> b)) x)) (mset_set (owned m o1)) = block_charges m o1"
    unfolding block_charges_def by (rule image_mset_cong) (use fin out in auto)
  have "owned (m(a \<mapsto> b)) o1 = (if bk_owner b = Some o1 then insert a (owned m o1) else owned m o1)"
    using assms(2) by (auto simp: owned_def)
  then show ?thesis using same fin out by (auto simp: block_charges_def block_charge_def)
qed

lemma block_charges_remove:
  assumes "finite (dom m)" "m a = Some b"
  shows "block_charges m o1 =
    (if bk_owner b = Some o1 then add_mset (bk_charged b, bk_placement b) (block_charges (m(a := None)) o1)
     else block_charges (m(a := None)) o1)"
proof -
  have "finite (dom (m(a := None)))" "(m(a := None)) a = None" using assms by simp_all
  note add = block_charges_add [OF this, of b o1]
  have "(m(a := None))(a \<mapsto> b) = m" using assms(2) by auto
  from add [unfolded this] show ?thesis .
qed

lemma block_charges_bytes:
  assumes "m a = Some b"
  shows "block_charges (m(a \<mapsto> b\<lparr>bk_bytes := bs\<rparr>)) o1 = block_charges m o1"
proof -
  have "owned (m(a \<mapsto> b\<lparr>bk_bytes := bs\<rparr>)) o1 = owned m o1" using assms by (auto simp: owned_def)
  then show ?thesis unfolding block_charges_def
    by (simp, intro image_mset_cong) (use assms in \<open>auto simp: block_charge_def\<close>)
qed

lemma charges_simps [simp]:
  "inflight_charges (us @ i # vs) o1 =
    (if if_owner i = Some o1 then add_mset (if_charge i, if_placement i) (inflight_charges (us @ vs) o1)
     else inflight_charges (us @ vs) o1)"
  "inflight_charges (i # vs) o1 =
    (if if_owner i = Some o1 then add_mset (if_charge i, if_placement i) (inflight_charges vs o1)
     else inflight_charges vs o1)"
  "retiring_charges (us' @ t # vs') o1 =
    (if rt_owner t = o1 then add_mset (rt_charge t, rt_placement t) (retiring_charges (us' @ vs') o1)
     else retiring_charges (us' @ vs') o1)"
  "retiring_charges (t # vs') o1 =
    (if rt_owner t = o1 then add_mset (rt_charge t, rt_placement t) (retiring_charges vs' o1)
     else retiring_charges vs' o1)"
  by (simp_all add: inflight_charges_def retiring_charges_def)

lemma token_charges_put:
  assumes "k < length ts"
  shows "token_charges (ts[k := t]) o1 + (if rv_owner (ts ! k) = Some o1
      then {#(rv_bytes (ts ! k), rv_placement (ts ! k))#} else {#}) =
    token_charges ts o1 + (if rv_owner t = Some o1 then {#(rv_bytes t, rv_placement t)#} else {#})"
proof -
  have split: "ts = take k ts @ ts ! k # drop (Suc k) ts" using assms by (simp add: id_take_nth_drop)
  have "ts[k := t] = take k ts @ t # drop (Suc k) ts" using assms by (rule upd_conv_take_nth_drop)
  then show ?thesis by (subst (2) split) (simp add: token_charges_def)
qed

lemma owner_ok_put [simp]: "owner_ok (put_ledger y o1 l) owner = owner_ok y owner"
  by (simp add: owner_ok_def put_ledger_def split: option.split)

lemma owner_ok_updates [simp]:
  "owner_ok (y\<lparr>my_blocks := m\<rparr>) owner = owner_ok y owner" "owner_ok (y\<lparr>my_next := n\<rparr>) owner = owner_ok y owner"
  "owner_ok (y\<lparr>my_heap_calls := n\<rparr>) owner = owner_ok y owner" "owner_ok (y\<lparr>my_tokens := ts\<rparr>) owner = owner_ok y owner"
  "owner_ok (y\<lparr>my_scope := sc\<rparr>) owner = owner_ok y owner"
  by (simp_all add: owner_ok_def split: option.split)

lemma memory_put [simp]:
  "my_blocks (put_ledger y o1 l) = my_blocks y" "my_tokens (put_ledger y o1 l) = my_tokens y"
  "my_next (put_ledger y o1 l) = my_next y" "my_aborted (put_ledger y o1 l) = my_aborted y"
  "length (my_ledgers (put_ledger y o1 l)) = length (my_ledgers y)"
  by (simp_all add: put_ledger_def)

text \<open>The invariant after a ledger \<open>o1\<close> and the charges of \<open>o1\<close> alone have changed.\<close>

lemma mem_inv_ledger:
  assumes "mem_inv (y, I, T)" "o1 < length (my_ledgers y)"
    and "records l (allocations (y', I', T') o1) (token_charges (my_tokens y') o1)"
    and "\<And>o2. o2 \<noteq> o1 \<Longrightarrow> allocations (y', I', T') o2 = allocations (y, I, T) o2 \<and>
           token_charges (my_tokens y') o2 = token_charges (my_tokens y) o2"
    and "y' = (put_ledger y o1 l)\<lparr>my_blocks := m, my_tokens := ts\<rparr>"
    and "finite (dom m)" "\<And>a. a \<in> dom m \<Longrightarrow> a < my_next y" "\<And>b. b \<in> ran m \<Longrightarrow> owner_ok y (bk_owner b)"
    and "\<And>t. t \<in> set ts \<Longrightarrow> owner_ok y (rv_owner t)" "\<And>t. t \<in> set T' \<Longrightarrow> rt_owner t < length (my_ledgers y)"
    and "\<And>i. i \<in> set I' \<Longrightarrow> owner_ok y (if_owner i)"
  shows "mem_inv (y', I', T')"
proof -
  have ok: "owner_ok y' owner = owner_ok y owner" for owner
    using assms(5) by (simp add: owner_ok_def put_ledger_def split: option.split)
  have "records (my_ledgers y' ! o2) (allocations (y', I', T') o2) (token_charges (my_tokens y') o2)"
    if "o2 < length (my_ledgers y)" for o2
    using that assms(1-5) by (cases "o2 = o1") (simp_all add: put_ledger_def)
  with assms(1,5-11) ok show ?thesis by (simp add: put_ledger_def)
qed

lemma allocations_eq:
  "allocations (y, I, T) o1 =
    block_charges (my_blocks y) o1 + inflight_charges I o1 + retiring_charges T o1"
  by (simp add: allocations_def)

lemma mem_invD:
  assumes "mem_inv (y, I, T)"
  shows "\<not> my_aborted y" "finite (dom (my_blocks y))" "\<And>a. a \<in> dom (my_blocks y) \<Longrightarrow> a < my_next y"
    "\<And>t. t \<in> set T \<Longrightarrow> rt_owner t < length (my_ledgers y)" "\<And>i. i \<in> set I \<Longrightarrow> owner_ok y (if_owner i)"
    "\<And>b. b \<in> ran (my_blocks y) \<Longrightarrow> owner_ok y (bk_owner b)"
    "\<And>t. t \<in> set (my_tokens y) \<Longrightarrow> owner_ok y (rv_owner t)"
    "\<And>o1. o1 < length (my_ledgers y) \<Longrightarrow>
      records (my_ledgers y ! o1) (allocations (y, I, T) o1) (token_charges (my_tokens y) o1)"
  using assms by simp_all

text \<open>The same blocks and tokens, with another ledger \<open>o1\<close> and other tasks under way.\<close>

lemma mem_inv_put:
  assumes inv: "mem_inv (y, I, T)" and o1: "o1 < length (my_ledgers y)"
    and rec: "records l (allocations (y, I', T') o1) (token_charges (my_tokens y) o1)"
    and same: "\<And>o2. o2 \<noteq> o1 \<Longrightarrow> allocations (y, I', T') o2 = allocations (y, I, T) o2"
    and "\<And>t. t \<in> set T' \<Longrightarrow> rt_owner t < length (my_ledgers y)" "\<And>i. i \<in> set I' \<Longrightarrow> owner_ok y (if_owner i)"
  shows "mem_inv (put_ledger y o1 l, I', T')"
  by (rule mem_inv_ledger [OF inv o1, where l = l and m = "my_blocks y" and ts = "my_tokens y"])
    (use assms mem_invD [OF inv] in \<open>simp_all add: allocations_eq put_ledger_def\<close>)

lemma mem_inv_failure:
  assumes "mem_inv (y, I, T)" "owner_ok y owner"
  shows "mem_inv (note_failure y owner, I, T)"
proof (cases owner)
  case (Some o1)
  then have "o1 < length (my_ledgers y)" using assms(2) by (simp add: owner_ok_def)
  with Some assms(1) show ?thesis unfolding note_failure_def
    by (simp del: mem_inv.simps, intro mem_inv_put [OF assms(1)]) (use mem_invD [OF assms(1)] in simp_all)
qed (use assms in \<open>simp add: note_failure_def\<close>)

lemma mem_inv_admit:
  assumes inv: "mem_inv (y, I, T)" and ok: "owner_ok y owner" and adm: "admit_for y owner ch pl False = (True, y')"
  shows "mem_inv (y', \<lparr>if_owner = owner, if_payload = n, if_charge = ch, if_placement = pl\<rparr> # I, T)"
proof (cases owner)
  case None
  with adm inv show ?thesis by (simp add: admit_for_def owner_ok_def allocations_eq)
next
  case (Some o1)
  have o1: "o1 < length (my_ledgers y)" using ok Some by (simp add: owner_ok_def)
  obtain l where l: "admit (my_ledgers y ! o1) ch pl False = (True, l)" "y' = put_ledger y o1 l"
    using adm Some by (auto simp: admit_for_def split: prod.splits)
  show ?thesis unfolding l(2)
  proof (rule mem_inv_put [OF inv o1])
    from admit_records(1) [OF mem_invD(8) [OF inv o1] l(1)]
    show "records l (allocations (y, \<lparr>if_owner = owner, if_payload = n, if_charge = ch, if_placement = pl\<rparr> # I, T) o1)
        (token_charges (my_tokens y) o1)" by (simp add: allocations_eq Some)
  qed (use Some ok mem_invD [OF inv] in \<open>auto simp: allocations_eq\<close>)
qed

lemma mem_inv_refuse:
  assumes inv: "mem_inv (y, I, T)" and ok: "owner_ok y owner" and adm: "admit_for y owner ch pl reservation = (False, y')"
  shows "mem_inv (y', I, T)"
proof (cases owner)
  case None
  with adm inv show ?thesis by (simp add: admit_for_def)
next
  case (Some o1)
  have o1: "o1 < length (my_ledgers y)" using ok Some by (simp add: owner_ok_def)
  obtain l where l: "admit (my_ledgers y ! o1) ch pl reservation = (False, l)" "y' = put_ledger y o1 l"
    using adm Some by (auto simp: admit_for_def split: prod.splits)
  show ?thesis unfolding l(2)
    by (rule mem_inv_put [OF inv o1])
      (use admit_records(3) [OF mem_invD(8) [OF inv o1] l(1)] mem_invD [OF inv] in simp_all)
qed

lemma mem_inv_retire:
  assumes inv: "mem_inv (y, I, T)" and o1: "o1 < length (my_ledgers y)"
    and more: "allocations (y, I, T) o1 = add_mset (ch, pl) (allocations (y, I', T') o1)"
    and same: "\<And>o2. o2 \<noteq> o1 \<Longrightarrow> allocations (y, I', T') o2 = allocations (y, I, T) o2"
    and sub: "set I' \<subseteq> set I" "set T' \<subseteq> set T"
  shows "mem_inv (retire_at y o1 ch pl False, I', T')"
proof -
  obtain l where l: "retire (my_ledgers y ! o1) ch pl False = Some l"
      "records l (allocations (y, I', T') o1) (token_charges (my_tokens y) o1)"
    using retire_allocation [OF mem_invD(8) [OF inv o1, unfolded more]] .
  then show ?thesis unfolding retire_at_def
    by (simp del: mem_inv.simps, intro mem_inv_put [OF inv o1]) (use same sub mem_invD [OF inv] in auto)
qed

lemma heap_alloc_cases:
  assumes "heap_alloc pf y owner n ch pl strict = (r, y')"
  obtains (granted) "r = Some (my_next y)" "y' = y\<lparr>my_heap_calls := my_heap_calls y + 1, my_next := my_next y + 1,
      my_blocks := (my_blocks y)(my_next y \<mapsto> \<lparr>bk_owner = owner, bk_payload = n, bk_charged = ch,
        bk_placement = pl, bk_bytes = replicate n None\<rparr>)\<rparr>"
  | (exhausted) "r = None" "y' = y\<lparr>my_heap_calls := my_heap_calls y + 1\<rparr>"
  using assms by (auto simp: heap_alloc_def Let_def split: if_splits)

lemma mem_inv_heap_calls [simp]: "mem_inv (y\<lparr>my_heap_calls := k\<rparr>, I, T) = mem_inv (y, I, T)"
  by (simp add: allocations_eq owner_ok_def split: option.split)

lemma mem_inv_served:
  assumes inv: "mem_inv (y, us @ i # vs, T)"
    and heap: "heap_alloc pf y (if_owner i) (if_payload i) (if_charge i) (if_placement i) strict = (Some a, y')"
  shows "mem_inv (y', us @ vs, T)"
  using heap
proof (cases rule: heap_alloc_cases)
  case granted
  note D = mem_invD [OF inv]
  have free: "my_blocks y (my_next y) = None" using D(3) [of "my_next y"] by auto
  have ok: "owner_ok y' owner = owner_ok y owner" for owner by (simp add: granted)
  have "allocations (y', us @ vs, T) o1 = allocations (y, us @ i # vs, T) o1" for o1
    using block_charges_add [OF D(2) free] by (simp add: allocations_eq granted)
  moreover have "a < my_next y'" if "a \<in> dom (my_blocks y')" for a
    using that D(3) [of a] by (auto simp: granted dom_def split: if_splits)
  moreover have "owner_ok y (bk_owner b)" if "b \<in> ran (my_blocks y')" for b
    using that D(5) [of i] D(6) free by (auto simp: granted)
  ultimately show ?thesis using D by (simp add: ok) (simp add: granted)
next
  case exhausted
  then show ?thesis by simp
qed

lemma mem_inv_denied:
  assumes inv: "mem_inv (y, us @ i # vs, T)"
    and heap: "heap_alloc pf y (if_owner i) (if_payload i) (if_charge i) (if_placement i) strict = (None, y')"
  shows "mem_inv (heap_failed y' (if_owner i) (if_charge i) (if_placement i), us @ vs, T)"
  using heap
proof (cases rule: heap_alloc_cases)
  case exhausted
  have inv': "mem_inv (y', us @ i # vs, T)" using inv by (simp add: exhausted del: mem_inv.simps)
  show ?thesis
  proof (cases "if_owner i")
    case None
    with inv' show ?thesis by (simp add: heap_failed_def allocations_eq)
  next
    case (Some o1)
    have o1: "o1 < length (my_ledgers y')" using mem_invD(5) [OF inv', of i] Some by (simp add: owner_ok_def)
    have "mem_inv (retire_at y' o1 (if_charge i) (if_placement i) False, us @ vs, T)"
      by (rule mem_inv_retire [OF inv' o1]) (auto simp: allocations_eq Some)
    then show ?thesis unfolding heap_failed_def Some option.case
    proof (rule mem_inv_failure)
      show "owner_ok (retire_at y' o1 (if_charge i) (if_placement i) False) (Some o1)"
        using o1 by (simp add: owner_ok_def retire_at_def split: option.split)
    qed
  qed
qed simp

lemma mem_inv_freed:
  assumes inv: "mem_inv (y, I, T)" and b: "my_blocks y a = Some b" "bk_owner b = Some o1"
  shows "mem_inv (y\<lparr>my_blocks := (my_blocks y)(a := None)\<rparr>, I,
    \<lparr>rt_owner = o1, rt_charge = bk_charged b, rt_placement = bk_placement b\<rparr> # T)"
proof -
  note D = mem_invD [OF inv]
  have o1: "o1 < length (my_ledgers y)"
    using D(6) [of b] b by (auto simp: ranI owner_ok_def)
  have "allocations (y\<lparr>my_blocks := (my_blocks y)(a := None)\<rparr>, I,
      \<lparr>rt_owner = o1, rt_charge = bk_charged b, rt_placement = bk_placement b\<rparr> # T) o2 =
    allocations (y, I, T) o2" for o2
    using block_charges_remove [OF D(2) b(1), of o2] b(2) by (simp add: allocations_eq)
  moreover have "owner_ok y (bk_owner c)" if "c \<in> ran ((my_blocks y)(a := None))" for c
    using that D(6) [of c] by (auto simp: ran_def split: if_splits)
  ultimately show ?thesis using D o1 by simp
qed

lemma mem_inv_freed_unowned:
  assumes inv: "mem_inv (y, I, T)" and b: "my_blocks y a = Some b" "bk_owner b = None"
  shows "mem_inv (y\<lparr>my_blocks := (my_blocks y)(a := None)\<rparr>, I, T)"
proof -
  note D = mem_invD [OF inv]
  have "allocations (y\<lparr>my_blocks := (my_blocks y)(a := None)\<rparr>, I, T) o2 = allocations (y, I, T) o2" for o2
    using block_charges_remove [OF D(2) b(1), of o2] b(2) by (simp add: allocations_eq)
  moreover have "owner_ok y (bk_owner c)" if "c \<in> ran ((my_blocks y)(a := None))" for c
    using that D(6) [of c] by (auto simp: ran_def split: if_splits)
  ultimately show ?thesis using D by simp
qed

lemma mem_inv_bytes:
  assumes inv: "mem_inv (y, I, T)"
  shows "mem_inv (set_bytes y a bs, I, T)"
proof (cases "my_blocks y a")
  case (Some b)
  note D = mem_invD [OF inv]
  have "owner_ok y (bk_owner c)" if "c \<in> ran ((my_blocks y)(a \<mapsto> b\<lparr>bk_bytes := bs\<rparr>))" for c
    using that D(6) [of c] D(6) [OF ranI [of "my_blocks y", OF Some]] by (auto simp: ran_def split: if_splits)
  moreover have "allocations (y\<lparr>my_blocks := (my_blocks y)(a \<mapsto> b\<lparr>bk_bytes := bs\<rparr>)\<rparr>, I, T) o2 =
      allocations (y, I, T) o2" for o2
    by (simp add: allocations_eq block_charges_bytes [of "my_blocks y", OF Some])
  moreover have "a \<in> dom (my_blocks y)" using Some by (rule domI)
  ultimately show ?thesis using D Some by (simp add: set_bytes_def insert_absorb)
qed (use inv in \<open>simp add: set_bytes_def\<close>)

lemma mem_inv_reserve:
  assumes inv: "mem_inv (y, I, T)" and ok: "owner_ok y owner" and k: "k < length (my_tokens y)"
    and res: "memory_reserve y owner k n pl = (r, y')"
  shows "mem_inv (y', I, T)"
proof -
  note D = mem_invD [OF inv]
  obtain g y1 where adm: "admit_for y owner n pl True = (g, y1)" by fastforce
  consider "y' = y" | "\<not> g" "y' = y1"
    | "g" "rv_owner (my_tokens y ! k) = None" "y' = y1\<lparr>my_tokens := (my_tokens y1)[k :=
        \<lparr>rv_owner = owner, rv_bytes = n, rv_placement = pl\<rparr>]\<rparr>"
    using res adm by (auto simp: memory_reserve_def split: if_splits bool.splits)
  then show ?thesis
  proof cases
    case 1
    then show ?thesis using inv by simp
  next
    case 2
    with adm mem_inv_refuse [OF inv ok, of n pl True] show ?thesis by simp
  next
    case 3
    obtain o1 where o1: "owner = Some o1" using adm 3(1) by (cases owner) (auto simp: admit_for_def)
    have lt: "o1 < length (my_ledgers y)" using ok o1 by (simp add: owner_ok_def)
    obtain l where l: "admit (my_ledgers y ! o1) n pl True = (True, l)" "y1 = put_ledger y o1 l"
      using adm o1 3(1) by (auto simp: admit_for_def split: prod.splits)
    let ?t = "\<lparr>rv_owner = owner, rv_bytes = n, rv_placement = pl\<rparr>"
    have tok: "token_charges ((my_tokens y)[k := ?t]) o2 =
        (if o2 = o1 then add_mset (n, pl) (token_charges (my_tokens y) o2) else token_charges (my_tokens y) o2)" for o2
      using token_charges_put [OF k, of ?t o2] 3(2) o1 by auto
    show ?thesis
    proof (rule mem_inv_ledger [OF inv lt, where l = l and m = "my_blocks y" and ts = "(my_tokens y)[k := ?t]"])
      show "records l (allocations (y', I, T) o1) (token_charges (my_tokens y') o1)"
        using admit_records(2) [OF D(8) [OF lt] l(1)] tok [of o1] by (simp add: 3(3) l(2) allocations_eq)
      show "owner_ok y (rv_owner t)" if "t \<in> set ((my_tokens y)[k := ?t])" for t
        using set_list_updateD [OF that] D(7) ok by auto
    qed (use D tok in \<open>simp_all add: 3(3) l(2) allocations_eq put_ledger_def\<close>)
  qed
qed

lemma mem_inv_release:
  assumes inv: "mem_inv (y, I, T)" and k: "k < length (my_tokens y)"
  shows "mem_inv (memory_release y k, I, T)"
proof (cases "rv_owner (my_tokens y ! k)")
  case None
  with inv show ?thesis by (simp add: memory_release_def)
next
  case (Some o1)
  note D = mem_invD [OF inv]
  let ?t = "my_tokens y ! k"
  have lt: "o1 < length (my_ledgers y)" using D(7) [of ?t] k Some by (simp add: owner_ok_def)
  have tok: "token_charges (my_tokens y) o2 = (if o2 = o1
      then add_mset (rv_bytes ?t, rv_placement ?t) (token_charges ((my_tokens y)[k := zero_token]) o2)
      else token_charges ((my_tokens y)[k := zero_token]) o2)" for o2
    using token_charges_put [OF k, of zero_token o2] Some by (auto simp: zero_token_def)
  obtain l where l: "retire (my_ledgers y ! o1) (rv_bytes ?t) (rv_placement ?t) True = Some l"
      "records l (allocations (y, I, T) o1) (token_charges ((my_tokens y)[k := zero_token]) o1)"
    using D(8) [OF lt] tok [of o1] by (auto elim: retire_reservation)
  have eq: "memory_release y k = (put_ledger y o1 l)\<lparr>my_tokens := (my_tokens y)[k := zero_token]\<rparr>"
    using Some l(1) by (simp add: memory_release_def retire_at_def Let_def)
  show ?thesis
  proof (rule mem_inv_ledger [OF inv lt, where l = l and m = "my_blocks y" and ts = "(my_tokens y)[k := zero_token]"])
    show "owner_ok y (rv_owner t)" if "t \<in> set ((my_tokens y)[k := zero_token])" for t
      using set_list_updateD [OF that] D(7) by (auto simp: zero_token_def owner_ok_def)
  qed (use D tok l in \<open>simp_all add: eq allocations_eq put_ledger_def\<close>)
qed

lemma mem_step_inv: "mem_step pf s s' \<Longrightarrow> mem_inv s \<Longrightarrow> mem_inv s'"
proof (induction rule: mem_step.induct)
  case (retired y I us t vs)
  then show ?case
    by (intro mem_inv_retire [OF retired]) (use mem_invD(4) [OF retired, of t] in \<open>auto simp: allocations_eq\<close>)
next
  case (opened o1 y limit external ok l I T)
  show ?case
    by (rule mem_inv_put [OF opened(3,1)])
      (use open_records(1) [OF mem_invD(8) [OF opened(3,1)] opened(2)] mem_invD [OF opened(3)] in simp_all)
next
  case (closed o1 y I T)
  show ?case
    by (rule mem_inv_put [OF closed(2,1)]) (use mem_invD [OF closed(2)] closed(1) in simp_all)
next
  case (scoped y I T sc)
  then show ?case by (simp add: scope_leave_def allocations_eq)
qed (rule mem_inv_admit mem_inv_refuse mem_inv_failure mem_inv_served mem_inv_denied mem_inv_bytes
  mem_inv_freed mem_inv_freed_unowned mem_inv_reserve mem_inv_release, assumption+)+

section \<open>Operations as runs\<close>

abbreviation mem_run :: "platform \<Rightarrow> tasks \<Rightarrow> tasks \<Rightarrow> bool" where
  "mem_run pf \<equiv> (mem_step pf)\<^sup>*\<^sup>*"

definition fresh_memory :: "nat \<Rightarrow> nat \<Rightarrow> memory" where
  "fresh_memory ledgers tokens =
     \<lparr>my_ledgers = replicate ledgers zero_ledger, my_blocks = Map.empty, my_next = 0,
      my_tokens = replicate tokens zero_token, my_scope = \<lparr>sc_owner = None, sc_placement = INTERNAL\<rparr>,
      my_heap_calls = 0, my_aborted = False\<rparr>"

lemma fresh_memory_inv: "mem_inv (fresh_memory n k, [], [])"
  by (simp add: fresh_memory_def allocations_eq block_charges_def owned_def inflight_charges_def
      retiring_charges_def token_charges_def records_def zero_ledger_def zero_token_def owner_ok_def)

lemma mem_run_inv: "mem_run pf s s' \<Longrightarrow> mem_inv s \<Longrightarrow> mem_inv s'"
  by (induction rule: rtranclp_induct) (auto intro: mem_step_inv)


lemma allocate_in_run:
  assumes "allocate_in pf y owner n pl strict = (r, y')" "owner_ok y owner"
  shows "mem_run pf (y, I, T) (y', I, T)"
proof -
  let ?ch = "memory_charge pf n"
  obtain g y1 where adm: "admit_for y owner ?ch pl False = (g, y1)" by fastforce
  obtain q y2 where heap: "heap_alloc pf y1 owner n ?ch pl strict = (q, y2)" by fastforce
  consider "y' = y" | "y' = note_failure y owner" | "\<not> g" "y' = y1"
    | "g" "q = None" "y' = heap_failed y2 owner ?ch pl" | a where "g" "q = Some a" "y' = y2"
    using assms(1) adm heap by (auto simp: allocate_in_def Let_def split: if_splits bool.splits option.splits)
  then show ?thesis
  proof cases
    case 3
    with adm assms(2) show ?thesis by (auto intro: mem_step.refused)
  next
    case 4
    let ?i = "\<lparr>if_owner = owner, if_payload = n, if_charge = ?ch, if_placement = pl\<rparr>"
    have "mem_step pf (y, I, T) (y1, ?i # I, T)" using adm 4(1) assms(2) by (auto intro: mem_step.admitted)
    moreover have "mem_step pf (y1, [] @ ?i # I, T) (heap_failed y2 owner ?ch pl, [] @ I, T)"
      using mem_step.denied [of pf y1 ?i strict y2 "[]" I T] heap 4(2) by simp
    ultimately show ?thesis using 4(3) by simp
  next
    case 5
    let ?i = "\<lparr>if_owner = owner, if_payload = n, if_charge = ?ch, if_placement = pl\<rparr>"
    have "mem_step pf (y, I, T) (y1, ?i # I, T)" using adm 5(1) assms(2) by (auto intro: mem_step.admitted)
    moreover have "mem_step pf (y1, [] @ ?i # I, T) (y2, [] @ I, T)"
      using mem_step.served [of pf y1 ?i strict a y2 "[]" I T] heap 5(2) by simp
    ultimately show ?thesis using 5(3) by simp
  qed (use assms(2) in \<open>auto intro: mem_step.failed\<close>)
qed

lemma memory_free_run:
  assumes "my_blocks y a = Some b"
  shows "mem_run pf (y, I, T) (memory_free y (Some a), I, T)"
proof (cases "bk_owner b")
  case None
  with assms show ?thesis by (auto simp: memory_free_def intro: mem_step.freed_unowned)
next
  case (Some o1)
  let ?y = "y\<lparr>my_blocks := (my_blocks y)(a := None)\<rparr>"
  let ?t = "\<lparr>rt_owner = o1, rt_charge = bk_charged b, rt_placement = bk_placement b\<rparr>"
  have "mem_step pf (y, I, T) (?y, I, ?t # T)" using assms Some by (rule mem_step.freed)
  moreover have "mem_step pf (?y, I, [] @ ?t # T) (memory_free y (Some a), I, [] @ T)"
    using mem_step.retired [of pf ?y I "[]" ?t T] assms Some by (simp add: memory_free_def)
  ultimately show ?thesis by simp
qed

lemma allocate_in_blocks:
  assumes "allocate_in pf y owner n pl strict = (r, y')"
  shows "case r of None \<Rightarrow> my_blocks y' = my_blocks y
    | Some a \<Rightarrow> a = my_next y \<and> my_blocks y' = (my_blocks y)(a \<mapsto>
        \<lparr>bk_owner = owner, bk_payload = n, bk_charged = memory_charge pf n, bk_placement = pl,
         bk_bytes = replicate n None\<rparr>)"
proof -
  let ?ch = "memory_charge pf n"
  obtain g y1 where adm: "admit_for y owner ?ch pl False = (g, y1)" by fastforce
  have y1: "my_blocks y1 = my_blocks y" "my_next y1 = my_next y"
    using adm by (auto simp: admit_for_def split: option.splits prod.splits)
  obtain q y2 where heap: "heap_alloc pf y1 owner n ?ch pl strict = (q, y2)" by fastforce
  have note_f: "my_blocks (note_failure z w) = my_blocks z" for z w
    by (simp add: note_failure_def split: option.split)
  have hf: "my_blocks (heap_failed z owner ?ch pl) = my_blocks z" for z
    by (simp add: heap_failed_def note_f retire_at_def split: option.split)
  consider "r = None" "y' = y" | "r = None" "y' = note_failure y owner" | "r = None" "y' = y1"
    | "r = None" "q = None" "y' = heap_failed y2 owner ?ch pl" | a where "r = Some a" "q = Some a" "y' = y2"
    using assms(1) adm heap by (auto simp: allocate_in_def Let_def split: if_splits bool.splits option.splits)
  then show ?thesis
    by cases (use heap y1 in \<open>auto simp: note_f hf elim!: heap_alloc_cases\<close>)
qed

lemma memory_malloc_run:
  assumes "owner_ok y owner"
  shows "mem_run pf (y, I, T) (snd (memory_malloc pf y owner n pl), I, T)"
  using allocate_in_run [of pf y owner n pl False] assms
  by (cases "allocate_in pf y owner n pl False") (auto simp: memory_malloc_def)

lemma zero_fill_run: "mem_run pf (snd r, I, T) (snd (zero_fill r n), I, T)"
  by (cases r) (auto simp: zero_fill_def intro: mem_step.written split: option.split)

lemma memory_calloc_run:
  assumes "owner_ok y owner"
  shows "mem_run pf (y, I, T) (snd (memory_calloc pf y owner n_items n pl), I, T)"
  using rtranclp_trans [OF memory_malloc_run zero_fill_run] mem_step.failed [OF assms] assms
  by (auto simp: memory_calloc_def)

lemma allocate_zeroed_run:
  assumes "owner_ok y owner"
  shows "mem_run pf (y, I, T) (snd (zero_fill (allocate_in pf y owner n pl strict) k), I, T)"
proof -
  have "mem_run pf (y, I, T) (snd (allocate_in pf y owner n pl strict), I, T)"
    using allocate_in_run [of pf y owner n pl strict] assms by (cases "allocate_in pf y owner n pl strict") auto
  then show ?thesis by (rule rtranclp_trans) (rule zero_fill_run)
qed

lemma memory_realloc_run:
  assumes inv: "mem_inv (y, I, T)" and ok: "owner_ok y owner" and b: "my_blocks y a = Some b"
  shows "mem_run pf (y, I, T) (snd (memory_realloc pf y owner (Some a) n pl), I, T)"
proof (cases "owner = bk_owner b \<and> n \<noteq> 0")
  case False
  then show ?thesis using b memory_free_run [OF b] mem_step.failed [OF ok]
    by (auto simp: memory_realloc_def)
next
  case True
  obtain q y1 where m: "memory_malloc pf y owner n (bk_placement b) = (q, y1)" by fastforce
  have run1: "mem_run pf (y, I, T) (y1, I, T)"
    using memory_malloc_run [OF ok, of pf I T n "bk_placement b"] m by simp
  show ?thesis
  proof (cases q)
    case None
    with True b m run1 show ?thesis by (simp add: memory_realloc_def)
  next
    case (Some a')
    let ?y2 = "set_bytes y1 a' (take (min n (bk_payload b)) (bk_bytes b) @
      replicate (n - min n (bk_payload b)) None)"
    have "a < my_next y" using mem_invD(3) [OF inv, of a] b by auto
    then have "my_blocks y1 a = Some b" "a' \<noteq> a"
      using m Some b allocate_in_blocks [of pf y owner n "bk_placement b" False q y1]
      by (auto simp: memory_malloc_def split: if_splits)
    then have "my_blocks ?y2 a = Some b" by (simp add: set_bytes_def split: option.split)
    from memory_free_run [OF this] mem_step.written
    have "mem_run pf (y1, I, T) (memory_free ?y2 (Some a), I, T)" by (rule converse_rtranclp_into_rtranclp [rotated])
    with run1 True b m Some show ?thesis by (simp add: memory_realloc_def Let_def)
  qed
qed





lemma retire_at_fields [simp]:
  "my_tokens (retire_at y o1 ch pl res) = my_tokens y" "my_blocks (retire_at y o1 ch pl res) = my_blocks y"
  by (simp_all add: retire_at_def split: option.split)

lemma note_failure_fields [simp]:
  "my_tokens (note_failure y owner) = my_tokens y" "my_blocks (note_failure y owner) = my_blocks y"
  by (simp_all add: note_failure_def split: option.split)




text \<open>A platform whose heap always answers, with one ledger open at 1000 bytes and a block of 100.\<close>

definition example_platform :: platform where
  "example_platform = \<lparr>pf_size_max = 4294967295, pf_header = 32, pf_esp = False, pf_spiram = 0,
     pf_spiram8 = 0, pf_heap = \<lambda>_ _ _. True, pf_internal_limit = 1000\<rparr>"

definition example_open :: memory where
  "example_open = snd (runtime_memory_open example_platform (fresh_memory 1 1))"

definition example_block :: memory where
  "example_block = snd (net_malloc example_platform example_open 100)"

lemmas example_memory_defs = example_block_def example_open_def example_platform_def fresh_memory_def
  net_malloc_def runtime_memory_open_def runtime_owner_def default_placement_def external_available_def
  runtime_memory_limit_def ledger_open_def memory_malloc_def allocate_in_def memory_charge_def
  admit_for_def admit_def heap_alloc_def put_ledger_def zero_ledger_def Let_def

lemma example_run: "mem_run example_platform (fresh_memory 1 1, [], []) (example_block, [], [])"
proof -
  have ok: "owner_ok example_open runtime_owner"
    by (simp add: owner_ok_def runtime_owner_def example_open_def runtime_memory_open_def fresh_memory_def
        put_ledger_def split: prod.split)
  have "mem_step example_platform (fresh_memory 1 1, [], []) (example_open, [], [])"
    unfolding example_open_def runtime_memory_open_def
    by (auto simp: fresh_memory_def split: prod.split intro!: mem_step.opened)
  moreover have "mem_run example_platform (example_open, [], []) (example_block, [], [])"
    using allocate_in_run [OF _ ok, of example_platform 100 "default_placement example_open" False]
    by (cases "allocate_in example_platform example_open runtime_owner 100 (default_placement example_open) False")
      (simp add: example_block_def net_malloc_def memory_malloc_def runtime_owner_def)
  ultimately show ?thesis by (rule converse_rtranclp_into_rtranclp)
qed

section \<open>Properties\<close>

text \<open>C14: in every interleaving of the tasks' critical sections and heap calls no assertion of the
  ledger fails, and each ledger's counters are exact: its bytes are the charges of the live blocks it
  owns, of the allocations in flight, of the blocks being retired and of its reservations, within its
  limit and its high-water mark.\<close>

theorem ledger_accounting:
  assumes "mem_run pf (fresh_memory n k, [], []) (y, I, T)" and "o1 < length (my_ledgers y)"
  shows "\<not> my_aborted y \<and>
    le_current_bytes (my_ledgers y ! o1) =
      bytes_of (allocations (y, I, T) o1) + bytes_of (token_charges (my_tokens y) o1) \<and>
    le_internal_bytes (my_ledgers y ! o1) + le_external_bytes (my_ledgers y ! o1) =
      le_current_bytes (my_ledgers y ! o1) \<and>
    le_allocation_count (my_ledgers y ! o1) = size (allocations (y, I, T) o1) \<and>
    le_reservation_count (my_ledgers y ! o1) = size (token_charges (my_tokens y) o1) \<and>
    le_current_bytes (my_ledgers y ! o1) \<le> le_high_water_bytes (my_ledgers y ! o1) \<and>
    le_high_water_bytes (my_ledgers y ! o1) \<le> le_limit_bytes (my_ledgers y ! o1)"
proof -
  have inv: "mem_inv (y, I, T)" by (rule mem_run_inv [OF assms(1) fresh_memory_inv])
  from mem_invD(1) [OF inv] mem_invD(8) [OF inv assms(2)] show ?thesis by (simp add: records_def)
qed

theorem ledger_accounting_witness:
  "mem_run example_platform (fresh_memory 1 1, [], []) (example_block, [], []) \<and>
   le_current_bytes (my_ledgers example_block ! 0) =
     bytes_of (allocations (example_block, [], []) 0) + bytes_of (token_charges (my_tokens example_block) 0) \<and>
   le_current_bytes (my_ledgers example_block ! 0) = 132"
proof -
  have len: "0 < length (my_ledgers example_block)" and cur: "le_current_bytes (my_ledgers example_block ! 0) = 132"
    by (simp_all add: example_memory_defs)
  from ledger_accounting [OF example_run len] cur example_run show ?thesis by blast
qed







text \<open>C17: a ledger reports itself drained exactly when no block, no allocation in flight, no block
  being retired and no reservation of its own is left, and only then can it be reopened.\<close>

theorem drained_exact:
  assumes "mem_run pf (fresh_memory n k, [], []) (y, I, T)" and "o1 < length (my_ledgers y)"
  shows "(ledger_drained (my_ledgers y ! o1) \<longleftrightarrow>
      allocations (y, I, T) o1 = {#} \<and> token_charges (my_tokens y) o1 = {#}) \<and>
    (\<forall>limit external l. ledger_open pf (my_ledgers y ! o1) limit external = (True, l) \<longrightarrow>
      allocations (y, I, T) o1 = {#} \<and> token_charges (my_tokens y) o1 = {#} \<and> le_current_bytes l = 0)"
proof -
  have inv: "mem_inv (y, I, T)" by (rule mem_run_inv [OF assms(1) fresh_memory_inv])
  note rec = mem_invD(8) [OF inv assms(2)]
  have "le_current_bytes l = 0" if "ledger_open pf (my_ledgers y ! o1) limit external = (True, l)" for limit external l
    using that by (auto simp: ledger_open_def zero_ledger_def split: if_splits)
  with drained_records [OF rec] open_records(2) [OF rec] show ?thesis by blast
qed

theorem drained_exact_witness:
  "mem_run example_platform (fresh_memory 1 1, [], []) (example_block, [], []) \<and>
   \<not> ledger_drained (my_ledgers example_block ! 0) \<and> allocations (example_block, [], []) 0 \<noteq> {#}"
proof -
  have len: "0 < length (my_ledgers example_block)" by (simp add: example_memory_defs)
  have drained: "\<not> ledger_drained (my_ledgers example_block ! 0)"
    and tokens: "token_charges (my_tokens example_block) 0 = {#}"
    by (simp_all add: ledger_drained_def token_charges_def zero_token_def example_memory_defs)
  from drained_exact [OF example_run len] drained tokens example_run show ?thesis by blast
qed

section \<open>The public operations\<close>

text \<open>
  Every call that changes the memory, with its arguments. \<open>op_ok\<close> is what the assertions of the source
  ask of the caller: a ledger that exists, a token that exists, and a pointer that is null or live.
\<close>

datatype mem_op =
    Malloc "nat option" nat placement | Calloc "nat option" nat nat placement
  | Realloc "nat option" "nat option" nat placement | Free "nat option"
  | Scoped_calloc nat nat | Scoped_free "nat option"
  | Unscoped_calloc nat nat | Unscoped_calloc_in nat nat placement
  | Scope_enter "nat option" placement | Scope_leave scope
  | Reserve "nat option" nat nat placement | Release nat
  | Open nat nat bool | Close nat
  | Runtime_open | Runtime_close | Net_malloc nat | Net_calloc nat nat | Net_realloc "nat option" nat
  | Net_free "nat option" | Net_rtc_malloc nat | Net_internal_malloc nat | Net_internal_calloc nat nat
  | Net_strdup bytes

fun mem_call :: "platform \<Rightarrow> memory \<Rightarrow> mem_op \<Rightarrow> memory" where
  "mem_call pf y (Malloc owner n pl) = snd (memory_malloc pf y owner n pl)"
| "mem_call pf y (Calloc owner c n pl) = snd (memory_calloc pf y owner c n pl)"
| "mem_call pf y (Realloc owner ptr n pl) = snd (memory_realloc pf y owner ptr n pl)"
| "mem_call pf y (Free ptr) = memory_free y ptr"
| "mem_call pf y (Scoped_calloc c n) = snd (scoped_calloc pf y c n)"
| "mem_call pf y (Scoped_free ptr) = scoped_free y ptr"
| "mem_call pf y (Unscoped_calloc c n) = snd (unscoped_calloc pf y c n)"
| "mem_call pf y (Unscoped_calloc_in c n pl) = snd (unscoped_calloc_in pf y c n pl)"
| "mem_call pf y (Scope_enter owner pl) = snd (scope_enter y owner pl)"
| "mem_call pf y (Scope_leave sc) = scope_leave y sc"
| "mem_call pf y (Reserve owner k n pl) = snd (memory_reserve y owner k n pl)"
| "mem_call pf y (Release k) = memory_release y k"
| "mem_call pf y (Open o1 limit external) =
     put_ledger y o1 (snd (ledger_open pf (my_ledgers y ! o1) limit external))"
| "mem_call pf y (Close o1) = put_ledger y o1 (ledger_close (my_ledgers y ! o1))"
| "mem_call pf y Runtime_open = snd (runtime_memory_open pf y)"
| "mem_call pf y Runtime_close = runtime_memory_close y"
| "mem_call pf y (Net_malloc n) = snd (net_malloc pf y n)"
| "mem_call pf y (Net_calloc c n) = snd (net_calloc pf y c n)"
| "mem_call pf y (Net_realloc ptr n) = snd (net_realloc pf y ptr n)"
| "mem_call pf y (Net_free ptr) = net_free y ptr"
| "mem_call pf y (Net_rtc_malloc n) = snd (net_rtc_malloc pf y n)"
| "mem_call pf y (Net_internal_malloc n) = snd (net_internal_malloc pf y n)"
| "mem_call pf y (Net_internal_calloc c n) = snd (net_internal_calloc pf y c n)"
| "mem_call pf y (Net_strdup s) = snd (net_strdup pf y s)"

definition live_or_null :: "memory \<Rightarrow> nat option \<Rightarrow> bool" where
  "live_or_null y ptr \<longleftrightarrow> (case ptr of None \<Rightarrow> True | Some a \<Rightarrow> my_blocks y a \<noteq> None)"

fun op_ok :: "memory \<Rightarrow> mem_op \<Rightarrow> bool" where
  "op_ok y (Malloc owner _ _) = owner_ok y owner"
| "op_ok y (Calloc owner _ _ _) = owner_ok y owner"
| "op_ok y (Realloc owner ptr _ _) = (owner_ok y owner \<and> live_or_null y ptr)"
| "op_ok y (Free ptr) = live_or_null y ptr"
| "op_ok y (Scoped_calloc _ _) = owner_ok y (sc_owner (my_scope y))"
| "op_ok y (Scoped_free ptr) = live_or_null y ptr"
| "op_ok y (Unscoped_calloc _ _) = True"
| "op_ok y (Unscoped_calloc_in _ _ _) = True"
| "op_ok y (Scope_enter _ _) = True"
| "op_ok y (Scope_leave _) = True"
| "op_ok y (Reserve owner k _ _) = (owner_ok y owner \<and> k < length (my_tokens y))"
| "op_ok y (Release k) = (k < length (my_tokens y))"
| "op_ok y (Open o1 _ _) = (o1 < length (my_ledgers y))"
| "op_ok y (Close o1) = (o1 < length (my_ledgers y))"
| "op_ok y (Net_realloc ptr _) = (my_ledgers y \<noteq> [] \<and> live_or_null y ptr)"
| "op_ok y (Net_free ptr) = live_or_null y ptr"
| "op_ok y _ = (my_ledgers y \<noteq> [])"

lemma live_realloc_run:
  assumes "mem_inv (y, I, T)" "owner_ok y owner" "live_or_null y ptr"
  shows "mem_run pf (y, I, T) (snd (memory_realloc pf y owner ptr n pl), I, T)"
proof (cases ptr)
  case None
  then show ?thesis using memory_malloc_run [OF assms(2)] by (simp add: memory_realloc_def)
next
  case (Some a)
  with assms(3) obtain b where "my_blocks y a = Some b" by (auto simp: live_or_null_def)
  with memory_realloc_run [OF assms(1,2)] Some show ?thesis by blast
qed

lemma live_free_run: "live_or_null y ptr \<Longrightarrow> mem_run pf (y, I, T) (memory_free y ptr, I, T)"
  by (cases ptr) (auto simp: live_or_null_def memory_free_def [of y None] intro: memory_free_run)

lemma runtime_owner_ok: "my_ledgers y \<noteq> [] \<Longrightarrow> owner_ok y runtime_owner"
  by (simp add: owner_ok_def runtime_owner_def)

lemma net_strdup_run:
  assumes "my_ledgers y \<noteq> []"
  shows "mem_run pf (y, I, T) (snd (net_strdup pf y s), I, T)"
proof -
  obtain q y1 where m: "net_malloc pf y (length s + 1) = (q, y1)" by fastforce
  have "mem_run pf (y, I, T) (y1, I, T)"
    using memory_malloc_run [OF runtime_owner_ok [OF assms], of pf I T "length s + 1" "default_placement y"] m
    by (simp add: net_malloc_def)
  then show ?thesis using m
    by (cases q) (auto simp: net_strdup_def intro: rtranclp.rtrancl_into_rtrancl mem_step.written)
qed

lemmas net_op_defs = net_malloc_def net_calloc_def net_realloc_def net_free_def net_rtc_malloc_def
  net_internal_malloc_def net_internal_calloc_def scoped_free_def

text \<open>C16: the public operations take no step of their own. Whatever call a task makes with a ledger
  and a token that exist and a pointer that is null or live, while the other tasks are at any point of
  theirs, is a run of single critical sections and heap calls that leaves nothing of its own in
  flight; so after it the ledgers are exact again.\<close>

theorem memory_operations_run:
  assumes "mem_inv (y, I, T)" and "op_ok y call"
  shows "mem_run pf (y, I, T) (mem_call pf y call, I, T) \<and> mem_inv (mem_call pf y call, I, T)"
proof -
  have "mem_run pf (y, I, T) (mem_call pf y call, I, T)"
    using assms(2)
  proof (cases call)
    case (Scoped_calloc c n)
    then show ?thesis using assms(2) allocate_zeroed_run mem_step.failed [of y "sc_owner (my_scope y)"]
      by (auto simp: scoped_calloc_def)
  next
    case (Unscoped_calloc c n)
    have "owner_ok y None" by (simp add: owner_ok_def)
    then show ?thesis using Unscoped_calloc allocate_zeroed_run by (auto simp: unscoped_calloc_def)
  next
    case (Unscoped_calloc_in c n pl)
    have "owner_ok y None" by (simp add: owner_ok_def)
    then show ?thesis using Unscoped_calloc_in allocate_zeroed_run by (auto simp: unscoped_calloc_in_def)
  next
    case (Scope_enter owner pl)
    then show ?thesis using mem_step.scoped [of pf y I T "\<lparr>sc_owner = owner, sc_placement = pl\<rparr>"]
      by (auto simp: scope_enter_def scope_leave_def)
  next
    case (Reserve owner k n pl)
    then show ?thesis using assms(2) mem_step.reserved [of y owner k n pl "fst (memory_reserve y owner k n pl)"]
      by auto
  next
    case (Open o1 limit external)
    then show ?thesis using assms(2) mem_step.opened [of o1 y pf limit external]
      by (cases "ledger_open pf (my_ledgers y ! o1) limit external") auto
  next
    case Runtime_open
    then show ?thesis
      using assms(2) mem_step.opened [of 0 y pf "runtime_memory_limit pf" "external_available pf"]
      by (auto simp: runtime_memory_open_def split: prod.split)
  next
    case Runtime_close
    then show ?thesis using assms(2) mem_step.closed [of 0 y pf] by (auto simp: runtime_memory_close_def)
  qed (use assms memory_malloc_run memory_calloc_run live_realloc_run live_free_run runtime_owner_ok
      net_strdup_run in \<open>auto simp: net_op_defs intro: mem_step.scoped mem_step.released mem_step.closed\<close>)
  with mem_run_inv [OF this assms(1)] show ?thesis by blast
qed

theorem memory_operations_run_witness:
  "op_ok example_block (Reserve (Some 0) 0 50 INTERNAL) \<and>
   mem_run example_platform (example_block, [], [])
     (snd (memory_reserve example_block (Some 0) 0 50 INTERNAL), [], []) \<and>
   le_current_bytes (my_ledgers (snd (memory_reserve example_block (Some 0) 0 50 INTERNAL)) ! 0) = 182"
proof -
  let ?c = "Reserve (Some 0) 0 50 INTERNAL"
  have ok: "op_ok example_block ?c" by (simp add: owner_ok_def example_memory_defs)
  have inv: "mem_inv (example_block, [], [])" by (rule mem_run_inv [OF example_run fresh_memory_inv])
  have "le_current_bytes (my_ledgers (snd (memory_reserve example_block (Some 0) 0 50 INTERNAL)) ! 0) = 182"
    by (simp add: memory_reserve_def zero_token_def example_memory_defs)
  with memory_operations_run [OF inv ok, of example_platform] ok show ?thesis by simp
qed

end
