(* ===== verification/Fifo_Interface.thy ===== *)
theory Fifo_Interface
  imports Wendy_Prelude
begin

text \<open>
  The contract shared by the queues of \<open>components/wendy_net_peer\<close>: the byte ring between an agent
  and its TLS session (\<open>Agent_Pipe\<close>) and the packet queue (\<open>Packet_Queue\<close>). A client that only
  offers and takes elements sees a bounded FIFO: what was accepted is what was delivered followed
  by what is still queued, in order, whatever the sequence of calls.
\<close>

datatype 'a fifo_call = Offer "'a list" | Take nat

text \<open>
  A run of a client: the elements accepted, the elements delivered, and the queue it ends in. A
  failed assertion in an operation is \<^const>\<open>None\<close>.
\<close>

fun fifo_run :: "('q \<Rightarrow> 'a list \<Rightarrow> (nat \<times> 'q) option) \<Rightarrow> ('q \<Rightarrow> nat \<Rightarrow> ('a list \<times> 'q) option) \<Rightarrow>
    'q \<Rightarrow> 'a fifo_call list \<Rightarrow> ('a list \<times> 'a list \<times> 'q) option" where
  "fifo_run put get q [] = Some ([], [], q)"
| "fifo_run put get q (Offer xs # calls) =
     (case put q xs of
        None \<Rightarrow> None
      | Some (n, q') \<Rightarrow>
          map_option (\<lambda>(accepted, delivered, q''). (take n xs @ accepted, delivered, q''))
            (fifo_run put get q' calls))"
| "fifo_run put get q (Take n # calls) =
     (case get q n of
        None \<Rightarrow> None
      | Some (ys, q') \<Rightarrow>
          map_option (\<lambda>(accepted, delivered, q''). (accepted, ys @ delivered, q''))
            (fifo_run put get q' calls))"

text \<open>
  \<open>rep q xs\<close> says that the queue \<open>q\<close> is well formed and holds \<open>xs\<close>; \<open>offered\<close> is what a client
  may pass to \<open>put\<close>.
\<close>

locale bounded_fifo =
  fixes rep :: "'q \<Rightarrow> 'a list \<Rightarrow> bool"
    and limit :: "'q \<Rightarrow> nat"
    and offered :: "'a list \<Rightarrow> bool"
    and put :: "'q \<Rightarrow> 'a list \<Rightarrow> (nat \<times> 'q) option"
    and get :: "'q \<Rightarrow> nat \<Rightarrow> ('a list \<times> 'q) option"
  assumes rep_limit: "rep q xs \<Longrightarrow> length xs \<le> limit q"
    and put_law: "rep q xs \<Longrightarrow> offered ys \<Longrightarrow>
      \<exists>n q'. put q ys = Some (n, q') \<and> n \<le> length ys \<and> rep q' (xs @ take n ys) \<and> limit q' = limit q"
    and get_law: "rep q xs \<Longrightarrow>
      \<exists>n q'. get q k = Some (take n xs, q') \<and> n \<le> k \<and> rep q' (drop n xs) \<and> limit q' = limit q"
begin

lemma run_stream:
  assumes "rep q xs" "\<forall>ys. Offer ys \<in> set calls \<longrightarrow> offered ys"
  obtains accepted delivered q' left where "fifo_run put get q calls = Some (accepted, delivered, q')"
    "rep q' left" "xs @ accepted = delivered @ left" "length left \<le> limit q" "limit q' = limit q"
  using assms
proof (induction calls arbitrary: q xs thesis)
  case Nil
  show ?case
    by (rule Nil.prems(1) [of "[]" "[]" q xs]) (use Nil.prems(2) rep_limit [OF Nil.prems(2)] in simp_all)
next
  case (Cons call calls)
  show ?case
  proof (cases call)
    case (Offer ys)
    then have "offered ys" using Cons.prems(3) by simp
    from put_law [OF Cons.prems(2) this] obtain n q1
      where q1: "put q ys = Some (n, q1)" "rep q1 (xs @ take n ys)" "limit q1 = limit q" by blast
    obtain acc del q2 left where run: "fifo_run put get q1 calls = Some (acc, del, q2)" "rep q2 left"
      "(xs @ take n ys) @ acc = del @ left" "length left \<le> limit q1" "limit q2 = limit q1"
      by (rule Cons.IH [OF _ q1(2)]) (use Cons.prems(3) in auto)
    show ?thesis
      by (rule Cons.prems(1) [of "take n ys @ acc" del q2 left]) (use Offer q1 run in simp_all)
  next
    case (Take k)
    from get_law [OF Cons.prems(2)] obtain n q1
      where q1: "get q k = Some (take n xs, q1)" "rep q1 (drop n xs)" "limit q1 = limit q" by blast
    obtain acc del q2 left where run: "fifo_run put get q1 calls = Some (acc, del, q2)" "rep q2 left"
      "drop n xs @ acc = del @ left" "length left \<le> limit q1" "limit q2 = limit q1"
      by (rule Cons.IH [OF _ q1(2)]) (use Cons.prems(3) in auto)
    have "xs @ acc = take n xs @ (drop n xs @ acc)" by (simp flip: append_assoc)
    then have "xs @ acc = (take n xs @ del) @ left" by (simp only: run(3) append_assoc)
    then show ?thesis
      by (rule Cons.prems(1) [of acc "take n xs @ del" q2 left, rotated 2]) (use Take q1 run in simp_all)
  qed
qed

end

end
