(* ===== verification/Agent_Pipe.thy ===== *)
theory Agent_Pipe
  imports Fifo_Interface
begin

text \<open>
  The single-producer single-consumer byte ring of \<open>components/wendy_net_peer/src/agent_pipe.c\<close>.
  The capacity is at most 65535, so the index arithmetic of the code stays far below the range of
  \<open>unsigned\<close> and is done on naturals. A failed \<open>assert\<close> is \<^const>\<open>None\<close>.
\<close>

section \<open>The ring\<close>

record wnap_ring =
  rg_produced :: nat
  rg_consumed :: nat
  rg_capacity :: nat
  rg_bytes :: bytes

definition wnap_init :: "bytes \<Rightarrow> nat \<Rightarrow> wnap_ring option" where
  "wnap_init bytes capacity =
     (if capacity = 0 \<or> 65535 < capacity then None
      else Some \<lparr>rg_produced = 0, rg_consumed = 0, rg_capacity = capacity, rg_bytes = bytes\<rparr>)"

definition wnap_available :: "wnap_ring \<Rightarrow> nat" where
  "wnap_available r = (rg_produced r + rg_capacity r + 1 - rg_consumed r) mod (rg_capacity r + 1)"

definition wnap_space :: "wnap_ring \<Rightarrow> nat" where
  "wnap_space r =
     rg_capacity r - (rg_produced r + rg_capacity r + 1 - rg_consumed r) mod (rg_capacity r + 1)"

text \<open>A span is its start in the storage and its length.\<close>

definition wnap_read_span :: "wnap_ring \<Rightarrow> nat \<times> nat" where
  "wnap_read_span r =
     (let n = wnap_available r; at = rg_consumed r
      in (at, if rg_capacity r + 1 - at < n then rg_capacity r + 1 - at else n))"

definition wnap_write_span :: "wnap_ring \<Rightarrow> nat \<times> nat" where
  "wnap_write_span r =
     (let n = wnap_space r; at = rg_produced r
      in (at, if rg_capacity r + 1 - at < n then rg_capacity r + 1 - at else n))"

definition wnap_consume :: "wnap_ring \<Rightarrow> nat \<Rightarrow> wnap_ring option" where
  "wnap_consume r n =
     (if n \<le> wnap_available r
      then Some (r\<lparr>rg_consumed := (rg_consumed r + n) mod (rg_capacity r + 1)\<rparr>) else None)"

definition wnap_produce :: "wnap_ring \<Rightarrow> nat \<Rightarrow> wnap_ring option" where
  "wnap_produce r n =
     (if n \<le> wnap_space r
      then Some (r\<lparr>rg_produced := (rg_produced r + n) mod (rg_capacity r + 1)\<rparr>) else None)"

text \<open>\<open>n\<close> bytes remain to be read; the result is what was read.\<close>

function wnap_read :: "wnap_ring \<Rightarrow> nat \<Rightarrow> (bytes \<times> wnap_ring) option" where
  "wnap_read r n =
     (if n = 0 then Some ([], r)
      else case wnap_read_span r of
        (at, len) \<Rightarrow>
          if len = 0 then Some ([], r)
          else
            let k = min len n
            in case wnap_consume r k of
                 None \<Rightarrow> None
               | Some r' \<Rightarrow> map_option (\<lambda>(bs, r''). (take k (drop at (rg_bytes r)) @ bs, r''))
                              (wnap_read r' (n - k)))"
  by pat_completeness auto
termination
  by (relation "measure snd") auto

text \<open>\<open>bs\<close> remain to be written; the result is how many were.\<close>

function wnap_write :: "wnap_ring \<Rightarrow> bytes \<Rightarrow> (nat \<times> wnap_ring) option" where
  "wnap_write r bs =
     (if bs = [] then Some (0, r)
      else case wnap_write_span r of
        (at, len) \<Rightarrow>
          if len = 0 then Some (0, r)
          else
            let k = min len (length bs)
            in case wnap_produce (r\<lparr>rg_bytes := memcpy_at at (take k bs) (rg_bytes r)\<rparr>) k of
                 None \<Rightarrow> None
               | Some r' \<Rightarrow> map_option (\<lambda>(used, r''). (k + used, r'')) (wnap_write r' (drop k bs)))"
  by pat_completeness auto
termination
  by (relation "measure (\<lambda>(r, bs). length bs)") auto

declare wnap_read.simps [simp del] wnap_write.simps [simp del]

section \<open>The stream a ring holds\<close>

definition ring_ok :: "wnap_ring \<Rightarrow> bool" where
  "ring_ok r \<longleftrightarrow> 0 < rg_capacity r \<and> rg_capacity r \<le> 65535 \<and> length (rg_bytes r) = rg_capacity r + 1 \<and>
     rg_produced r \<le> rg_capacity r \<and> rg_consumed r \<le> rg_capacity r"

definition cell :: "wnap_ring \<Rightarrow> nat \<Rightarrow> u8" where
  "cell r i = rg_bytes r ! ((rg_consumed r + i) mod (rg_capacity r + 1))"

definition ring_contents :: "wnap_ring \<Rightarrow> bytes" where
  "ring_contents r = map (cell r) [0..<wnap_available r]"

lemma available_le: "wnap_available r \<le> rg_capacity r"
  using mod_less_divisor [of "rg_capacity r + 1"] by (simp add: wnap_available_def less_Suc_eq_le)

lemma space_eq: "wnap_space r = rg_capacity r - wnap_available r"
  by (simp add: wnap_space_def wnap_available_def)

lemma produced_eq:
  assumes "ring_ok r"
  shows "rg_produced r = (rg_consumed r + wnap_available r) mod (rg_capacity r + 1)"
proof -
  let ?m = "rg_capacity r + 1"
  have "(rg_consumed r + wnap_available r) mod ?m =
      (rg_consumed r + (rg_produced r + ?m - rg_consumed r)) mod ?m"
    by (simp add: wnap_available_def mod_add_right_eq)
  also have "\<dots> = (rg_produced r + ?m) mod ?m" using assms by (simp add: ring_ok_def)
  also have "\<dots> = rg_produced r mod ?m" by (rule mod_add_self2)
  also have "\<dots> = rg_produced r" using assms by (simp add: ring_ok_def)
  finally show ?thesis by simp
qed

lemma mod_wrap: "n \<le> m \<Longrightarrow> Suc (n + m) mod Suc m = (n :: nat)"
  using mod_add_self2 [of n "Suc m"] by simp

lemma mod_window_inj:
  fixes c :: nat
  assumes "(c + i) mod m = (c + j) mod m" "c < m" "i < m" "j < m"
  shows "i = j"
proof -
  have split: "(c + x) mod m = (if c + x < m then c + x else c + x - m)" if "x < m" for x
    using that assms(2) by (simp add: mod_if)
  from assms show ?thesis by (auto simp: split split: if_splits)
qed

lemma available_from:
  assumes "rg_consumed r \<le> rg_capacity r" "n \<le> rg_capacity r"
    and "rg_produced r = (rg_consumed r + n) mod (rg_capacity r + 1)"
  shows "wnap_available r = n"
proof (cases "rg_consumed r + n < rg_capacity r + 1")
  case True
  with assms show ?thesis by (simp add: wnap_available_def mod_wrap)
next
  case False
  then have "(rg_consumed r + n) mod (rg_capacity r + 1) = rg_consumed r + n - (rg_capacity r + 1)"
    using assms(1,2) by (simp add: mod_if)
  with assms False show ?thesis by (simp add: wnap_available_def)
qed

lemma length_contents [simp]: "length (ring_contents r) = wnap_available r"
  by (simp add: ring_contents_def)

lemma nth_contents: "i < wnap_available r \<Longrightarrow> ring_contents r ! i = cell r i"
  by (simp add: ring_contents_def)

lemma consume_ok:
  assumes "ring_ok r" "k \<le> wnap_available r"
  obtains r' where "wnap_consume r k = Some r'" "ring_ok r'" "ring_contents r' = drop k (ring_contents r)"
    "rg_capacity r' = rg_capacity r" "rg_produced r' = rg_produced r" "rg_bytes r' = rg_bytes r"
proof -
  let ?m = "rg_capacity r + 1"
  define r' where "r' = r\<lparr>rg_consumed := (rg_consumed r + k) mod ?m\<rparr>"
  have call: "wnap_consume r k = Some r'" using assms(2) by (simp add: wnap_consume_def r'_def)
  have c: "rg_consumed r' \<le> rg_capacity r'"
    using mod_less_divisor [of ?m "rg_consumed r + k"] by (simp add: r'_def less_Suc_eq_le)
  then have ok: "ring_ok r'" using assms(1) by (simp add: ring_ok_def r'_def)
  have "rg_produced r' = (rg_consumed r' + (wnap_available r - k)) mod (rg_capacity r' + 1)"
    using produced_eq [OF assms(1)] assms(2)
      mod_add_left_eq [of "rg_consumed r + k" ?m "wnap_available r - k"] by (simp add: r'_def)
  from available_from [OF c _ this] have avail: "wnap_available r' = wnap_available r - k"
    using available_le [of r] by (simp add: r'_def)
  have "ring_contents r' = drop k (ring_contents r)"
  proof (rule nth_equalityI)
    fix i assume i: "i < length (ring_contents r')"
    have "cell r' i = cell r (k + i)" by (simp add: cell_def r'_def mod_add_left_eq add.assoc)
    with i avail assms(2) show "ring_contents r' ! i = drop k (ring_contents r) ! i"
      by (simp add: nth_contents)
  qed (simp add: avail)
  from that [OF call ok this] show thesis by (simp add: r'_def)
qed

lemma read_span_contents:
  assumes "ring_ok r" "k \<le> snd (wnap_read_span r)"
  shows "take k (drop (rg_consumed r) (rg_bytes r)) = take k (ring_contents r)" "k \<le> wnap_available r"
proof -
  have k: "k \<le> wnap_available r" "k \<le> rg_capacity r + 1 - rg_consumed r"
    using assms(2) by (auto simp: wnap_read_span_def Let_def split: if_splits)
  then show "k \<le> wnap_available r" by simp
  show "take k (drop (rg_consumed r) (rg_bytes r)) = take k (ring_contents r)"
  proof (rule nth_equalityI)
    fix i assume "i < length (take k (drop (rg_consumed r) (rg_bytes r)))"
    then have i: "i < k" by simp
    then have "(rg_consumed r + i) mod (rg_capacity r + 1) = rg_consumed r + i" using k(2) by simp
    with i k assms(1) show "take k (drop (rg_consumed r) (rg_bytes r)) ! i = take k (ring_contents r) ! i"
      by (simp add: nth_contents cell_def ring_ok_def)
  qed (use k assms(1) in \<open>simp add: ring_ok_def\<close>)
qed

lemma nth_memcpy_at:
  assumes "i < length base" "off + length src \<le> length base"
  shows "memcpy_at off src base ! i =
    (if off \<le> i \<and> i < off + length src then src ! (i - off) else base ! i)"
  using assms by (auto simp: memcpy_at_def nth_append min_def)

lemma write_span_le:
  assumes "ring_ok r"
  shows "rg_produced r + snd (wnap_write_span r) \<le> length (rg_bytes r)"
    "wnap_available r + snd (wnap_write_span r) \<le> rg_capacity r"
  using assms available_le [of r]
  by (auto simp: wnap_write_span_def Let_def space_eq ring_ok_def)

lemma window:
  "ring_ok r \<Longrightarrow> (rg_consumed r + (wnap_available r + t)) mod (rg_capacity r + 1) =
     (rg_produced r + t) mod (rg_capacity r + 1)"
  using mod_add_left_eq [of "rg_consumed r + wnap_available r" "rg_capacity r + 1" t] produced_eq [of r]
  by (simp add: add.assoc)

lemma free_not_live:
  assumes "ring_ok r" "i < wnap_available r" "t < snd (wnap_write_span r)"
  shows "(rg_consumed r + i) mod (rg_capacity r + 1) \<noteq> rg_produced r + t"
proof
  assume eq: "(rg_consumed r + i) mod (rg_capacity r + 1) = rg_produced r + t"
  have "rg_produced r + t < rg_capacity r + 1"
    using write_span_le(1) [OF assms(1)] assms(1,3) by (simp add: ring_ok_def)
  with eq window [OF assms(1), of t]
  have "(rg_consumed r + i) mod (rg_capacity r + 1) =
      (rg_consumed r + (wnap_available r + t)) mod (rg_capacity r + 1)" by simp
  from mod_window_inj [OF this] show False
    using assms write_span_le(2) [OF assms(1)] by (simp add: ring_ok_def)
qed

text \<open>A store into the span a producer was given is invisible to the reader until it is published.\<close>

lemma contents_store:
  assumes "ring_ok r" "length src \<le> snd (wnap_write_span r)"
  shows "ring_contents (r\<lparr>rg_bytes := memcpy_at (rg_produced r) src (rg_bytes r)\<rparr>) = ring_contents r"
    (is "ring_contents ?r = _")
proof -
  have avail: "wnap_available ?r = wnap_available r" by (simp add: wnap_available_def)
  have "cell ?r i = cell r i" if i: "i < wnap_available r" for i
  proof -
    let ?j = "(rg_consumed r + i) mod (rg_capacity r + 1)"
    have j: "?j < length (rg_bytes r)" using assms(1) by (simp add: ring_ok_def)
    have fit: "rg_produced r + length src \<le> length (rg_bytes r)"
      using write_span_le(1) [OF assms(1)] assms(2) by simp
    have "\<not> (rg_produced r \<le> ?j \<and> ?j < rg_produced r + length src)"
    proof
      assume in_span: "rg_produced r \<le> ?j \<and> ?j < rg_produced r + length src"
      then have "?j - rg_produced r < snd (wnap_write_span r)" using assms(2) by linarith
      from free_not_live [OF assms(1) i this] in_span show False by simp
    qed
    with nth_memcpy_at [OF j fit] show ?thesis by (auto simp: cell_def)
  qed
  then show ?thesis by (simp add: ring_contents_def avail)
qed

lemma produce_stored:
  assumes "ring_ok r" "length src \<le> snd (wnap_write_span r)"
    and stored: "\<And>i. i < length src \<Longrightarrow> rg_bytes r ! (rg_produced r + i) = src ! i"
  obtains r' where "wnap_produce r (length src) = Some r'" "ring_ok r'"
    "ring_contents r' = ring_contents r @ src" "rg_capacity r' = rg_capacity r"
    "rg_consumed r' = rg_consumed r" "rg_bytes r' = rg_bytes r"
proof -
  let ?m = "rg_capacity r + 1" and ?k = "length src" and ?a = "wnap_available r"
  have k: "?k \<le> wnap_space r" "rg_produced r + ?k \<le> ?m" "?a + ?k \<le> rg_capacity r"
    using write_span_le [OF assms(1)] assms(1,2) by (auto simp: ring_ok_def space_eq)
  define r' where "r' = r\<lparr>rg_produced := (rg_produced r + ?k) mod ?m\<rparr>"
  have call: "wnap_produce r ?k = Some r'" using k(1) by (simp add: wnap_produce_def r'_def)
  have "(rg_produced r + ?k) mod ?m \<le> rg_capacity r"
    using mod_less_divisor [of ?m "rg_produced r + ?k"] by (simp add: less_Suc_eq_le)
  then have ok: "ring_ok r'" using assms(1) by (simp add: ring_ok_def r'_def)
  have "rg_produced r' = (rg_consumed r' + (?a + ?k)) mod (rg_capacity r' + 1)"
    using window [OF assms(1), of ?k] by (simp add: r'_def)
  from available_from [OF _ _ this] have avail: "wnap_available r' = ?a + ?k"
    using k(3) assms(1) by (simp add: r'_def ring_ok_def)
  have "ring_contents r' = ring_contents r @ src"
  proof (rule nth_equalityI)
    fix i assume i: "i < length (ring_contents r')"
    have "cell r' i = src ! (i - ?a)" if "?a \<le> i"
    proof -
      have "(rg_consumed r + i) mod ?m = rg_produced r + (i - ?a)"
        using window [OF assms(1), of "i - ?a"] that i avail k(2) by simp
      then show ?thesis using stored [of "i - ?a"] that i avail by (simp add: cell_def r'_def)
    qed
    moreover have "cell r' i = cell r i" by (simp add: cell_def r'_def)
    ultimately show "ring_contents r' ! i = (ring_contents r @ src) ! i"
      using i avail by (auto simp: nth_contents nth_append)
  qed (simp add: avail)
  from that [OF call ok this] show thesis by (simp add: r'_def)
qed

lemma produce_ok:
  assumes "ring_ok r" "length src \<le> snd (wnap_write_span r)"
  obtains r' where "wnap_produce (r\<lparr>rg_bytes := memcpy_at (rg_produced r) src (rg_bytes r)\<rparr>) (length src) = Some r'"
    "ring_ok r'" "ring_contents r' = ring_contents r @ src" "rg_capacity r' = rg_capacity r"
proof -
  let ?r = "r\<lparr>rg_bytes := memcpy_at (rg_produced r) src (rg_bytes r)\<rparr>"
  have fit: "rg_produced r + length src \<le> length (rg_bytes r)"
    using write_span_le(1) [OF assms(1)] assms(2) by simp
  have ok: "ring_ok ?r" using assms(1) fit by (simp add: ring_ok_def)
  have span: "snd (wnap_write_span ?r) = snd (wnap_write_span r)"
    by (simp add: wnap_write_span_def wnap_space_def Let_def)
  have stored: "rg_bytes ?r ! (rg_produced ?r + i) = src ! i" if "i < length src" for i
    using fit that by (simp add: nth_memcpy_at)
  show thesis
    by (rule produce_stored [OF ok _ stored]) (use assms(2) span contents_store [OF assms] that in simp_all)
qed

lemma read_span_pos: "0 < wnap_available r \<Longrightarrow> ring_ok r \<Longrightarrow> 0 < snd (wnap_read_span r)"
  by (simp add: wnap_read_span_def Let_def ring_ok_def)

lemma write_span_pos: "0 < wnap_space r \<Longrightarrow> ring_ok r \<Longrightarrow> 0 < snd (wnap_write_span r)"
  by (simp add: wnap_write_span_def Let_def ring_ok_def)

lemma read_span_eq: "wnap_read_span r = (rg_consumed r, snd (wnap_read_span r))"
  by (simp add: wnap_read_span_def Let_def)

lemma write_span_eq: "wnap_write_span r = (rg_produced r, snd (wnap_write_span r))"
  by (simp add: wnap_write_span_def Let_def)

lemma wnap_read_spec:
  assumes "ring_ok r"
  obtains r' where "wnap_read r n = Some (take n (ring_contents r), r')" "ring_ok r'"
    "ring_contents r' = drop n (ring_contents r)" "rg_capacity r' = rg_capacity r"
  using assms
proof (induction n arbitrary: r thesis rule: less_induct)
  case (less n)
  let ?len = "snd (wnap_read_span r)"
  show ?case
  proof (cases "n = 0 \<or> ?len = 0")
    case True
    with read_span_pos [of r] less.prems(2) have "n = 0 \<or> wnap_available r = 0" by auto
    with True show ?thesis
      by (intro less.prems(1) [of r]) (use less.prems(2) in
          \<open>auto simp: wnap_read.simps [of r] case_prod_beta ring_contents_def\<close>)
  next
    case False
    define k where "k = min ?len n"
    have k: "k \<le> ?len" "k \<le> n" "0 < k" using False by (auto simp: k_def)
    note span = read_span_contents [OF less.prems(2) k(1)]
    obtain r1 where r1: "wnap_consume r k = Some r1" "ring_ok r1" "ring_contents r1 = drop k (ring_contents r)"
      "rg_capacity r1 = rg_capacity r"
      by (rule consume_ok [OF less.prems(2) span(2)])
    obtain r2 where r2: "wnap_read r1 (n - k) = Some (take (n - k) (ring_contents r1), r2)" "ring_ok r2"
      "ring_contents r2 = drop (n - k) (ring_contents r1)" "rg_capacity r2 = rg_capacity r1"
      by (rule less.IH [of "n - k" r1]) (use k r1 in auto)
    have "wnap_read r n = Some (take k (ring_contents r) @ take (n - k) (drop k (ring_contents r)), r2)"
      using False r1 r2 by (subst wnap_read.simps, subst read_span_eq) (simp add: k_def [symmetric] span(1))
    moreover have "take k (ring_contents r) @ take (n - k) (drop k (ring_contents r)) = take n (ring_contents r)"
      using k(2) by (metis le_add_diff_inverse take_add)
    ultimately show ?thesis using r1 r2 k(2) by (intro less.prems(1) [of r2]) simp_all
  qed
qed

lemma wnap_write_spec:
  assumes "ring_ok r"
  obtains r' where "wnap_write r bs = Some (min (length bs) (wnap_space r), r')" "ring_ok r'"
    "ring_contents r' = ring_contents r @ take (wnap_space r) bs" "rg_capacity r' = rg_capacity r"
  using assms
proof (induction "length bs" arbitrary: r bs thesis rule: less_induct)
  case less
  let ?len = "snd (wnap_write_span r)"
  show ?case
  proof (cases "bs = [] \<or> ?len = 0")
    case True
    with write_span_pos [of r] less.prems(2) have "bs = [] \<or> wnap_space r = 0" by auto
    with True show ?thesis
      by (intro less.prems(1) [of r]) (use less.prems(2) in \<open>auto simp: wnap_write.simps [of r] case_prod_beta\<close>)
  next
    case False
    define k where "k = min ?len (length bs)"
    have k: "k \<le> ?len" "k \<le> length bs" "0 < k" using False by (auto simp: k_def)
    have "length (take k bs) \<le> ?len" using k by simp
    from produce_ok [OF less.prems(2) this] k(2) obtain r1
      where r1: "wnap_produce (r\<lparr>rg_bytes := memcpy_at (rg_produced r) (take k bs) (rg_bytes r)\<rparr>) k = Some r1"
        "ring_ok r1" "ring_contents r1 = ring_contents r @ take k bs" "rg_capacity r1 = rg_capacity r"
      by (metis length_take min.absorb2)
    obtain r2 where r2: "wnap_write r1 (drop k bs) = Some (min (length bs - k) (wnap_space r1), r2)" "ring_ok r2"
      "ring_contents r2 = ring_contents r1 @ take (wnap_space r1) (drop k bs)" "rg_capacity r2 = rg_capacity r1"
      by (rule less.hyps [of "drop k bs" r1]) (use k r1 in auto)
    have avail: "wnap_available r1 = wnap_available r + k"
      using arg_cong [OF r1(3), of length] k(2) by simp
    have kspace: "k \<le> wnap_space r" using k(1) by (simp add: wnap_write_span_def Let_def split: if_splits)
    have space: "wnap_space r1 = wnap_space r - k" by (simp add: space_eq r1(4) avail)
    have "wnap_write r bs = Some (k + min (length bs - k) (wnap_space r1), r2)"
      using False r1 r2 by (subst wnap_write.simps, subst write_span_eq) (simp add: k_def [symmetric])
    moreover have "take k bs @ take (wnap_space r - k) (drop k bs) = take (wnap_space r) bs"
      using kspace by (metis le_add_diff_inverse take_add)
    ultimately show ?thesis using r1 r2 k(2) kspace space by (intro less.prems(1) [of r2]) simp_all
  qed
qed

section \<open>The ring as a bounded FIFO\<close>

definition ring_rep :: "wnap_ring \<Rightarrow> bytes \<Rightarrow> bool" where
  "ring_rep r xs \<longleftrightarrow> ring_ok r \<and> xs = ring_contents r"

interpretation ring_fifo: bounded_fifo ring_rep rg_capacity "\<lambda>_. True" wnap_write wnap_read
proof unfold_locales
  fix r :: wnap_ring and xs assume "ring_rep r xs"
  then show "length xs \<le> rg_capacity r" by (simp add: ring_rep_def available_le)
next
  fix r :: wnap_ring and xs ys :: bytes
  assume rep: "ring_rep r xs"
  then have ok: "ring_ok r" by (simp add: ring_rep_def)
  obtain r' where "wnap_write r ys = Some (min (length ys) (wnap_space r), r')" "ring_ok r'"
    "ring_contents r' = ring_contents r @ take (wnap_space r) ys" "rg_capacity r' = rg_capacity r"
    by (rule wnap_write_spec [OF ok])
  with rep show "\<exists>n r'. wnap_write r ys = Some (n, r') \<and> n \<le> length ys \<and> ring_rep r' (xs @ take n ys) \<and>
      rg_capacity r' = rg_capacity r"
    by (intro exI [of _ "min (length ys) (wnap_space r)"] exI [of _ r'])
      (auto simp: ring_rep_def min_def)
next
  fix r :: wnap_ring and xs k
  assume rep: "ring_rep r xs"
  then have ok: "ring_ok r" by (simp add: ring_rep_def)
  obtain r' where "wnap_read r k = Some (take k (ring_contents r), r')" "ring_ok r'"
    "ring_contents r' = drop k (ring_contents r)" "rg_capacity r' = rg_capacity r"
    by (rule wnap_read_spec [OF ok])
  with rep show "\<exists>n r'. wnap_read r k = Some (take n xs, r') \<and> n \<le> k \<and> ring_rep r' (drop n xs) \<and>
      rg_capacity r' = rg_capacity r"
    by (intro exI [of _ k] exI [of _ r']) (auto simp: ring_rep_def)
qed

lemma init_rep:
  assumes "wnap_init storage capacity = Some r" "length storage = capacity + 1"
  shows "ring_rep r []" "rg_capacity r = capacity"
  using assms by (auto simp: wnap_init_def ring_rep_def ring_ok_def ring_contents_def wnap_available_def
      split: if_splits)

section \<open>A producer and a consumer at once\<close>

text \<open>
  The two sides run in different tasks. A side takes its span, moves the bytes one at a time and then
  publishes its index with a release store; only the index stores are visible to the other side, and
  each side's view of the other's index is the one it loaded with its span. The steps below are these
  accesses, in any interleaving: the producer's loop body is \<open>Produce_Span\<close>, \<open>Produce_Byte\<close>s,
  \<open>Produce_Publish\<close>, and a side may publish fewer bytes than its span offered (as
  \<open>native_agent.c\<close> does after a short TLS read or write).
\<close>

record pipe =
  pp_ring :: wnap_ring
  pp_writing :: "(nat \<times> bytes) option"
  pp_reading :: "(nat \<times> bytes) option"
  pp_sent :: bytes
  pp_received :: bytes

inductive produce_step :: "pipe \<Rightarrow> pipe \<Rightarrow> bool" where
  Produce_Span: "pp_writing s = None \<Longrightarrow>
    produce_step s (s\<lparr>pp_writing := Some (snd (wnap_write_span (pp_ring s)), [])\<rparr>)"
| Produce_Byte: "pp_writing s = Some (n, bs) \<Longrightarrow> length bs < n \<Longrightarrow>
    produce_step s (s\<lparr>pp_ring := (pp_ring s)\<lparr>rg_bytes :=
        (rg_bytes (pp_ring s))[rg_produced (pp_ring s) + length bs := b]\<rparr>,
      pp_writing := Some (n, bs @ [b])\<rparr>)"
| Produce_Publish: "pp_writing s = Some (n, bs) \<Longrightarrow> wnap_produce (pp_ring s) (length bs) = Some r \<Longrightarrow>
    produce_step s (s\<lparr>pp_ring := r, pp_writing := None, pp_sent := pp_sent s @ bs\<rparr>)"

inductive consume_step :: "pipe \<Rightarrow> pipe \<Rightarrow> bool" where
  Consume_Span: "pp_reading s = None \<Longrightarrow>
    consume_step s (s\<lparr>pp_reading := Some (snd (wnap_read_span (pp_ring s)), [])\<rparr>)"
| Consume_Byte: "pp_reading s = Some (n, bs) \<Longrightarrow> length bs < n \<Longrightarrow>
    consume_step s (s\<lparr>pp_reading :=
      Some (n, bs @ [rg_bytes (pp_ring s) ! (rg_consumed (pp_ring s) + length bs)])\<rparr>)"
| Consume_Publish: "pp_reading s = Some (n, bs) \<Longrightarrow> wnap_consume (pp_ring s) (length bs) = Some r \<Longrightarrow>
    consume_step s (s\<lparr>pp_ring := r, pp_reading := None, pp_received := pp_received s @ bs\<rparr>)"

inductive pipe_step :: "pipe \<Rightarrow> pipe \<Rightarrow> bool" where
  producer: "produce_step s s' \<Longrightarrow> pipe_step s s'"
| consumer: "consume_step s s' \<Longrightarrow> pipe_step s s'"

lemma pipe_step_cases [consumes 1, case_names Produce_Span Produce_Byte Produce_Publish
    Consume_Span Consume_Byte Consume_Publish]:
  assumes "pipe_step s s'"
  obtains "s' = s\<lparr>pp_writing := Some (snd (wnap_write_span (pp_ring s)), [])\<rparr>" "pp_writing s = None"
  | n bs b where "s' = s\<lparr>pp_ring := (pp_ring s)\<lparr>rg_bytes :=
        (rg_bytes (pp_ring s))[rg_produced (pp_ring s) + length bs := b]\<rparr>,
      pp_writing := Some (n, bs @ [b])\<rparr>" "pp_writing s = Some (n, bs)" "length bs < n"
  | n bs r where "s' = s\<lparr>pp_ring := r, pp_writing := None, pp_sent := pp_sent s @ bs\<rparr>"
      "pp_writing s = Some (n, bs)" "wnap_produce (pp_ring s) (length bs) = Some r"
  | "s' = s\<lparr>pp_reading := Some (snd (wnap_read_span (pp_ring s)), [])\<rparr>" "pp_reading s = None"
  | n bs where "s' = s\<lparr>pp_reading :=
      Some (n, bs @ [rg_bytes (pp_ring s) ! (rg_consumed (pp_ring s) + length bs)])\<rparr>"
      "pp_reading s = Some (n, bs)" "length bs < n"
  | n bs r where "s' = s\<lparr>pp_ring := r, pp_reading := None, pp_received := pp_received s @ bs\<rparr>"
      "pp_reading s = Some (n, bs)" "wnap_consume (pp_ring s) (length bs) = Some r"
  using assms
proof cases
  case producer
  then show thesis by (cases rule: produce_step.cases) (erule that(1-3), assumption+)+
next
  case consumer
  then show thesis by (cases rule: consume_step.cases) (erule that(4-6), assumption+)+
qed

lemma consume_steps_pipe: "consume_step\<^sup>*\<^sup>* s s' \<Longrightarrow> pipe_step\<^sup>*\<^sup>* s s'"
  by (rule rtranclp_mono [THEN predicate2D]) (auto intro: consumer)

lemma consume_steps_frame:
  "consume_step\<^sup>*\<^sup>* s s' \<Longrightarrow> pp_sent s' = pp_sent s \<and> pp_writing s' = pp_writing s \<and>
     rg_bytes (pp_ring s') = rg_bytes (pp_ring s) \<and> rg_produced (pp_ring s') = rg_produced (pp_ring s)"
  by (induction rule: rtranclp_induct) (auto simp: wnap_consume_def elim!: consume_step.cases split: if_splits)

definition pipe_start :: "wnap_ring \<Rightarrow> pipe" where
  "pipe_start r = \<lparr>pp_ring = r, pp_writing = None, pp_reading = None, pp_sent = [], pp_received = []\<rparr>"

definition writing_ok :: "wnap_ring \<Rightarrow> (nat \<times> bytes) option \<Rightarrow> bool" where
  "writing_ok r w \<longleftrightarrow> (case w of None \<Rightarrow> True | Some (n, bs) \<Rightarrow>
     n \<le> snd (wnap_write_span r) \<and> length bs \<le> n \<and>
     (\<forall>i<length bs. rg_bytes r ! (rg_produced r + i) = bs ! i))"

definition reading_ok :: "wnap_ring \<Rightarrow> (nat \<times> bytes) option \<Rightarrow> bool" where
  "reading_ok r c \<longleftrightarrow> (case c of None \<Rightarrow> True | Some (n, bs) \<Rightarrow>
     n \<le> snd (wnap_read_span r) \<and> length bs \<le> n \<and> bs = take (length bs) (ring_contents r))"

definition pipe_inv :: "pipe \<Rightarrow> bool" where
  "pipe_inv s \<longleftrightarrow> ring_ok (pp_ring s) \<and> pp_sent s = pp_received s @ ring_contents (pp_ring s) \<and>
     writing_ok (pp_ring s) (pp_writing s) \<and> reading_ok (pp_ring s) (pp_reading s)"

lemma write_span_mono:
  assumes "rg_produced r' = rg_produced r" "rg_capacity r' = rg_capacity r"
    "wnap_available r' \<le> wnap_available r"
  shows "snd (wnap_write_span r) \<le> snd (wnap_write_span r')"
  using assms by (auto simp: wnap_write_span_def Let_def space_eq)

lemma read_span_mono:
  assumes "rg_consumed r' = rg_consumed r" "rg_capacity r' = rg_capacity r"
    "wnap_available r \<le> wnap_available r'"
  shows "snd (wnap_read_span r) \<le> snd (wnap_read_span r')"
  using assms by (auto simp: wnap_read_span_def Let_def)

lemma update_eq_memcpy:
  "i < length base \<Longrightarrow> base[i := b] = memcpy_at i [b] base"
  by (simp add: memcpy_at_def upd_conv_take_nth_drop)

text \<open>A byte stored inside the span leaves the stream alone.\<close>

lemma contents_store_byte:
  assumes "ring_ok r" "t < snd (wnap_write_span r)"
  shows "ring_contents (r\<lparr>rg_bytes := (rg_bytes r)[rg_produced r + t := b]\<rparr>) = ring_contents r"
proof -
  have "cell (r\<lparr>rg_bytes := (rg_bytes r)[rg_produced r + t := b]\<rparr>) i = cell r i"
    if "i < wnap_available r" for i
    using free_not_live [OF assms(1) that assms(2)] by (auto simp: cell_def nth_list_update)
  then show ?thesis by (simp add: ring_contents_def wnap_available_def)
qed

lemma writing_ok_store:
  assumes "ring_ok r" "writing_ok r (Some (n, bs))" "length bs < n"
  shows "writing_ok (r\<lparr>rg_bytes := (rg_bytes r)[rg_produced r + length bs := b]\<rparr>) (Some (n, bs @ [b]))"
proof -
  have "rg_produced r + length bs < length (rg_bytes r)"
    using write_span_le(1) [OF assms(1)] assms(2,3) by (simp add: writing_ok_def)
  with assms show ?thesis
    by (auto simp: writing_ok_def wnap_write_span_def wnap_space_def Let_def nth_append nth_list_update less_Suc_eq)
qed

lemma reading_ok_fetch:
  assumes "ring_ok r" "reading_ok r (Some (n, bs))" "length bs < n"
  shows "reading_ok r (Some (n, bs @ [rg_bytes r ! (rg_consumed r + length bs)]))"
proof -
  have span: "Suc (length bs) \<le> snd (wnap_read_span r)" using assms(2,3) by (simp add: reading_ok_def)
  then have "length bs < rg_capacity r + 1 - rg_consumed r" "length bs < wnap_available r"
    by (auto simp: wnap_read_span_def Let_def split: if_splits)
  then have "ring_contents r ! length bs = rg_bytes r ! (rg_consumed r + length bs)"
    by (simp add: nth_contents cell_def)
  with assms \<open>length bs < wnap_available r\<close> show ?thesis
    by (simp add: reading_ok_def take_Suc_conv_app_nth)
qed

lemma reading_ok_mono:
  assumes "reading_ok r c" "ring_contents r' = ring_contents r @ xs" "rg_consumed r' = rg_consumed r"
    "rg_capacity r' = rg_capacity r"
  shows "reading_ok r' c"
proof -
  have avail: "wnap_available r \<le> wnap_available r'" using arg_cong [OF assms(2), of length] by simp
  have "snd (wnap_read_span r) \<le> wnap_available r" by (simp add: wnap_read_span_def Let_def)
  with assms(1,2) read_span_mono [OF assms(3,4) avail] show ?thesis
    by (auto simp: reading_ok_def split: option.splits)
qed

lemma pipe_step_inv:
  assumes "pipe_step s s'" "pipe_inv s"
  shows "pipe_inv s'"
  using assms
proof (cases rule: pipe_step_cases)
  case Produce_Span
  with assms(2) show ?thesis by (simp add: pipe_inv_def writing_ok_def)
next
  case (Produce_Byte n bs b)
  from assms(2) have inv: "ring_ok (pp_ring s)" "writing_ok (pp_ring s) (Some (n, bs))"
    "reading_ok (pp_ring s) (pp_reading s)"
    using Produce_Byte by (simp_all add: pipe_inv_def)
  then have "length bs < snd (wnap_write_span (pp_ring s))"
    using Produce_Byte by (simp add: writing_ok_def)
  note same = contents_store_byte [OF inv(1) this, of b]
  show ?thesis
    using Produce_Byte assms(2) inv same writing_ok_store [OF inv(1,2)]
      reading_ok_mono [OF inv(3), of _ "[]", unfolded append_Nil2, OF same]
    by (simp add: pipe_inv_def ring_ok_def)
next
  case (Produce_Publish n bs r)
  from assms(2) have inv: "ring_ok (pp_ring s)" "writing_ok (pp_ring s) (Some (n, bs))"
    "reading_ok (pp_ring s) (pp_reading s)"
    using Produce_Publish by (simp_all add: pipe_inv_def)
  then have span: "length bs \<le> snd (wnap_write_span (pp_ring s))"
    and stored: "\<And>i. i < length bs \<Longrightarrow> rg_bytes (pp_ring s) ! (rg_produced (pp_ring s) + i) = bs ! i"
    by (auto simp: writing_ok_def)
  obtain r' where r': "wnap_produce (pp_ring s) (length bs) = Some r'" "ring_ok r'"
    "ring_contents r' = ring_contents (pp_ring s) @ bs" "rg_capacity r' = rg_capacity (pp_ring s)"
    "rg_consumed r' = rg_consumed (pp_ring s)"
    by (rule produce_stored [OF inv(1) span stored])
  with Produce_Publish assms(2) reading_ok_mono [OF inv(3) r'(3,5,4)] show ?thesis
    by (simp add: pipe_inv_def writing_ok_def)
next
  case Consume_Span
  with assms(2) show ?thesis by (simp add: pipe_inv_def reading_ok_def)
next
  case (Consume_Byte n bs)
  with assms(2) reading_ok_fetch [of "pp_ring s" n bs] show ?thesis by (simp add: pipe_inv_def)
next
  case (Consume_Publish n bs r)
  from assms(2) have inv: "ring_ok (pp_ring s)" "reading_ok (pp_ring s) (Some (n, bs))"
    "writing_ok (pp_ring s) (pp_writing s)"
    using Consume_Publish by (simp_all add: pipe_inv_def)
  then have span: "length bs \<le> wnap_available (pp_ring s)" "bs = take (length bs) (ring_contents (pp_ring s))"
    by (auto simp: reading_ok_def wnap_read_span_def Let_def split: if_splits)
  obtain r' where r': "wnap_consume (pp_ring s) (length bs) = Some r'" "ring_ok r'"
    "ring_contents r' = drop (length bs) (ring_contents (pp_ring s))" "rg_capacity r' = rg_capacity (pp_ring s)"
    "rg_produced r' = rg_produced (pp_ring s)" "rg_bytes r' = rg_bytes (pp_ring s)"
    by (rule consume_ok [OF inv(1) span(1)])
  have "wnap_available r' \<le> wnap_available (pp_ring s)" using arg_cong [OF r'(3), of length] by simp
  from write_span_mono [OF r'(5,4) this] have "writing_ok r' (pp_writing s)"
    using inv(3) r'(5,6) by (auto simp: writing_ok_def split: option.splits)
  moreover have "ring_contents (pp_ring s) = bs @ ring_contents r'"
    using span(2) r'(3) by (metis append_take_drop_id)
  ultimately show ?thesis using Consume_Publish assms(2) r' by (simp add: pipe_inv_def reading_ok_def)
qed

lemma pipe_steps_inv: "pipe_step\<^sup>*\<^sup>* s s' \<Longrightarrow> pipe_inv s \<Longrightarrow> pipe_inv s'"
  by (induction rule: rtranclp_induct) (auto intro: pipe_step_inv)

lemma pipe_start_inv: "ring_rep r [] \<Longrightarrow> pipe_inv (pipe_start r)"
  by (simp add: pipe_inv_def pipe_start_def writing_ok_def reading_ok_def ring_rep_def)

lemma pipe_step_capacity: "pipe_step s s' \<Longrightarrow> rg_capacity (pp_ring s') = rg_capacity (pp_ring s)"
  by (cases rule: pipe_step_cases) (auto simp: wnap_produce_def wnap_consume_def split: if_splits)

lemma pipe_steps_capacity: "pipe_step\<^sup>*\<^sup>* s s' \<Longrightarrow> rg_capacity (pp_ring s') = rg_capacity (pp_ring s)"
  by (induction rule: rtranclp_induct) (auto simp: pipe_step_capacity)

lemma read_span_le:
  assumes "ring_ok r"
  shows "rg_consumed r + snd (wnap_read_span r) \<le> length (rg_bytes r)"
    "snd (wnap_read_span r) \<le> wnap_available r"
  using assms by (auto simp: wnap_read_span_def Let_def ring_ok_def)

text \<open>The consumer alone: it fetches and publishes what a span shows, and again.\<close>

lemma consume_fetch:
  assumes "pp_reading s = Some (n, bs)" "length bs \<le> n"
  shows "\<exists>bs'. consume_step\<^sup>*\<^sup>* s (s\<lparr>pp_reading := Some (n, bs')\<rparr>) \<and> length bs' = n"
  using assms
proof (induction "n - length bs" arbitrary: s bs)
  case 0
  then have "s\<lparr>pp_reading := Some (n, bs)\<rparr> = s" "length bs = n" by (cases s, simp)+
  then have "consume_step\<^sup>*\<^sup>* s (s\<lparr>pp_reading := Some (n, bs)\<rparr>) \<and> length bs = n" by (simp only: rtranclp.rtrancl_refl simp_thms)
  then show ?case by blast
next
  case (Suc k)
  define b where "b = rg_bytes (pp_ring s) ! (rg_consumed (pp_ring s) + length bs)"
  let ?s = "s\<lparr>pp_reading := Some (n, bs @ [b])\<rparr>"
  have "consume_step s ?s" unfolding b_def using Suc by (intro Consume_Byte) auto
  moreover from Suc.hyps(1) [of "bs @ [b]" ?s] Suc obtain bs'
    where "consume_step\<^sup>*\<^sup>* ?s (?s\<lparr>pp_reading := Some (n, bs')\<rparr>)" "length bs' = n" by fastforce
  ultimately show ?case by (intro exI [of _ bs']) (auto intro: converse_rtranclp_into_rtranclp)
qed

lemma consume_publish:
  assumes "pipe_inv s" "pp_reading s = Some (n, bs)"
  obtains s' where "consume_step s s'" "pp_reading s' = None" "pp_sent s' = pp_sent s"
    "length (ring_contents (pp_ring s')) = length (ring_contents (pp_ring s)) - length bs"
proof -
  from assms have inv: "ring_ok (pp_ring s)" "reading_ok (pp_ring s) (Some (n, bs))"
    by (simp_all add: pipe_inv_def)
  then have span: "length bs \<le> wnap_available (pp_ring s)"
    by (auto simp: reading_ok_def wnap_read_span_def Let_def split: if_splits)
  obtain r' where r': "wnap_consume (pp_ring s) (length bs) = Some r'"
    "ring_contents r' = drop (length bs) (ring_contents (pp_ring s))"
    by (rule consume_ok [OF inv(1) span])
  have len: "length (ring_contents r') = length (ring_contents (pp_ring s)) - length bs"
    by (simp only: r'(2) length_drop)
  show thesis by (rule that [OF Consume_Publish [OF assms(2) r'(1)]]) (use len in simp_all)
qed

lemma pipe_drains:
  assumes "pipe_inv s" "pp_reading s = None"
  shows "\<exists>s'. consume_step\<^sup>*\<^sup>* s s' \<and> pp_received s' = pp_sent s \<and> pp_reading s' = None"
  using assms
proof (induction "length (ring_contents (pp_ring s))" arbitrary: s rule: less_induct)
  case less
  show ?case
  proof (cases "ring_contents (pp_ring s) = []")
    case True
    with less.prems show ?thesis by (intro exI [of _ s]) (simp add: pipe_inv_def)
  next
    case False
    let ?n = "snd (wnap_read_span (pp_ring s))"
    have ok: "ring_ok (pp_ring s)" using less.prems(1) by (simp add: pipe_inv_def)
    have pos: "0 < wnap_available (pp_ring s)" using False by (simp flip: length_contents)
    have n: "0 < ?n" by (rule read_span_pos [OF pos ok])
    let ?s1 = "s\<lparr>pp_reading := Some (?n, [])\<rparr>"
    have step1: "consume_step s ?s1" by (rule Consume_Span [OF less.prems(2)])
    obtain bs where s2: "consume_step\<^sup>*\<^sup>* ?s1 (?s1\<lparr>pp_reading := Some (?n, bs)\<rparr>)" "length bs = ?n"
      using consume_fetch [of ?s1 ?n "[]"] by auto
    let ?s2 = "?s1\<lparr>pp_reading := Some (?n, bs)\<rparr>"
    have to2: "consume_step\<^sup>*\<^sup>* s ?s2" by (rule converse_rtranclp_into_rtranclp [OF step1 s2(1)])
    note inv2 = pipe_steps_inv [OF consume_steps_pipe [OF to2] less.prems(1)]
    obtain s3 where s3: "consume_step ?s2 s3" "pp_reading s3 = None" "pp_sent s3 = pp_sent ?s2"
      "length (ring_contents (pp_ring s3)) = length (ring_contents (pp_ring ?s2)) - length bs"
      by (rule consume_publish [OF inv2, of ?n bs]) simp_all
    have less3: "length (ring_contents (pp_ring s3)) < length (ring_contents (pp_ring s))"
      using s3(4) s2(2) n pos by simp
    from less.hyps [OF less3 pipe_step_inv [OF consumer [OF s3(1)] inv2] s3(2)] obtain s4
      where "consume_step\<^sup>*\<^sup>* s3 s4" "pp_received s4 = pp_sent s3" "pp_reading s4 = None" by blast
    with to2 s3 show ?thesis
      by (intro exI [of _ s4]) (auto intro: rtranclp_trans [OF rtranclp.rtrancl_into_rtrancl [OF to2 s3(1)]])
  qed
qed

lemma consumer_drains:
  assumes "pipe_inv s"
  shows "\<exists>s'. consume_step\<^sup>*\<^sup>* s s' \<and> pp_received s' = pp_sent s \<and> pp_reading s' = None"
proof -
  obtain s1 where s1: "consume_step\<^sup>*\<^sup>* s s1" "pp_reading s1 = None" "pp_sent s1 = pp_sent s"
  proof (cases "pp_reading s")
    case (Some c)
    then obtain n bs where "pp_reading s = Some (n, bs)" by (cases c) simp
    then obtain s1 where "consume_step s s1" "pp_reading s1 = None" "pp_sent s1 = pp_sent s"
      by (rule consume_publish [OF assms])
    then show thesis by (intro that [of s1]) (rule r_into_rtranclp)
  qed (rule that [of s], simp_all)
  have "pipe_inv s1" by (rule pipe_steps_inv [OF consume_steps_pipe [OF s1(1)] assms])
  from pipe_drains [OF this s1(2)] obtain s2
    where s2: "consume_step\<^sup>*\<^sup>* s1 s2" "pp_received s2 = pp_sent s1" "pp_reading s2 = None" by blast
  have "consume_step\<^sup>*\<^sup>* s s2" by (rule rtranclp_trans [OF s1(1) s2(1)])
  with s1(3) s2(2,3) show ?thesis by (intro exI [of _ s2]) simp
qed

section \<open>Properties\<close>

text \<open>C19: Whatever sequence of writes and reads a bridge makes on a ring initialised over
  \<open>capacity + 1\<close> bytes, no assertion fails and the ring is a bounded byte stream: the bytes accepted
  are the bytes delivered followed by the ones still buffered, at most \<open>capacity\<close>. In the state
  reached, a write takes as many bytes as there is room for, across the end of the storage, and a read
  returns the oldest bytes.\<close>

theorem wnap_stream:
  assumes "wnap_init storage capacity = Some r" "length storage = capacity + 1"
  shows "\<exists>accepted delivered r'. fifo_run wnap_write wnap_read r calls = Some (accepted, delivered, r') \<and>
    accepted = delivered @ ring_contents r' \<and> wnap_available r' \<le> capacity \<and>
    (\<forall>bs. map_option fst (wnap_write r' bs) = Some (min (length bs) (capacity - wnap_available r'))) \<and>
    (\<forall>n. map_option fst (wnap_read r' n) = Some (take n (ring_contents r')))"
proof -
  note start = init_rep [OF assms]
  obtain accepted delivered r' left where run: "fifo_run wnap_write wnap_read r calls = Some (accepted, delivered, r')"
    and rep: "ring_rep r' left" and stream: "[] @ accepted = delivered @ left"
    and cap: "length left \<le> rg_capacity r" "rg_capacity r' = rg_capacity r"
    by (rule ring_fifo.run_stream [OF start(1), of calls]) simp
  from rep have ok: "ring_ok r'" and left: "left = ring_contents r'" by (simp_all add: ring_rep_def)
  have "map_option fst (wnap_write r' bs) = Some (min (length bs) (capacity - wnap_available r'))" for bs
    by (rule wnap_write_spec [OF ok, of bs]) (simp add: space_eq cap(2) start(2))
  moreover have "map_option fst (wnap_read r' n) = Some (take n (ring_contents r'))" for n
    by (rule wnap_read_spec [OF ok, of n]) simp
  ultimately show ?thesis using run stream cap start(2) by (simp add: left)
qed

definition tiny_ring :: wnap_ring where
  "tiny_ring = \<lparr>rg_produced = 0, rg_consumed = 0, rg_capacity = 3, rg_bytes = [0, 0, 0, 0]\<rparr>"

lemma tiny_ring_init: "wnap_init [0, 0, 0, 0] 3 = Some tiny_ring"
  by (simp add: wnap_init_def tiny_ring_def)

theorem wnap_stream_witness:
  "(\<exists>accepted delivered r'. fifo_run wnap_write wnap_read tiny_ring [Offer [1, 2, 3, 4], Take 2, Offer [5, 6, 7]] =
      Some (accepted, delivered, r') \<and> accepted = delivered @ ring_contents r') \<and>
   map_option (\<lambda>(accepted, delivered, r'). (accepted, delivered, ring_contents r'))
     (fifo_run wnap_write wnap_read tiny_ring [Offer [1, 2, 3, 4], Take 2, Offer [5, 6, 7]]) =
     Some ([1, 2, 3, 5, 6], [1, 2], [3, 5, 6])"
proof
  show "\<exists>accepted delivered r'. fifo_run wnap_write wnap_read tiny_ring [Offer [1, 2, 3, 4], Take 2, Offer [5, 6, 7]] =
      Some (accepted, delivered, r') \<and> accepted = delivered @ ring_contents r'"
    using wnap_stream [OF tiny_ring_init, of "[Offer [1, 2, 3, 4], Take 2, Offer [5, 6, 7]]"] by auto
qed code_simp

text \<open>C13: With the producer and the consumer interleaved access by access, every reachable state keeps
  the stream: the consumer has received a prefix of what the producer published, the rest is buffered
  in order, and the bytes a consumer has fetched but not yet released are the next ones of the stream.
  No store or fetch leaves the storage, and neither side's assertion can fail when it publishes.\<close>

theorem pipe_interleaving:
  assumes "wnap_init storage capacity = Some r" "length storage = capacity + 1"
    and "pipe_step\<^sup>*\<^sup>* (pipe_start r) s"
  shows "pp_sent s = pp_received s @ ring_contents (pp_ring s) \<and> wnap_available (pp_ring s) \<le> capacity \<and>
    (case pp_writing s of None \<Rightarrow> True | Some (n, bs) \<Rightarrow>
       rg_produced (pp_ring s) + n \<le> length (rg_bytes (pp_ring s)) \<and>
       wnap_produce (pp_ring s) (length bs) \<noteq> None) \<and>
    (case pp_reading s of None \<Rightarrow> True | Some (n, bs) \<Rightarrow>
       rg_consumed (pp_ring s) + n \<le> length (rg_bytes (pp_ring s)) \<and>
       bs = take (length bs) (ring_contents (pp_ring s)) \<and>
       wnap_consume (pp_ring s) (length bs) \<noteq> None)"
proof -
  note start = init_rep [OF assms(1,2)]
  have inv: "pipe_inv s" by (rule pipe_steps_inv [OF assms(3) pipe_start_inv [OF start(1)]])
  have "rg_capacity (pp_ring s) = rg_capacity (pp_ring (pipe_start r))"
    by (rule pipe_steps_capacity [OF assms(3)])
  then have cap: "wnap_available (pp_ring s) \<le> capacity"
    using available_le [of "pp_ring s"] start(2) by (simp add: pipe_start_def)
  have "wnap_produce (pp_ring s) (length bs) \<noteq> None \<and> rg_produced (pp_ring s) + n \<le> length (rg_bytes (pp_ring s))"
    if "pp_writing s = Some (n, bs)" for n bs
    using that inv write_span_le [of "pp_ring s"]
    by (auto simp: pipe_inv_def writing_ok_def wnap_produce_def space_eq)
  moreover have "wnap_consume (pp_ring s) (length bs) \<noteq> None \<and> rg_consumed (pp_ring s) + n \<le> length (rg_bytes (pp_ring s)) \<and>
      bs = take (length bs) (ring_contents (pp_ring s))"
    if "pp_reading s = Some (n, bs)" for n bs
    using that inv read_span_le [of "pp_ring s"]
    by (auto simp: pipe_inv_def reading_ok_def wnap_consume_def)
  ultimately show ?thesis using inv cap by (auto simp: pipe_inv_def split: option.splits)
qed

definition tiny_sent :: pipe where
  "tiny_sent = \<lparr>pp_ring = tiny_ring\<lparr>rg_produced := 1, rg_bytes := [7, 0, 0, 0]\<rparr>, pp_writing = None,
     pp_reading = None, pp_sent = [7], pp_received = []\<rparr>"

lemma tiny_sent_reachable: "pipe_step\<^sup>*\<^sup>* (pipe_start tiny_ring) tiny_sent"
proof -
  let ?s1 = "(pipe_start tiny_ring)\<lparr>pp_writing := Some (3, [])\<rparr>"
  let ?s2 = "(pipe_start (tiny_ring\<lparr>rg_bytes := [7, 0, 0, 0]\<rparr>))\<lparr>pp_writing := Some (3, [7])\<rparr>"
  have "pipe_step (pipe_start tiny_ring) ?s1"
    using producer [OF Produce_Span, of "pipe_start tiny_ring"]
    by (simp add: pipe_start_def tiny_ring_def wnap_write_span_def wnap_space_def)
  moreover have "pipe_step ?s1 ?s2"
    using producer [OF Produce_Byte, of ?s1 3 "[]" 7] by (simp add: pipe_start_def tiny_ring_def)
  moreover have "pipe_step ?s2 tiny_sent"
    using producer [OF Produce_Publish, of ?s2 3 "[7]"]
    by (simp add: pipe_start_def tiny_ring_def tiny_sent_def wnap_produce_def wnap_space_def)
  ultimately show ?thesis by (meson converse_rtranclp_into_rtranclp rtranclp.rtrancl_refl)
qed

theorem pipe_interleaving_witness:
  "pipe_step\<^sup>*\<^sup>* (pipe_start tiny_ring) tiny_sent \<and>
   pp_sent tiny_sent = pp_received tiny_sent @ ring_contents (pp_ring tiny_sent) \<and>
   ring_contents (pp_ring tiny_sent) = [7]"
  using pipe_interleaving [OF tiny_ring_init _ tiny_sent_reachable] tiny_sent_reachable
  by (simp add: tiny_sent_def)

text \<open>C18: The consumer is never stuck and never waits for the producer: from every reachable state,
  whatever span either side holds, the consumer's own steps, and they alone, bring everything published
  so far to it and release its span, and the store the producer has in progress is untouched.\<close>

theorem pipe_delivers:
  assumes "wnap_init storage capacity = Some r" "length storage = capacity + 1"
    and "pipe_step\<^sup>*\<^sup>* (pipe_start r) s"
  shows "\<exists>s'. consume_step\<^sup>*\<^sup>* s s' \<and> pp_received s' = pp_sent s \<and> pp_reading s' = None \<and>
    pp_sent s' = pp_sent s \<and> pp_writing s' = pp_writing s \<and> rg_bytes (pp_ring s') = rg_bytes (pp_ring s) \<and>
    wnap_available (pp_ring s') = 0"
proof -
  have inv: "pipe_inv s" by (rule pipe_steps_inv [OF assms(3) pipe_start_inv [OF init_rep(1) [OF assms(1,2)]]])
  from consumer_drains [OF this] obtain s' where s': "consume_step\<^sup>*\<^sup>* s s'" "pp_received s' = pp_sent s"
    "pp_reading s' = None" by blast
  have "pipe_inv s'" by (rule pipe_steps_inv [OF consume_steps_pipe [OF s'(1)] inv])
  then have "ring_contents (pp_ring s') = []" using s'(2) consume_steps_frame [OF s'(1)] by (simp add: pipe_inv_def)
  then have "wnap_available (pp_ring s') = 0" by (simp flip: length_contents)
  with s' consume_steps_frame [OF s'(1)] show ?thesis by blast
qed

theorem pipe_delivers_witness:
  "pipe_step\<^sup>*\<^sup>* (pipe_start tiny_ring) (tiny_sent\<lparr>pp_reading := Some (1, [])\<rparr>) \<and>
   (\<exists>s'. consume_step\<^sup>*\<^sup>* (tiny_sent\<lparr>pp_reading := Some (1, [])\<rparr>) s' \<and> pp_received s' = [7] \<and> pp_reading s' = None)"
proof -
  have "pipe_step tiny_sent (tiny_sent\<lparr>pp_reading := Some (1, [])\<rparr>)"
    using consumer [OF Consume_Span, of tiny_sent]
    by (simp add: tiny_sent_def tiny_ring_def wnap_read_span_def wnap_available_def)
  with tiny_sent_reachable have reach: "pipe_step\<^sup>*\<^sup>* (pipe_start tiny_ring) (tiny_sent\<lparr>pp_reading := Some (1, [])\<rparr>)"
    by (rule rtranclp.rtrancl_into_rtrancl)
  from pipe_delivers [OF tiny_ring_init _ this] have "\<exists>s'. consume_step\<^sup>*\<^sup>* (tiny_sent\<lparr>pp_reading := Some (1, [])\<rparr>) s' \<and>
      pp_received s' = pp_sent (tiny_sent\<lparr>pp_reading := Some (1, [])\<rparr>) \<and> pp_reading s' = None" by auto
  with reach show ?thesis by (simp add: tiny_sent_def)
qed

end
