(* ===== verification/Net_Binary.thy ===== *)
theory Net_Binary
  imports Wendy_Prelude
begin

text \<open>
  The CBOR writer and the short names of schema keys of
  \<open>components/wendy_net_common/src/binary.c\<close>. The writer's buffer is what has been written so far,
  or \<^const>\<open>None\<close> for a writer that only measures. A C string is its bytes without the terminator, and a
  null pointer is \<^const>\<open>None\<close>.
\<close>

section \<open>The writer\<close>

record wn_writer =
  w_data :: "bytes option"
  w_size :: nat
  w_capacity :: nat
  w_maximum :: nat
  w_failed :: bool

definition wn_raw :: "wn_writer \<Rightarrow> bytes option \<Rightarrow> nat \<Rightarrow> wn_writer" where
  "wn_raw w data n =
     (if w_failed w \<or> w_maximum w < w_size w \<or> w_maximum w - w_size w < n \<or>
         (w_data w \<noteq> None \<and> (w_capacity w < w_size w \<or> w_capacity w - w_size w < n)) \<or>
         (data = None \<and> n \<noteq> 0)
      then w\<lparr>w_failed := True\<rparr>
      else w\<lparr>w_data := (case (w_data w, data) of (Some out, Some d) \<Rightarrow> Some (out @ take n d) | _ \<Rightarrow> w_data w),
             w_size := w_size w + n\<rparr>)"

definition argument_bytes :: "u64 \<Rightarrow> nat" where
  "argument_bytes n = (if n \<le> 0xff then 1 else if n \<le> 0xffff then 2 else if n \<le> 0xffffffff then 4 else 8)"

definition head_bytes :: "u8 \<Rightarrow> u64 \<Rightarrow> bytes" where
  "head_bytes major n =
     (if n < 24 then [or (push_bit 5 major) (ucast n)]
      else
        let k = argument_bytes n
        in or (push_bit 5 major) (if k = 1 then 24 else if k = 2 then 25 else if k = 4 then 26 else 27) #
           map (\<lambda>i. ucast (drop_bit (8 * (k - 1 - i)) n)) [0..<k])"

definition head :: "wn_writer \<Rightarrow> u8 \<Rightarrow> u64 \<Rightarrow> wn_writer" where
  "head w major n = wn_raw w (Some (head_bytes major n)) (length (head_bytes major n))"

definition wn_map :: "wn_writer \<Rightarrow> nat \<Rightarrow> wn_writer" where
  "wn_map w n = head w 5 (of_nat n)"

definition wn_array :: "wn_writer \<Rightarrow> nat \<Rightarrow> wn_writer" where
  "wn_array w n = head w 4 (of_nat n)"

definition wn_text :: "wn_writer \<Rightarrow> bytes option \<Rightarrow> wn_writer" where
  "wn_text w s =
     (case s of
        None \<Rightarrow> w\<lparr>w_failed := True\<rparr>
      | Some s \<Rightarrow> wn_raw (head w 3 (of_nat (length s))) (Some s) (length s))"

definition wn_bytes :: "wn_writer \<Rightarrow> bytes option \<Rightarrow> nat \<Rightarrow> wn_writer" where
  "wn_bytes w data n = wn_raw (head w 2 (of_nat n)) data n"

definition wn_uint :: "wn_writer \<Rightarrow> u64 \<Rightarrow> wn_writer" where
  "wn_uint w n = head w 0 n"

definition wn_bool :: "wn_writer \<Rightarrow> bool \<Rightarrow> wn_writer" where
  "wn_bool w b = wn_raw w (Some [if b then 0xf5 else 0xf4]) 1"

text \<open>The length, or \<open>-1\<close>; a terminator follows the bytes if the buffer has room for it.\<close>

definition wn_finish :: "wn_writer \<Rightarrow> int \<times> wn_writer" where
  "wn_finish w =
     (if w_failed w \<or> w_size w = 0 \<or> 2147483647 < w_size w then (-1, w)
      else (int (w_size w),
            if w_size w < w_capacity w then w\<lparr>w_data := map_option (\<lambda>d. d @ [0]) (w_data w)\<rparr> else w))"

section \<open>Key names\<close>

fun strcmp :: "bytes \<Rightarrow> bytes \<Rightarrow> int" where
  "strcmp [] [] = 0"
| "strcmp [] (b # bs) = - uint b"
| "strcmp (a # as) [] = uint a"
| "strcmp (a # as) (b # bs) = (if a = b then strcmp as bs else uint a - uint b)"

definition ascii :: "string \<Rightarrow> bytes" where
  "ascii s = map of_char s"

definition key_fields :: "(string \<times> string) list" where
  "key_fields =
   [(''Expires'', ''e''), (''Issued'', ''i''), (''added'', ''a''), (''address'', ''a''),
    (''agentPort'', ''P''), (''agentTransport'', ''T''), (''appEndpoints'', ''a''),
    (''appId'', ''a''), (''attachment'', ''a''), (''ble'', ''b''), (''body'', ''b''),
    (''bundle'', ''b''), (''caps'', ''c''), (''catalog'', ''C''), (''certificate'', ''c''),
    (''certificates'', ''c''), (''chain'', ''c''), (''chunk'', ''d''), (''credit'', ''c''),
    (''data'', ''d''), (''datagram'', ''g''), (''device'', ''d''), (''digest'', ''h''),
    (''endpointListen'', ''e''), (''error'', ''e''), (''ethernet'', ''E''), (''expires'', ''e''),
    (''fingerprint'', ''f''), (''fingerprints'', ''f''), (''generation'', ''G''),
    (''gossip'', ''g''), (''hash'', ''h''), (''hashes'', ''h''), (''hello'', ''h''),
    (''hops'', ''h''), (''hostPort'', ''h''), (''id'', ''i''), (''incarnation'', ''I''),
    (''index'', ''i''), (''infrastructureWifi'', ''i''), (''instance'', ''n''),
    (''ipDatagram'', ''i''), (''issued'', ''i''), (''key'', ''k''), (''kind'', ''k''),
    (''link_id'', ''l''), (''listen'', ''l''), (''live'', ''l''), (''manifest'', ''m''),
    (''mesh'', ''m''), (''missing'', ''m''), (''mtu'', ''m''), (''name'', ''n''), (''nan'', ''n''),
    (''nonce'', ''n''), (''offset'', ''f''), (''op'', ''o''), (''operator'', ''o''),
    (''operatorCertificate'', ''O''), (''operatorReceipts'', ''o''), (''origin'', ''o''),
    (''peer'', ''p''), (''peers'', ''p''), (''platform'', ''l''), (''port'', ''p''),
    (''prefix'', ''p''), (''previous'', ''p''), (''principal'', ''p''), (''proof'', ''p''),
    (''receipts'', ''c''), (''record'', ''R''), (''request'', ''r''), (''requester'', ''r''),
    (''requires'', ''q''), (''retainUntil'', ''r''), (''revision'', ''R''), (''role'', ''r''),
    (''route'', ''r''), (''router'', ''r''), (''routerID'', ''r''), (''routerId'', ''r''),
    (''rx'', ''r''), (''self'', ''s''), (''seqno'', ''s''), (''serviceId'', ''s''),
    (''services'', ''s''), (''signature'', ''s''), (''stream'', ''s''), (''time'', ''t''),
    (''total'', ''l''), (''transcript'', ''t''), (''transport'', ''t''), (''tx'', ''T''),
    (''txt'', ''x''), (''type'', ''t''), (''until'', ''u''), (''used'', ''u''), (''v'', ''v''),
    (''version'', ''v''), (''withdraw'', ''w'')]"

definition field_name :: "nat \<Rightarrow> bytes" where
  "field_name i = ascii (fst (key_fields ! i))"

definition field_key :: "nat \<Rightarrow> bytes" where
  "field_key i = ascii (snd (key_fields ! i))"

function key_search :: "bytes \<Rightarrow> nat \<Rightarrow> nat \<Rightarrow> nat option" where
  "key_search name lo hi =
     (if lo < hi then
        let mid = lo + (hi - lo) div 2;
            c = strcmp name (field_name mid)
        in if c = 0 then Some mid
           else if c < 0 then key_search name lo mid
           else key_search name (mid + 1) hi
      else None)"
  by pat_completeness auto
termination
  by (relation "measure (\<lambda>(_, lo, hi). hi - lo)") auto

declare key_search.simps [simp del]

definition wn_key_name :: "bytes \<Rightarrow> bytes" where
  "wn_key_name name =
     (if strcmp name (ascii ''owner'') = 0 then ascii ''o''
      else if length name < 2 then name
      else case key_search name 0 (length key_fields) of Some i \<Rightarrow> field_key i | None \<Rightarrow> name)"

definition wn_key :: "wn_writer \<Rightarrow> bytes \<Rightarrow> wn_writer" where
  "wn_key w name = wn_text w (Some (wn_key_name name))"

section \<open>Binary search and the table\<close>

definition no_nul :: "bytes \<Rightarrow> bool" where
  "no_nul s \<longleftrightarrow> 0 \<notin> set s"

lemma uint_pos: "a \<noteq> 0 \<Longrightarrow> 0 < uint (a :: u8)"
  by (metis uint_0_iff uint_ge_0 order_le_less)

lemma strcmp_0: "no_nul a \<Longrightarrow> no_nul b \<Longrightarrow> strcmp a b = 0 \<longleftrightarrow> a = b"
proof (induction a b rule: strcmp.induct)
  case (2 b bs)
  then show ?case using uint_pos [of b] by (auto simp: no_nul_def)
next
  case (3 a as)
  then show ?case using uint_pos [of a] by (auto simp: no_nul_def)
qed (auto simp: no_nul_def dest: word_uint_eqI)

lemma strcmp_antisym: "strcmp b a = - strcmp a b"
  by (induction a b rule: strcmp.induct) auto

lemma strcmp_trans: "strcmp a b < 0 \<Longrightarrow> strcmp b c < 0 \<Longrightarrow> strcmp a c < 0"
proof (induction a b arbitrary: c rule: strcmp.induct)
  case (4 a as b bs)
  then show ?case by (cases c) (auto split: if_splits)
next
  case (2 b bs)
  then show ?case by (cases c) (auto split: if_splits)
qed (auto dest: order_le_less_trans [OF uint_ge_0])

fun ascending :: "bytes list \<Rightarrow> bool" where
  "ascending (a # b # xs) \<longleftrightarrow> strcmp a b < 0 \<and> no_nul a \<and> ascending (b # xs)"
| "ascending [a] \<longleftrightarrow> no_nul a"
| "ascending [] \<longleftrightarrow> True"

lemma key_fields_ascending: "ascending (map (\<lambda>f. ascii (fst f)) key_fields)"
  by code_simp

lemma ascending_less:
  "ascending xs \<Longrightarrow> i < j \<Longrightarrow> j < length xs \<Longrightarrow> strcmp (xs ! i) (xs ! j) < 0"
proof (induction xs arbitrary: i j rule: ascending.induct)
  case (1 a b xs)
  obtain k where j: "j = Suc k" using 1(3) by (cases j) auto
  show ?case
  proof (cases i)
    case (Suc i')
    with 1 j show ?thesis by simp
  next
    case 0
    show ?thesis
    proof (cases k)
      case 0
      with \<open>i = 0\<close> j 1(2) show ?thesis by simp
    next
      case (Suc k')
      with 1 j have "strcmp b ((b # xs) ! k) < 0" using 1(1) [of 0 k] by simp
      with \<open>i = 0\<close> j 1(2) show ?thesis using strcmp_trans [of a b] by simp
    qed
  qed
qed auto

lemma ascending_no_nul: "ascending xs \<Longrightarrow> x \<in> set xs \<Longrightarrow> no_nul x"
  by (induction xs rule: ascending.induct) auto

lemma field_less: "i < j \<Longrightarrow> j < length key_fields \<Longrightarrow> strcmp (field_name i) (field_name j) < 0"
  using ascending_less [OF key_fields_ascending, of i j] by (simp add: field_name_def)

lemma field_no_nul: "i < length key_fields \<Longrightarrow> no_nul (field_name i)"
  using ascending_no_nul [OF key_fields_ascending, of "field_name i"] by (simp add: field_name_def)

abbreviation middle :: "nat \<Rightarrow> nat \<Rightarrow> nat" where
  "middle lo hi \<equiv> lo + (hi - lo) div 2"

lemma key_search_step:
  "key_search name lo hi =
    (if lo < hi then if strcmp name (field_name (middle lo hi)) = 0 then Some (middle lo hi)
      else if strcmp name (field_name (middle lo hi)) < 0 then key_search name lo (middle lo hi)
      else key_search name (middle lo hi + 1) hi else None)"
  by (subst key_search.simps) (simp add: Let_def)

lemma key_search_Some: "key_search name lo hi = Some i \<Longrightarrow> lo \<le> i \<and> i < hi \<and> strcmp name (field_name i) = 0"
proof (induction name lo hi rule: key_search.induct)
  case (1 name lo hi)
  let ?mid = "lo + (hi - lo) div 2"
  let ?c = "strcmp name (field_name ?mid)"
  note eq = key_search_step [of name lo hi]
  have lt: "lo < hi" using 1(3) eq by (simp split: if_splits)
  then have mid: "lo \<le> ?mid" "?mid < hi" by auto
  consider "?c = 0" | "?c < 0" | "0 < ?c" by linarith
  then show ?case
  proof cases
    case 1
    with \<open>key_search name lo hi = Some i\<close> eq lt mid show ?thesis by simp
  next
    case 2
    with "1.prems" eq lt have "key_search name lo ?mid = Some i" by simp
    from "1.IH"(1) [OF lt refl refl _ 2 this] 2 mid show ?thesis by simp
  next
    case 3
    with "1.prems" eq lt have "key_search name (?mid + 1) hi = Some i" by simp
    from "1.IH"(2) [OF lt refl refl _ _ this] 3 mid show ?thesis by simp
  qed
qed

lemma key_search_None:
  "key_search name lo hi = None \<Longrightarrow> hi \<le> length key_fields \<Longrightarrow> lo \<le> i \<Longrightarrow> i < hi \<Longrightarrow>
     strcmp name (field_name i) \<noteq> 0"
proof (induction name lo hi rule: key_search.induct)
  case (1 name lo hi)
  let ?mid = "lo + (hi - lo) div 2"
  let ?c = "strcmp name (field_name ?mid)"
  have lt: "lo < hi" using 1(5,6) by simp
  then have mid: "lo \<le> ?mid" "?mid < hi" by auto
  note eq = key_search_step [of name lo hi]
  have c: "?c \<noteq> 0" using 1(3) lt eq by (auto split: if_splits)
  show ?case
  proof (cases "?c < 0")
    case True
    have "key_search name lo ?mid = None"
      using 1(3) lt c True eq by simp
    show ?thesis
    proof (cases "i < ?mid")
      case True
      with 1(1) [OF lt refl refl c \<open>?c < 0\<close>] \<open>key_search name lo ?mid = None\<close> 1(4,5) mid show ?thesis by simp
    next
      case False
      show ?thesis
      proof (cases "i = ?mid")
        case False
        with \<open>\<not> i < ?mid\<close> have "strcmp (field_name ?mid) (field_name i) < 0"
          using field_less [of ?mid i] 1(4,6) by simp
        with strcmp_trans [OF \<open>?c < 0\<close>] show ?thesis by force
      qed (use c in simp)
    qed
  next
    case False
    have none: "key_search name (?mid + 1) hi = None"
      using 1(3) lt c False eq by simp
    show ?thesis
    proof (cases "?mid < i")
      case True
      with 1(2) [OF lt refl refl c False] none 1(4,6) show ?thesis by simp
    next
      case below: False
      show ?thesis
      proof (cases "i = ?mid")
        case False
        with below have less: "strcmp (field_name i) (field_name ?mid) < 0"
          using field_less [of i ?mid] 1(4) mid by simp
        have "strcmp (field_name ?mid) name < 0"
          using strcmp_antisym [of "field_name ?mid" name] c \<open>\<not> ?c < 0\<close> by simp
        from strcmp_trans [OF less this] show ?thesis using strcmp_antisym [of name] by simp
      qed (use c in simp)
    qed
  qed
qed

definition key_table :: "(bytes \<times> bytes) list" where
  "key_table = map (\<lambda>f. (ascii (fst f), ascii (snd f))) key_fields"

lemma short_keys: "\<forall>f \<in> set key_table. length (fst f) < 2 \<longrightarrow> snd f = fst f"
  by code_simp

lemma key_table_nth: "i < length key_fields \<Longrightarrow> key_table ! i = (field_name i, field_key i)"
  by (simp add: key_table_def field_name_def field_key_def)

lemma key_table_length: "length key_table = length key_fields"
  by (simp add: key_table_def)

lemma key_table_distinct: "distinct (map fst key_table)"
proof -
  have ne: "field_name i \<noteq> field_name j" if "i < j" "j < length key_fields" for i j
    using field_less [OF that] that strcmp_0 [OF field_no_nul field_no_nul, of i j] by auto
  show ?thesis unfolding distinct_conv_nth
  proof (intro allI impI)
    fix i j assume "i < length (map fst key_table)" "j < length (map fst key_table)" "i \<noteq> j"
    then show "map fst key_table ! i \<noteq> map fst key_table ! j"
      using ne [of i j] ne [of j i] by (cases "i < j") (simp_all add: key_table_length key_table_nth)
  qed
qed

section \<open>What a sequence of calls writes\<close>

datatype wn_call = Raw "bytes option" nat | Map_head nat | Array_head nat | Text "bytes option"
  | Bytes "bytes option" nat | Uint u64 | Bool bool | Key bytes

fun do_call :: "wn_call \<Rightarrow> wn_writer \<Rightarrow> wn_writer" where
  "do_call (Raw d n) w = wn_raw w d n"
| "do_call (Map_head n) w = wn_map w n"
| "do_call (Array_head n) w = wn_array w n"
| "do_call (Text t) w = wn_text w t"
| "do_call (Bytes d n) w = wn_bytes w d n"
| "do_call (Uint n) w = wn_uint w n"
| "do_call (Bool b) w = wn_bool w b"
| "do_call (Key name) w = wn_key w name"

text \<open>The caller's part: a pointer that is not null has as many bytes as the call says.\<close>

fun call_wf :: "wn_call \<Rightarrow> bool" where
  "call_wf (Raw (Some d) n) \<longleftrightarrow> n \<le> length d"
| "call_wf (Bytes (Some d) n) \<longleftrightarrow> n \<le> length d"
| "call_wf _ \<longleftrightarrow> True"

text \<open>A call with a null pointer for bytes it needs fails the writer.\<close>

fun call_ok :: "wn_call \<Rightarrow> bool" where
  "call_ok (Raw None n) \<longleftrightarrow> n = 0"
| "call_ok (Bytes None n) \<longleftrightarrow> n = 0"
| "call_ok (Text None) \<longleftrightarrow> False"
| "call_ok _ \<longleftrightarrow> True"

definition given :: "bytes option \<Rightarrow> nat \<Rightarrow> bytes" where
  "given d n = (case d of None \<Rightarrow> [] | Some d \<Rightarrow> take n d)"

definition text_bytes :: "bytes \<Rightarrow> bytes" where
  "text_bytes t = head_bytes 3 (of_nat (length t)) @ t"

fun call_bytes :: "wn_call \<Rightarrow> bytes" where
  "call_bytes (Raw d n) = given d n"
| "call_bytes (Map_head n) = head_bytes 5 (of_nat n)"
| "call_bytes (Array_head n) = head_bytes 4 (of_nat n)"
| "call_bytes (Text t) = (case t of None \<Rightarrow> [] | Some t \<Rightarrow> text_bytes t)"
| "call_bytes (Bytes d n) = head_bytes 2 (of_nat n) @ given d n"
| "call_bytes (Uint n) = head_bytes 0 n"
| "call_bytes (Bool b) = [if b then 0xf5 else 0xf4]"
| "call_bytes (Key name) = text_bytes (wn_key_name name)"

definition fresh_writer :: "bool \<Rightarrow> nat \<Rightarrow> nat \<Rightarrow> wn_writer" where
  "fresh_writer store capacity maximum = \<lparr>w_data = (if store then Some [] else None), w_size = 0,
     w_capacity = capacity, w_maximum = maximum, w_failed = False\<rparr>"

text \<open>The bytes written so far fit.\<close>

definition fits :: "bool \<Rightarrow> nat \<Rightarrow> nat \<Rightarrow> nat \<Rightarrow> bool" where
  "fits store capacity maximum n \<longleftrightarrow> n \<le> maximum \<and> (store \<longrightarrow> n \<le> capacity)"

definition wrote :: "bool \<Rightarrow> nat \<Rightarrow> nat \<Rightarrow> bytes \<Rightarrow> wn_writer" where
  "wrote store capacity maximum bs = \<lparr>w_data = (if store then Some bs else None), w_size = length bs,
     w_capacity = capacity, w_maximum = maximum, w_failed = False\<rparr>"

lemma wn_raw_wrote:
  assumes "fits store capacity maximum (length bs)"
  shows "wn_raw (wrote store capacity maximum bs) (Some d) (length d) =
    (if fits store capacity maximum (length (bs @ d)) then wrote store capacity maximum (bs @ d)
     else (wrote store capacity maximum bs)\<lparr>w_failed := True\<rparr>)"
  using assms by (auto simp: wn_raw_def wrote_def fits_def)

lemma wn_raw_failed [simp]: "w_failed w \<Longrightarrow> wn_raw w d n = w"
  by (simp add: wn_raw_def)

lemma wn_call_failed: "w_failed w \<Longrightarrow> do_call c w = w"
  by (cases c) (auto simp: wn_map_def wn_array_def wn_text_def wn_bytes_def wn_uint_def wn_bool_def wn_key_def
      head_def split: option.split)

lemma wn_calls_failed: "w_failed w \<Longrightarrow> fold do_call cs w = w"
  by (induction cs) (auto simp: wn_call_failed)

lemma wn_raw_given:
  assumes "fits store capacity maximum (length bs)" and "case d of None \<Rightarrow> n = 0 | Some d \<Rightarrow> n \<le> length d"
  shows "wn_raw (wrote store capacity maximum bs) d n =
    (if fits store capacity maximum (length (bs @ given d n)) then wrote store capacity maximum (bs @ given d n)
     else (wrote store capacity maximum bs)\<lparr>w_failed := True\<rparr>)"
proof (cases d)
  case None
  with assms show ?thesis by (auto simp: wn_raw_def wrote_def fits_def given_def)
next
  case (Some x)
  with assms show ?thesis by (auto simp: wn_raw_def wrote_def fits_def given_def)
qed

text \<open>One call, from a writer that holds \<open>bs\<close>.\<close>

lemma wn_call_wrote:
  assumes "fits store capacity maximum (length bs)" "call_wf c"
  shows "if call_ok c \<and> fits store capacity maximum (length (bs @ call_bytes c))
    then do_call c (wrote store capacity maximum bs) = wrote store capacity maximum (bs @ call_bytes c)
    else w_failed (do_call c (wrote store capacity maximum bs))"
proof -
  let ?W = "wrote store capacity maximum"
  have two: "if fits store capacity maximum (length (bs @ a @ given d n))
    then wn_raw (wn_raw (?W bs) (Some a) (length a)) d n = ?W (bs @ a @ given d n)
    else w_failed (wn_raw (wn_raw (?W bs) (Some a) (length a)) d n)"
    if "case d of None \<Rightarrow> n = 0 | Some d \<Rightarrow> n \<le> length d" for a d n
  proof (cases "fits store capacity maximum (length (bs @ a))")
    case True
    with wn_raw_wrote [OF assms(1), of a] wn_raw_given [OF True that] show ?thesis by simp
  next
    case False
    then have "\<not> fits store capacity maximum (length (bs @ a @ given d n))" by (auto simp: fits_def)
    with False wn_raw_wrote [OF assms(1), of a] show ?thesis by simp
  qed
  have txt1: "if fits store capacity maximum (length (bs @ text_bytes t))
    then wn_text (?W bs) (Some t) = ?W (bs @ text_bytes t) else w_failed (wn_text (?W bs) (Some t))" for t
    using two [where d = "Some t" and n = "length t" and a = "head_bytes 3 (of_nat (length t))"]
    by (simp add: wn_text_def head_def text_bytes_def given_def)
  show ?thesis
  proof (cases c)
    case (Raw d n)
    show ?thesis
    proof (cases "call_ok c")
      case True
      with Raw assms wn_raw_given [OF assms(1), where d = d and n = n] show ?thesis by (cases d) auto
    next
      case False
      with Raw show ?thesis by (cases d) (auto simp: wn_raw_def)
    qed
  next
    case (Bytes d n)
    show ?thesis
    proof (cases "call_ok c")
      case True
      with Bytes assms two [where d = d and n = n and a = "head_bytes 2 (of_nat n)"] show ?thesis
        by (cases d) (auto simp: wn_bytes_def head_def)
    next
      case False
      with Bytes show ?thesis by (cases d) (auto simp: wn_bytes_def wn_raw_def)
    qed
  next
    case (Text t)
    show ?thesis
    proof (cases t)
      case None
      with Text show ?thesis by (simp add: wn_text_def)
    next
      case (Some x)
      with Text txt1 [of x] show ?thesis by simp
    qed
  next
    case (Key name)
    with txt1 [of "wn_key_name name"] show ?thesis by (simp add: wn_key_def)
  next
    case (Bool b)
    with wn_raw_wrote [OF assms(1), of "[if b then 0xf5 else 0xf4]"] show ?thesis by (simp add: wn_bool_def)
  qed (use wn_raw_wrote [OF assms(1)] in \<open>auto simp: wn_map_def wn_array_def wn_uint_def wn_bool_def head_def\<close>)
qed

lemma wn_calls_wrote:
  assumes "fits store capacity maximum (length acc)" "\<forall>c \<in> set cs. call_wf c"
  shows "if (\<forall>c \<in> set cs. call_ok c) \<and> fits store capacity maximum (length (acc @ concat (map call_bytes cs)))
    then fold do_call cs (wrote store capacity maximum acc) =
      wrote store capacity maximum (acc @ concat (map call_bytes cs))
    else w_failed (fold do_call cs (wrote store capacity maximum acc))"
  using assms
proof (induction cs arbitrary: acc)
  case (Cons c cs)
  let ?W = "wrote store capacity maximum" and ?f = "fits store capacity maximum"
  note one = wn_call_wrote [OF Cons.prems(1), of c]
  show ?case
  proof (cases "call_ok c \<and> ?f (length (acc @ call_bytes c))")
    case True
    then have "do_call c (?W acc) = ?W (acc @ call_bytes c)" using one Cons.prems(2) by simp
    with Cons.IH [of "acc @ call_bytes c"] True Cons.prems(2) show ?thesis by simp
  next
    case False
    then have "w_failed (do_call c (?W acc))" using one Cons.prems(2) by (simp split: if_splits)
    moreover have "\<not> (call_ok c \<and> ?f (length (acc @ call_bytes c @ concat (map call_bytes cs))))"
      using False by (auto simp: fits_def)
    ultimately show ?thesis by (auto simp: wn_calls_failed)
  qed
qed simp

lemma fresh_writer_wrote: "fresh_writer store capacity maximum = wrote store capacity maximum []"
  by (simp add: fresh_writer_def wrote_def)

section \<open>Properties\<close>

text \<open>C20: the binary search for a key's short name agrees with a lookup in the table: \<open>owner\<close> is
  \<open>o\<close>, a name of the table is its key, and every other name is itself.\<close>

theorem wn_key_name_lookup:
  assumes "no_nul name"
  shows "wn_key_name name =
    (if name = ascii ''owner'' then ascii ''o''
     else case map_of key_table name of Some k \<Rightarrow> k | None \<Rightarrow> name)"
proof -
  have owner: "strcmp name (ascii ''owner'') = 0 \<longleftrightarrow> name = ascii ''owner''"
    using assms by (rule strcmp_0) (simp add: no_nul_def ascii_def)
  show ?thesis
  proof (cases "length name < 2")
    case True
    have "case map_of key_table name of Some k \<Rightarrow> k = name | None \<Rightarrow> True"
      using short_keys True by (auto split: option.split dest!: map_of_SomeD)
    with True owner show ?thesis by (auto simp: wn_key_name_def split: option.splits)
  next
    case False
    show ?thesis
    proof (cases "key_search name 0 (length key_fields)")
      case None
      have "name \<notin> fst ` set key_table"
      proof
        assume "name \<in> fst ` set key_table"
        then obtain f where f: "f \<in> set key_table" "name = fst f" by blast
        then obtain i where "i < length key_table" "f = key_table ! i" by (auto simp: in_set_conv_nth)
        then have i: "i < length key_fields" "name = field_name i"
          using f(2) by (simp_all add: key_table_length key_table_nth)
        with key_search_None [OF None] strcmp_0 [OF assms field_no_nul] show False by auto
      qed
      then have "map_of key_table name = None" by (simp add: map_of_eq_None_iff)
      with None False owner show ?thesis by (simp add: wn_key_name_def)
    next
      case (Some i)
      then have i: "i < length key_fields" "field_name i = name"
        using key_search_Some [OF Some] strcmp_0 [OF assms field_no_nul] by auto
      have "(name, field_key i) \<in> set key_table"
        using i key_table_nth [OF i(1)] nth_mem [of i key_table] by (simp add: key_table_def)
      then have "map_of key_table name = Some (field_key i)"
        using key_table_distinct by (simp add: map_of_eq_Some_iff)
      with Some False owner show ?thesis by (simp add: wn_key_name_def)
    qed
  qed
qed

text \<open>C21: a sequence of writer calls fails exactly when a needed pointer is null or the bytes exceed
  the maximum or the buffer; otherwise the writer holds the concatenation of what the calls stand for
  and has counted its length. A measuring writer counts the same.\<close>

theorem wn_calls_exact:
  fixes store capacity maximum cs
  defines "bs \<equiv> concat (map call_bytes cs)"
  assumes "\<forall>c \<in> set cs. call_wf c"
  shows "if (\<forall>c \<in> set cs. call_ok c) \<and> fits store capacity maximum (length bs)
    then fold do_call cs (fresh_writer store capacity maximum) = wrote store capacity maximum bs
    else w_failed (fold do_call cs (fresh_writer store capacity maximum))"
proof -
  have "fits store capacity maximum (length [])" by (simp add: fits_def)
  from wn_calls_wrote [OF this assms(2)] show ?thesis by (simp add: bs_def fresh_writer_wrote)
qed

theorem wn_key_name_lookup_witness:
  "no_nul (ascii ''digest'') \<and> wn_key_name (ascii ''digest'') = ascii ''h'' \<and>
   wn_key_name (ascii ''unlisted'') = ascii ''unlisted''"
proof -
  have ok: "no_nul (ascii ''digest'')" "no_nul (ascii ''unlisted'')"
    and found: "map_of key_table (ascii ''digest'') = Some (ascii ''h'')"
    and absent: "map_of key_table (ascii ''unlisted'') = None"
    and other: "ascii ''digest'' \<noteq> ascii ''owner''" "ascii ''unlisted'' \<noteq> ascii ''owner''"
    by code_simp+
  show ?thesis
    using wn_key_name_lookup [OF ok(1)] wn_key_name_lookup [OF ok(2)] found absent other ok(1) by simp
qed

theorem wn_calls_exact_witness:
  "fold do_call [Map_head 1, Key (ascii ''digest''), Uint 500] (fresh_writer True 16 16) =
     wrote True 16 16 [0xa1, 0x61, 0x68, 0x19, 0x01, 0xf4] \<and>
   w_failed (fold do_call [Map_head 1, Key (ascii ''digest''), Uint 500] (fresh_writer True 5 16))"
proof -
  let ?cs = "[Map_head 1, Key (ascii ''digest''), Uint 500]"
  have wf: "\<forall>c \<in> set ?cs. call_wf c" and ok: "\<forall>c \<in> set ?cs. call_ok c" by simp_all
  have bs: "concat (map call_bytes ?cs) = [0xa1, 0x61, 0x68, 0x19, 0x01, 0xf4]" by code_simp
  show ?thesis
    using wn_calls_exact [OF wf, of True 16 16] wn_calls_exact [OF wf, of True 5 16] ok
    unfolding bs by (simp add: fits_def)
qed

end
