(* ===== verification/Peer_Utf8.thy ===== *)
theory Peer_Utf8
  imports Wendy_Prelude
begin

text \<open>
  The check of text strings in \<open>components/wendy_net_peer/src/binary.c\<close> (\<open>utf8\<close>), and that it is
  exactly the well-formed UTF-8 of Unicode scalar values.
\<close>

section \<open>The check\<close>

text \<open>The first byte of a longer sequence: how many bytes follow and the bits it contributes.\<close>

definition utf8_lead :: "u32 \<Rightarrow> (nat \<times> u32) option" where
  "utf8_lead code =
     (if 0xc2 \<le> code \<and> code \<le> 0xdf then Some (1, code AND 0x1f)
      else if 0xe0 \<le> code \<and> code \<le> 0xef then Some (2, code AND 0x0f)
      else if 0xf0 \<le> code \<and> code \<le> 0xf4 then Some (3, code AND 7)
      else None)"

fun utf8_rest :: "nat \<Rightarrow> u32 \<Rightarrow> bytes \<Rightarrow> u32 option" where
  "utf8_rest (Suc n) code (c # r) =
     (if c AND 0xc0 \<noteq> 0x80 then None else utf8_rest n (push_bit 6 code OR ucast (c AND 0x3f)) r)"
| "utf8_rest (Suc n) code [] = None"
| "utf8_rest 0 code r = Some code"

definition utf8_refused :: "nat \<Rightarrow> u32 \<Rightarrow> bool" where
  "utf8_refused cnt code \<longleftrightarrow> (cnt = 2 \<and> code < 0x800) \<or> (cnt = 3 \<and> code < 0x10000) \<or>
     (0xd800 \<le> code \<and> code \<le> 0xdfff) \<or> 0x10ffff < code"

function utf8 :: "bytes \<Rightarrow> bool" where
  "utf8 bytes =
     (case bytes of
        [] \<Rightarrow> True
      | b # r \<Rightarrow>
          if (ucast b :: u32) < 0x80 then utf8 r
          else case utf8_lead (ucast b) of
                 None \<Rightarrow> False
               | Some (rest, code) \<Rightarrow>
                   if length r < rest then False
                   else case utf8_rest rest code r of
                          None \<Rightarrow> False
                        | Some code \<Rightarrow> \<not> utf8_refused rest code \<and> utf8 (drop rest r))"
  by pat_completeness auto
termination
  by (relation "measure length") auto

declare utf8.simps [simp del]

section \<open>UTF-8\<close>

definition scalar :: "nat \<Rightarrow> bool" where
  "scalar c \<longleftrightarrow> c \<le> 0x10ffff \<and> \<not> (0xd800 \<le> c \<and> c \<le> 0xdfff)"

definition utf8_encode :: "nat \<Rightarrow> bytes" where
  "utf8_encode c =
     (if c < 0x80 then [of_nat c]
      else if c < 0x800 then [of_nat (0xc0 + c div 64), of_nat (0x80 + c mod 64)]
      else if c < 0x10000 then [of_nat (0xe0 + c div 4096), of_nat (0x80 + c div 64 mod 64), of_nat (0x80 + c mod 64)]
      else [of_nat (0xf0 + c div 262144), of_nat (0x80 + c div 4096 mod 64), of_nat (0x80 + c div 64 mod 64),
            of_nat (0x80 + c mod 64)])"

section \<open>Bytes as numbers\<close>

lemma byte_less: "unat (b :: u8) < 256"
proof -
  have "unat b < 2 ^ LENGTH(8)" by (rule unsigned_less)
  then show ?thesis by simp
qed

lemma mask_6: "(0x3f :: u8) = mask 6"
  by (simp add: mask_eq_exp_minus_1)

lemma low_bits: "unat (b AND 0x3f :: u8) = unat b mod 64"
  by (simp add: mask_6 flip: take_bit_eq_mask) (simp add: unsigned_take_bit_eq take_bit_nat_def)

lemma continuation: "b AND 0xc0 = (0x80 :: u8) \<longleftrightarrow> 128 \<le> unat b \<and> unat b < 192"
proof -
  have "b AND push_bit 6 (mask 2) = push_bit 6 (drop_bit 6 b)"
    by (rule bit_word_eqI) (auto simp: bit_simps)
  moreover have "push_bit 6 (mask 2) = (0xc0 :: u8)" by (simp add: mask_eq_exp_minus_1)
  moreover have "unat (push_bit 6 (drop_bit 6 b)) = unat b div 64 * 64"
    using byte_less [of b] by (simp add: push_bit_eq_mult drop_bit_eq_div unat_div_distrib unat_word_ariths)
  ultimately have "unat (b AND 0xc0) = unat b div 64 * 64" by simp
  moreover have "b AND 0xc0 = 0x80 \<longleftrightarrow> unat (b AND 0xc0) = 128"
    by (simp only: word_unat_eq_iff) simp
  ultimately show ?thesis by auto
qed

lemma unat_ucast_byte: "unat (ucast (b :: u8) :: u32) = unat b"
proof -
  have "unat b < 2 ^ 32" using byte_less [of b] by simp
  then show ?thesis by (simp add: unsigned_ucast_eq take_bit_nat_eq_self)
qed

lemma ascii_byte: "(ucast (b :: u8) :: u32) < 0x80 \<longleftrightarrow> unat b < 128"
  by (simp add: word_less_nat_alt unat_ucast_byte)

lemma and_low: "unat ((ucast (b :: u8) :: u32) AND mask n) = unat b mod 2 ^ n"
  by (simp add: unsigned_take_bit_eq unat_ucast_byte take_bit_nat_def flip: take_bit_eq_mask)

lemma word_of_unat: "unat w = n \<Longrightarrow> w = (of_nat n :: u32)"
  by auto

lemma utf8_lead_nat:
  "utf8_lead (ucast (b :: u8)) =
     (if 194 \<le> unat b \<and> unat b \<le> 223 then Some (1, of_nat (unat b - 192))
      else if 224 \<le> unat b \<and> unat b \<le> 239 then Some (2, of_nat (unat b - 224))
      else if 240 \<le> unat b \<and> unat b \<le> 244 then Some (3, of_nat (unat b - 240)) else None)"
proof -
  have m: "(0x1f :: u32) = mask 5" "(0x0f :: u32) = mask 4" "(7 :: u32) = mask 3"
    by (simp_all add: mask_eq_exp_minus_1)
  have low: "n mod m = n - m * q" if "m * q \<le> n" "n < m * q + m" for n m q :: nat
    using that by (metis add.commute le_add_diff_inverse less_diff_conv2 mod_less mod_mult_self2)
  have "194 \<le> unat b \<Longrightarrow> unat b \<le> 223 \<Longrightarrow> (ucast b :: u32) AND mask 5 = of_nat (unat b - 192)"
    "224 \<le> unat b \<Longrightarrow> unat b \<le> 239 \<Longrightarrow> (ucast b :: u32) AND mask 4 = of_nat (unat b - 224)"
    "240 \<le> unat b \<Longrightarrow> unat b \<le> 244 \<Longrightarrow> (ucast b :: u32) AND mask 3 = of_nat (unat b - 240)"
    using low [of 32 6 "unat b"] low [of 16 14 "unat b"] low [of 8 30 "unat b"]
    by (intro word_of_unat, simp only: and_low, simp)+
  then show ?thesis
    by (simp add: utf8_lead_def m word_le_nat_alt unat_ucast_byte)
qed

lemma shift_in_bits:
  "push_bit 6 (of_nat k) OR ucast (b AND 0x3f :: u8) = (of_nat (k * 64 + unat b mod 64) :: u32)"
proof -
  have "mask 6 = (0x3f :: u8)" by (simp add: mask_eq_exp_minus_1)
  then have "push_bit 6 (of_nat k :: u32) AND ucast (b AND 0x3f) = 0"
    by (intro bit_word_eqI) (auto simp: bit_simps simp flip: \<open>mask 6 = _\<close>)
  then have "push_bit 6 (of_nat k :: u32) OR ucast (b AND 0x3f) = push_bit 6 (of_nat k) + ucast (b AND 0x3f)"
    using word_plus_and_or [of "push_bit 6 (of_nat k :: u32)" "ucast (b AND 0x3f)"] by simp
  also have "\<dots> = of_nat (k * 64 + unat (b AND 0x3f))"
    by (simp add: push_bit_eq_mult mult.commute)
  finally show ?thesis by (simp only: low_bits)
qed

definition is_cont :: "u8 \<Rightarrow> bool" where
  "is_cont b \<longleftrightarrow> 128 \<le> unat b \<and> unat b < 192"

fun cont_value :: "nat \<Rightarrow> bytes \<Rightarrow> nat" where
  "cont_value k [] = k"
| "cont_value k (b # r) = cont_value (k * 64 + unat b mod 64) r"

lemma utf8_rest_nat:
  "utf8_rest n (of_nat k) r =
     (if n \<le> length r \<and> list_all is_cont (take n r) then Some (of_nat (cont_value k (take n r))) else None)"
proof (induction n arbitrary: k r)
  case (Suc n)
  then show ?case by (cases r) (auto simp: continuation is_cont_def shift_in_bits simp del: of_nat_add of_nat_mult)
qed simp

lemma of_nat_byte: "unat b = n \<Longrightarrow> (of_nat n :: u8) = b"
  by auto

lemma utf8_refused_nat:
  "c < 2097152 \<Longrightarrow> utf8_refused n (of_nat c) \<longleftrightarrow> (n = 2 \<and> c < 0x800) \<or> (n = 3 \<and> c < 0x10000) \<or> \<not> scalar c"
  by (auto simp: utf8_refused_def scalar_def word_less_nat_alt word_le_nat_alt unat_of_nat)

text \<open>The bytes of a character, given as the groups of its bits.\<close>

lemma encode_groups:
  assumes "j1 < 64" "j2 < 64" "j3 < 64"
  shows "2 \<le> k \<Longrightarrow> k < 32 \<Longrightarrow> utf8_encode (k * 64 + j1) = [of_nat (192 + k), of_nat (128 + j1)]"
    and "k < 16 \<Longrightarrow> 0x800 \<le> (k * 64 + j1) * 64 + j2 \<Longrightarrow>
      utf8_encode ((k * 64 + j1) * 64 + j2) = [of_nat (224 + k), of_nat (128 + j1), of_nat (128 + j2)]"
    and "k < 8 \<Longrightarrow> 0x10000 \<le> ((k * 64 + j1) * 64 + j2) * 64 + j3 \<Longrightarrow>
      utf8_encode (((k * 64 + j1) * 64 + j2) * 64 + j3) =
        [of_nat (240 + k), of_nat (128 + j1), of_nat (128 + j2), of_nat (128 + j3)]"
proof -
  have g: "(a * 64 + j) div 64 = a" "(a * 64 + j) mod 64 = j" if "j < 64" for a j :: nat using that by simp_all
  have d: "n div 4096 = n div 64 div 64" "n div 262144 = n div 64 div 64 div 64" for n :: nat
    by (simp_all add: div_mult2_eq [symmetric])
  show "2 \<le> k \<Longrightarrow> k < 32 \<Longrightarrow> utf8_encode (k * 64 + j1) = [of_nat (192 + k), of_nat (128 + j1)]"
    using assms by (simp add: utf8_encode_def g)
  show "k < 16 \<Longrightarrow> 0x800 \<le> (k * 64 + j1) * 64 + j2 \<Longrightarrow>
      utf8_encode ((k * 64 + j1) * 64 + j2) = [of_nat (224 + k), of_nat (128 + j1), of_nat (128 + j2)]"
    using assms unfolding utf8_encode_def d by (simp only: g) auto
  show "k < 8 \<Longrightarrow> 0x10000 \<le> ((k * 64 + j1) * 64 + j2) * 64 + j3 \<Longrightarrow>
      utf8_encode (((k * 64 + j1) * 64 + j2) * 64 + j3) =
        [of_nat (240 + k), of_nat (128 + j1), of_nat (128 + j2), of_nat (128 + j3)]"
    using assms unfolding utf8_encode_def d by (simp only: g) auto
qed

lemma group_less: "x < a \<Longrightarrow> j < 64 \<Longrightarrow> x * 64 + j < a * (64 :: nat)"
  using mult_le_mono1 [of "x + 1" a 64] by simp

lemma contE:
  assumes "is_cont x"
  obtains j where "j < 64" "x = of_nat (128 + j)" "unat x mod 64 = j"
proof (rule that [of "unat x - 128"])
  have "unat x = 128 + (unat x - 128)" "unat x - 128 < 64" using assms by (auto simp: is_cont_def)
  then show "unat x - 128 < 64" "x = of_nat (128 + (unat x - 128))" by (simp_all del: of_nat_add)
  have "(64 * 2 + (unat x - 128)) mod 64 = (unat x - 128) mod 64" by (rule mod_mult_self4)
  with \<open>unat x = 128 + (unat x - 128)\<close> \<open>unat x - 128 < 64\<close> show "unat x mod 64 = unat x - 128" by simp
qed

lemma is_cont_byte: "j < 64 \<Longrightarrow> is_cont (of_nat (128 + j))"
  by (simp add: is_cont_def unat_of_nat del: of_nat_add)

lemma cont_mod: "j < 64 \<Longrightarrow> unat (of_nat (128 + j) :: u8) mod 64 = j"
proof -
  assume j: "j < 64"
  have "(64 * 2 + j) mod 64 = j mod 64" by (rule mod_mult_self4)
  with j show ?thesis by (simp add: unat_of_nat del: of_nat_add)
qed

lemma length_take_split: "n \<le> length r \<Longrightarrow> \<exists>x xs. r = x @ xs \<and> length x = n"
  by (metis append_take_drop_id length_take min.absorb2)

lemma utf8_char:
  assumes "utf8 (b # r)"
  obtains c n where "scalar c" "b # r = utf8_encode c @ drop n r" "utf8 (drop n r)" "n \<le> length r"
proof (cases "unat b < 128")
  case True
  with assms have "utf8 r" by (subst (asm) utf8.simps) (simp add: ascii_byte)
  with True show thesis by (intro that [of "unat b" 0]) (simp_all add: scalar_def utf8_encode_def)
next
  case False
  from assms have body: "case utf8_lead (ucast b) of None \<Rightarrow> False | Some (rest, code) \<Rightarrow>
      if length r < rest then False
      else case utf8_rest rest code r of None \<Rightarrow> False | Some code \<Rightarrow> \<not> utf8_refused rest code \<and> utf8 (drop rest r)"
    unfolding utf8.simps [of "b # r"] using False by (simp add: ascii_byte)
  then obtain n code where lead0: "utf8_lead (ucast b) = Some (n, code)"
    by (cases "utf8_lead (ucast b)") auto
  have len: "n \<le> length r" using body by (simp add: lead0 split: if_splits)
  have rest0: "\<exists>code'. utf8_rest n code r = Some code' \<and> \<not> utf8_refused n code'" and rest2: "utf8 (drop n r)"
    using body len by (cases "utf8_rest n code r"; simp add: lead0)+
  from lead0 obtain k where code: "code = of_nat k" and nk: "(n, k) \<in> {(1, unat b - 192), (2, unat b - 224), (3, unat b - 240)}"
    unfolding utf8_lead_nat by (auto split: if_splits)
  note lead = lead0 [unfolded code] and rest = rest0 [unfolded code] rest2
  have cont: "list_all is_cont (take n r)" "\<not> utf8_refused n (of_nat (cont_value k (take n r)))"
    using rest(1) by (auto simp: utf8_rest_nat split: if_splits)
  from nk consider "n = 1" "k = unat b - 192" | "n = 2" "k = unat b - 224" | "n = 3" "k = unat b - 240" by auto
  then show thesis
  proof cases
    case 1
    then have b: "b = of_nat (192 + k)" "2 \<le> k" "k < 32" using lead by (auto simp: utf8_lead_nat split: if_splits)
    obtain x r' where r: "r = x # r'" using len 1 by (cases r) auto
    obtain j where j: "j < 64" "x = of_nat (128 + j)" "unat x mod 64 = j"
      by (rule contE [of x]) (use cont(1) in \<open>simp add: r 1(1)\<close>)
    have c: "cont_value k (take n r) = k * 64 + j" by (simp add: r 1(1) j(3))
    have lt: "k * 64 + j < 2097152" using b(3) j(1) by linarith
    have "scalar (k * 64 + j)" using cont(2) unfolding c utf8_refused_nat [OF lt] by simp
    then show thesis
      using rest(2) encode_groups(1) [OF j(1,1,1) b(2,3)] len
      by (intro that [of "k * 64 + j" n]) (simp_all add: r 1(1) b(1) j(2) del: of_nat_add)
  next
    case 2
    then have b: "b = of_nat (224 + k)" "k < 16" using lead by (auto simp: utf8_lead_nat split: if_splits)
    obtain x y r' where r: "r = x # y # r'" using len 2 by (cases r; cases "tl r") auto
    obtain j1 where j1: "j1 < 64" "x = of_nat (128 + j1)" "unat x mod 64 = j1"
      by (rule contE [of x]) (use cont(1) in \<open>simp add: r 2(1)\<close>)
    obtain j2 where j2: "j2 < 64" "y = of_nat (128 + j2)" "unat y mod 64 = j2"
      by (rule contE [of y]) (use cont(1) in \<open>simp add: r 2(1)\<close>)
    let ?c = "(k * 64 + j1) * 64 + j2"
    have c: "cont_value k (take n r) = ?c" by (simp add: r 2(1) j1(3) j2(3))
    have lt: "?c < 2097152" using group_less [OF group_less [OF b(2) j1(1)] j2(1)] by simp
    have "scalar ?c" "0x800 \<le> ?c" using cont(2) 2(1) unfolding c utf8_refused_nat [OF lt] by simp_all
    then show thesis
      using rest(2) encode_groups(2) [OF j1(1) j2(1,1) b(2)] len
      by (intro that [of ?c n]) (simp_all add: r 2(1) b(1) j1(2) j2(2) del: of_nat_add)
  next
    case 3
    then have b: "b = of_nat (240 + k)" "k < 8" using lead by (auto simp: utf8_lead_nat split: if_splits)
    obtain x y z r' where r: "r = x # y # z # r'" using len 3 by (cases r; cases "tl r"; cases "tl (tl r)") auto
    obtain j1 where j1: "j1 < 64" "x = of_nat (128 + j1)" "unat x mod 64 = j1"
      by (rule contE [of x]) (use cont(1) in \<open>simp add: r 3(1)\<close>)
    obtain j2 where j2: "j2 < 64" "y = of_nat (128 + j2)" "unat y mod 64 = j2"
      by (rule contE [of y]) (use cont(1) in \<open>simp add: r 3(1)\<close>)
    obtain j3 where j3: "j3 < 64" "z = of_nat (128 + j3)" "unat z mod 64 = j3"
      by (rule contE [of z]) (use cont(1) in \<open>simp add: r 3(1) numeral_3_eq_3\<close>)
    let ?c = "((k * 64 + j1) * 64 + j2) * 64 + j3"
    have c: "cont_value k (take n r) = ?c" by (simp add: r 3(1) j1(3) j2(3) j3(3))
    have lt: "?c < 2097152" using group_less [OF group_less [OF group_less [OF b(2) j1(1)] j2(1)] j3(1)] by simp
    have "scalar ?c" "0x10000 \<le> ?c" using cont(2) 3(1) unfolding c utf8_refused_nat [OF lt] by simp_all
    then show thesis
      using rest(2) encode_groups(3) [OF j1(1) j2(1) j3(1) b(2)] len
      by (intro that [of ?c n]) (simp_all add: r 3(1) b(1) j1(2) j2(2) j3(2) del: of_nat_add)
  qed
qed

lemma utf8_append:
  assumes "scalar c"
  shows "utf8 (utf8_encode c @ r) \<longleftrightarrow> utf8 r"
proof -
  have step: "utf8 (of_nat (base + k) # bs @ r) \<longleftrightarrow> utf8 r"
    if lead: "utf8_lead (ucast (of_nat (base + k) :: u8)) = Some (length bs, of_nat k)" and "128 \<le> base + k" "base + k < 256"
      and "list_all is_cont bs" "cont_value k bs = c" "\<not> (length bs = 2 \<and> c < 0x800)" "\<not> (length bs = 3 \<and> c < 0x10000)"
    for base k and bs :: bytes
  proof -
    have "c < 2097152" using assms by (simp add: scalar_def)
    then have "\<not> utf8_refused (length bs) (of_nat c)" using assms that(6,7) by (simp only: utf8_refused_nat) auto
    moreover have "\<not> unat (of_nat (base + k) :: u8) < 128" using that(2,3) by (simp add: unat_of_nat del: of_nat_add)
    ultimately show ?thesis using that(4,5)
      by (subst utf8.simps) (simp add: ascii_byte lead utf8_rest_nat del: of_nat_add)
  qed
  have lead: "utf8_lead (ucast (of_nat m :: u8)) =
     (if 194 \<le> m \<and> m \<le> 223 then Some (1, of_nat (m - 192))
      else if 224 \<le> m \<and> m \<le> 239 then Some (2, of_nat (m - 224))
      else if 240 \<le> m \<and> m \<le> 244 then Some (3, of_nat (m - 240)) else None)" if "m < 256" for m
    using that by (simp add: utf8_lead_nat unat_of_nat)
  have c: "c \<le> 0x10ffff" using assms by (simp add: scalar_def)
  have m: "c mod 64 < 64" "c div 64 mod 64 < 64" "c div 4096 mod 64 < 64" by simp_all
  have groups: "c div 64 * 64 + c mod 64 = c" "c div 4096 * 64 + c div 64 mod 64 = c div 64"
    "c div 262144 * 64 + c div 4096 mod 64 = c div 4096"
    using div_mult_mod_eq [of "c div 64" 64] div_mult_mod_eq [of "c div 4096" 64] by (simp_all flip: div_mult2_eq)
  consider "c < 0x80" | "0x80 \<le> c" "c < 0x800" | "0x800 \<le> c" "c < 0x10000" | "0x10000 \<le> c" by linarith
  then show ?thesis
  proof cases
    case 1
    then have "unat (of_nat c :: u8) < 128" by (simp add: unat_of_nat)
    with 1 show ?thesis by (simp add: utf8_encode_def) (subst utf8.simps, simp add: ascii_byte)
  next
    case 2
    then have "2 \<le> c div 64" "c div 64 < 32" by auto
    then show ?thesis
      using step [of 192 "c div 64" "[of_nat (128 + c mod 64)]"] lead [of "192 + c div 64"] 2 groups m
      by (simp add: utf8_encode_def is_cont_byte cont_mod del: of_nat_add)
  next
    case 3
    then have "c div 4096 < 16" by auto
    then show ?thesis
      using step [of 224 "c div 4096" "[of_nat (128 + c div 64 mod 64), of_nat (128 + c mod 64)]"]
        lead [of "224 + c div 4096"] 3 groups m
      by (simp add: utf8_encode_def is_cont_byte cont_mod del: of_nat_add)
  next
    case 4
    then have "c div 262144 \<le> 4" using c by (auto intro: div_le_mono [of c 1114111 262144, simplified])
    then show ?thesis
      using step [of 240 "c div 262144" "[of_nat (128 + c div 4096 mod 64), of_nat (128 + c div 64 mod 64), of_nat (128 + c mod 64)]"]
        lead [of "240 + c div 262144"] 4 groups m
      by (simp add: utf8_encode_def is_cont_byte cont_mod del: of_nat_add)
  qed
qed

section \<open>Properties\<close>

text \<open>C30: The check of text strings accepts exactly the UTF-8 encodings of sequences of Unicode scalar
  values: no overlong forms, no surrogates, nothing above U+10FFFF, and every such sequence.\<close>

theorem utf8_exact:
  "utf8 bs \<longleftrightarrow> (\<exists>cs. list_all scalar cs \<and> bs = concat (map utf8_encode cs))"
proof
  assume "utf8 bs"
  then show "\<exists>cs. list_all scalar cs \<and> bs = concat (map utf8_encode cs)"
  proof (induction "length bs" arbitrary: bs rule: less_induct)
    case less
    show ?case
    proof (cases bs)
      case Nil
      then show ?thesis by (intro exI [of _ "[]"]) simp
    next
      case (Cons b r)
      obtain c n where c: "scalar c" "b # r = utf8_encode c @ drop n r" "utf8 (drop n r)" "n \<le> length r"
        by (rule utf8_char [OF less.prems [unfolded Cons]])
      have "length (drop n r) < length bs" by (simp add: Cons)
      from less.hyps [OF this c(3)] obtain cs where "list_all scalar cs" "drop n r = concat (map utf8_encode cs)"
        by blast
      with c(1,2) show ?thesis by (intro exI [of _ "c # cs"]) (simp add: Cons)
    qed
  qed
next
  assume "\<exists>cs. list_all scalar cs \<and> bs = concat (map utf8_encode cs)"
  then obtain cs where cs: "list_all scalar cs" "bs = concat (map utf8_encode cs)" by blast
  have "utf8 (concat (map utf8_encode cs))" using cs(1)
    by (induction cs) (simp_all add: utf8_append, subst utf8.simps, simp)
  with cs(2) show "utf8 bs" by simp
qed

end
