(* ===== verification/Peer_Binary.thy ===== *)
theory Peer_Binary
  imports Net_Binary Peer_Utf8
begin

text \<open>
  The CBOR reader of \<open>components/wendy_net_peer/src/binary.c\<close>: it checks a frame once and leaves a
  table of tokens that borrow the frame's bytes. A C string is its bytes without the terminator. A
  result of \<open>-1\<close> is \<^const>\<open>None\<close>; a loop that would not end is \<^const>\<open>None\<close> of the outer option.
\<close>

section \<open>Heads\<close>

text \<open>The major type, the width of the head, the argument, and the position after the head.\<close>

definition argument :: "bytes \<Rightarrow> nat \<Rightarrow> nat \<Rightarrow> (u8 \<times> nat \<times> u64 \<times> nat) option" where
  "argument data sz at =
     (if sz \<le> at then None
      else
        let first = data ! at; small = first AND 31; major = drop_bit 5 first
        in if small < 24 then Some (major, 1, ucast small, at + 1)
           else if 27 < small then None
           else
             let n = 2 ^ unat (small - 24)
             in if sz - at - 1 < n then None
                else
                  let v = foldl (\<lambda>v i. push_bit 8 v OR ucast (data ! (at + 1 + i))) (0 :: u64) [0..<n]
                  in if v < 24 \<or> (1 < n \<and> v < push_bit (8 * (n div 2)) 1) then None
                     else Some (major, 1 + n, v, at + (1 + n)))"

section \<open>The token table\<close>

record wn_token =
  tk_start :: nat
  tk_end :: nat
  tk_next :: nat
  tk_type :: char
  tk_header :: nat

text \<open>The tokens in use are the first \<open>count\<close> entries of the storage.\<close>

record wn_doc =
  dc_text :: bytes
  dc_size :: nat
  dc_capacity :: nat
  dc_tokens :: "wn_token list"

definition wn_doc_token :: "wn_doc \<Rightarrow> int \<Rightarrow> wn_token option" where
  "wn_doc_token d i = (if 0 \<le> i \<and> nat i < length (dc_tokens d) then Some (dc_tokens d ! nat i) else None)"

definition payload :: "wn_doc \<Rightarrow> wn_token \<Rightarrow> bytes" where
  "payload d t = take (tk_end t - tk_start t - tk_header t) (drop (tk_start t + tk_header t) (dc_text d))"

definition wn_doc_text :: "wn_doc \<Rightarrow> int \<Rightarrow> bytes option" where
  "wn_doc_text d i =
     (case wn_doc_token d i of
        None \<Rightarrow> None
      | Some t \<Rightarrow> if tk_type t \<noteq> CHR 0x22 then None else Some (payload d t))"

definition wn_doc_equal :: "wn_doc \<Rightarrow> int \<Rightarrow> bytes \<Rightarrow> bool" where
  "wn_doc_equal d i s = (case wn_doc_text d i of None \<Rightarrow> False | Some p \<Rightarrow> length s = length p \<and> p = s)"

text \<open>
  The keys of the map at \<open>index\<close> are at \<open>index + 1\<close> and then after each value; is one of them the
  same as the one at \<open>key\<close>?
\<close>

definition same_payload :: "wn_doc \<Rightarrow> nat \<Rightarrow> nat \<Rightarrow> bool" where
  "same_payload d a b =
     (let ta = dc_tokens d ! a; tb = dc_tokens d ! b
      in tk_end ta - tk_start ta - tk_header ta = tk_end tb - tk_start tb - tk_header tb \<and> payload d ta = payload d tb)"

partial_function (option) duplicate_key :: "wn_doc \<Rightarrow> nat \<Rightarrow> nat \<Rightarrow> bool option" where
  "duplicate_key d old key =
     (if old < key then
        if same_payload d old key then Some True
        else duplicate_key d (tk_next (dc_tokens d ! (old + 1))) key
      else Some False)"

section \<open>Parsing\<close>

definition token_type :: "u8 \<Rightarrow> u64 \<Rightarrow> char" where
  "token_type major n =
     (if major = 0 then CHR ''0'' else if major = 1 then CHR ''-'' else if major = 2 then CHR ''b''
      else if major = 3 then CHR 0x22 else if major = 4 then CHR ''['' else if major = 5 then CHR ''{''
      else if major = 7 \<and> n = 20 then CHR ''f'' else if major = 7 \<and> n = 21 then CHR ''t''
      else if major = 7 \<and> n = 22 then CHR ''n'' else CHR ''x'')"

definition finish_token :: "wn_doc \<Rightarrow> nat \<Rightarrow> nat \<Rightarrow> nat \<times> wn_doc \<times> nat" where
  "finish_token d index at =
     (index, d\<lparr>dc_tokens := (dc_tokens d)[index := (dc_tokens d ! index)\<lparr>tk_end := at, tk_next := length (dc_tokens d)\<rparr>]\<rparr>, at)"

text \<open>A recursive call returns the index of its token, the document and the position after the value.\<close>

type_synonym parser = "wn_doc \<Rightarrow> nat \<Rightarrow> bytes option \<Rightarrow> bool \<Rightarrow> (nat \<times> wn_doc \<times> nat) option"

text \<open>The key of a map entry, and whether its value is the array that is only viewed.\<close>

definition parse_key :: "parser \<Rightarrow> bytes option \<Rightarrow> nat \<Rightarrow> wn_doc \<Rightarrow> nat \<Rightarrow> (wn_doc \<times> nat \<times> bool) option" where
  "parse_key rec view index d at =
     (case rec d at None False of
        None \<Rightarrow> None
      | Some (key, d, at) \<Rightarrow>
          if tk_type (dc_tokens d ! key) \<noteq> CHR 0x22 then None
          else if duplicate_key d (index + 1) key \<noteq> Some False then None
          else Some (d, at, case view of None \<Rightarrow> False | Some v \<Rightarrow> wn_doc_equal d (int key) (wn_key_name v)))"

fun parse_items :: "parser \<Rightarrow> u8 \<Rightarrow> bytes option \<Rightarrow> bool \<Rightarrow> nat \<Rightarrow> nat \<Rightarrow> wn_doc \<Rightarrow> nat \<Rightarrow> (wn_doc \<times> nat) option" where
  "parse_items rec major view compact index 0 d at = Some (d, at)"
| "parse_items rec major view compact index (Suc n) d at =
     (case (if major = 5 then parse_key rec view index d at else Some (d, at, False)) of
        None \<Rightarrow> None
      | Some (d, at, child_compact) \<Rightarrow>
          (case rec d at view child_compact of
             None \<Rightarrow> None
           | Some (_, d, at) \<Rightarrow>
               parse_items rec major view compact index n
                 (if major = 4 \<and> compact then d\<lparr>dc_tokens := take (index + 1) (dc_tokens d)\<rparr> else d) at))"

text \<open>The body of \<open>value\<close>, with its recursive calls as a parameter.\<close>

definition value_body :: "parser \<Rightarrow> parser" where
  "value_body rec d at view compact =
     (if length (dc_tokens d) = dc_capacity d \<or> 4294967295 < at then None
      else case argument (dc_text d) (dc_size d) at of
        None \<Rightarrow> None
      | Some (major, header, n, at') \<Rightarrow>
          let index = length (dc_tokens d);
              t = \<lparr>tk_start = at, tk_end = 0, tk_next = 0, tk_type = token_type major n, tk_header = header\<rparr>;
              d = d\<lparr>dc_tokens := dc_tokens d @ [t]\<rparr>
          in if major = 2 \<or> major = 3 then
               if dc_size d - at' < unat n then None
               else if major = 3 \<and> \<not> utf8 (take (unat n) (drop at' (dc_text d))) then None
               else Some (finish_token d index (at' + unat n))
             else if major = 4 \<or> major = 5 then
               if 1024 < n \<or> (major = 5 \<and> 64 < n) then None
               else case parse_items rec major view compact index (unat n) d at' of
                      None \<Rightarrow> None
                    | Some (d, at) \<Rightarrow> Some (finish_token d index at)
             else if 1 < major \<and> tk_type t = CHR ''x'' then None
             else Some (finish_token d index at'))"

text \<open>The first argument is how many levels may still be opened: 17 at depth 0, none beyond depth 16.\<close>

primrec parse_value :: "nat \<Rightarrow> parser" where
  "parse_value 0 = (\<lambda>d at view compact. None)"
| "parse_value (Suc l) = value_body (parse_value l)"

definition WN_TOKENS :: nat where "WN_TOKENS = 128"
definition WN_CONTROL_MAX :: nat where "WN_CONTROL_MAX = 2048"

text \<open>\<open>storage\<close> says whether the caller passed token storage; its size is \<open>capacity\<close>.\<close>

definition parse :: "bytes option \<Rightarrow> nat \<Rightarrow> bool \<Rightarrow> nat \<Rightarrow> bytes option \<Rightarrow> wn_doc option" where
  "parse data maximum storage capacity view =
     (case data of
        None \<Rightarrow> None
      | Some bs \<Rightarrow>
          if bs = [] \<or> maximum < length bs \<or> (if view \<noteq> None then 4 * 1024 * 1024 else 65536) < maximum \<or>
             \<not> storage \<or> capacity = 0 \<or> 256 < capacity
          then None
          else case parse_value 17 \<lparr>dc_text = bs, dc_size = length bs, dc_capacity = capacity, dc_tokens = []\<rparr> 0 view False of
            None \<Rightarrow> None
          | Some (_, d, at) \<Rightarrow> if at \<noteq> length bs then None else Some d)"

definition wn_doc_parse_into :: "bytes option \<Rightarrow> nat \<Rightarrow> bool \<Rightarrow> nat \<Rightarrow> wn_doc option" where
  "wn_doc_parse_into data maximum storage capacity = parse data maximum storage capacity None"

definition wn_doc_parse_bounded :: "bytes option \<Rightarrow> nat \<Rightarrow> wn_doc option" where
  "wn_doc_parse_bounded data maximum = parse data maximum True WN_TOKENS None"

definition wn_doc_parse :: "bytes option \<Rightarrow> wn_doc option" where
  "wn_doc_parse data = wn_doc_parse_bounded data WN_CONTROL_MAX"

definition wn_doc_parse_array_view :: "bytes option \<Rightarrow> nat \<Rightarrow> bytes option \<Rightarrow> wn_doc option" where
  "wn_doc_parse_array_view data maximum field =
     (case field of
        None \<Rightarrow> None
      | Some f \<Rightarrow> if f = [] then None else parse data maximum True WN_TOKENS (Some f))"

text \<open>
  The next element of an array as a document of its own: \<open>Some None\<close> at the end, otherwise the new
  cursor and the element.
\<close>

definition wn_doc_array_next :: "wn_doc \<Rightarrow> int \<Rightarrow> nat \<Rightarrow> (nat \<times> wn_doc) option option" where
  "wn_doc_array_next d array cursor =
     (case wn_doc_token d array of
        None \<Rightarrow> None
      | Some t \<Rightarrow>
          if tk_type t \<noteq> CHR ''['' then None
          else
            let at = (if cursor \<noteq> 0 then cursor else tk_start t + tk_header t)
            in if at = tk_end t then Some None
               else if at < tk_start t + tk_header t \<or> tk_end t < at then None
               else case parse_value 17 \<lparr>dc_text = dc_text d, dc_size = tk_end t, dc_capacity = WN_TOKENS, dc_tokens = []\<rparr> at None False of
                      None \<Rightarrow> None
                    | Some (_, child, at) \<Rightarrow> if tk_end t < at then None else Some (Some (at, child)))"

section \<open>Queries\<close>

definition wn_doc_string :: "wn_doc \<Rightarrow> int \<Rightarrow> nat \<Rightarrow> bytes option" where
  "wn_doc_string d i capacity =
     (case wn_doc_text d i of
        None \<Rightarrow> None
      | Some p \<Rightarrow> if capacity \<le> length p \<or> 0 \<in> set p then None else Some p)"

partial_function (option) member_from :: "wn_doc \<Rightarrow> nat \<Rightarrow> nat \<Rightarrow> bytes \<Rightarrow> int option" where
  "member_from d i stop key =
     (if i < stop then
        if wn_doc_equal d (int i) (wn_key_name key) then Some (int i + 1)
        else member_from d (tk_next (dc_tokens d ! (i + 1))) stop key
      else Some (- 1))"

definition wn_doc_member :: "wn_doc \<Rightarrow> nat \<Rightarrow> bytes \<Rightarrow> int option" where
  "wn_doc_member d object key =
     (case wn_doc_token d (int object) of
        None \<Rightarrow> Some (- 1)
      | Some t \<Rightarrow> if tk_type t \<noteq> CHR ''{'' then Some (- 1) else member_from d (object + 1) (tk_next t) key)"

partial_function (option) fields_from :: "wn_doc \<Rightarrow> nat \<Rightarrow> nat \<Rightarrow> bytes list \<Rightarrow> bool option" where
  "fields_from d i stop allowed =
     (if i < stop then
        if list_ex (\<lambda>f. wn_doc_equal d (int i) (wn_key_name f)) allowed
        then fields_from d (tk_next (dc_tokens d ! (i + 1))) stop allowed
        else Some False
      else Some True)"

definition wn_doc_fields :: "wn_doc \<Rightarrow> nat \<Rightarrow> bytes list \<Rightarrow> bool option" where
  "wn_doc_fields d object allowed =
     (case wn_doc_token d (int object) of
        None \<Rightarrow> Some False
      | Some t \<Rightarrow> if tk_type t \<noteq> CHR ''{'' then Some False else fields_from d (object + 1) (tk_next t) allowed)"

definition wn_doc_u64 :: "wn_doc \<Rightarrow> int \<Rightarrow> u64 option" where
  "wn_doc_u64 d i =
     (case wn_doc_token d i of
        None \<Rightarrow> None
      | Some t \<Rightarrow> if tk_type t \<noteq> CHR ''0'' then None
                  else map_option (\<lambda>(_, _, n, _). n) (argument (dc_text d) (dc_size d) (tk_start t)))"

definition wn_doc_bytes :: "wn_doc \<Rightarrow> int \<Rightarrow> bytes option" where
  "wn_doc_bytes d i =
     (case wn_doc_token d i of
        None \<Rightarrow> None
      | Some t \<Rightarrow> if tk_type t \<noteq> CHR ''b'' then None else Some (payload d t))"

definition wn_doc_copy_bytes :: "wn_doc \<Rightarrow> int \<Rightarrow> nat \<Rightarrow> bytes option" where
  "wn_doc_copy_bytes d i cap =
     (case wn_doc_bytes d i of None \<Rightarrow> None | Some p \<Rightarrow> if cap < length p then None else Some p)"

definition hex_digits :: bytes where
  "hex_digits = ascii ''0123456789abcdef''"

definition wn_doc_hash_string :: "wn_doc \<Rightarrow> int \<Rightarrow> bytes option" where
  "wn_doc_hash_string d i =
     (case wn_doc_bytes d i of
        None \<Rightarrow> None
      | Some p \<Rightarrow>
          if length p \<noteq> 32 then None
          else Some (concat (map (\<lambda>b. [hex_digits ! unat (drop_bit 4 b), hex_digits ! unat (b AND 15)]) p)))"

section \<open>Canonical heads\<close>

text \<open>What the writer puts as a head is what the reader takes, and nothing else.\<close>

lemma foldl_be:
  "foldl (\<lambda>v i. push_bit 8 v OR ucast (data ! (at + i))) 0 [0..<n] = (get_be (take n (drop at data)) :: u64)"
  if "at + n \<le> length data"
  using that
proof (induction n)
  case (Suc n)
  then have "take (Suc n) (drop at data) = take n (drop at data) @ [data ! (at + n)]"
    by (simp add: take_Suc_conv_app_nth)
  with Suc show ?case by (simp add: get_be_snoc)
qed simp

lemma head_bytes_long:
  "24 \<le> n \<Longrightarrow> head_bytes major n =
     (push_bit 5 major OR (if argument_bytes n = 1 then 24 else if argument_bytes n = 2 then 25 else if argument_bytes n = 4 then 26 else 27)) #
     put_be (argument_bytes n) n"
proof -
  assume "24 \<le> n"
  have "map (\<lambda>i. ucast (drop_bit (8 * (k - 1 - i)) n)) [0..<k] = put_be k n" for k
    by (rule nth_equalityI) (simp_all add: put_be_def rev_nth)
  moreover have "\<not> n < 24" using \<open>24 \<le> n\<close> by (simp add: not_less)
  ultimately show ?thesis by (simp add: head_bytes_def Let_def)
qed

lemma argument_bytes_cases:
  obtains "argument_bytes n = 1" "n \<le> 0xff" | "argument_bytes n = 2" "0xff < n" "n \<le> 0xffff"
  | "argument_bytes n = 4" "0xffff < n" "n \<le> 0xffffffff" | "argument_bytes n = 8" "0xffffffff < n"
  by (cases "n \<le> 0xff"; cases "n \<le> 0xffff"; cases "n \<le> 0xffffffff") (auto simp: argument_bytes_def not_le)

lemma length_head_bytes: "length (head_bytes major n) = (if n < 24 then 1 else 1 + argument_bytes n)"
  by (auto simp: head_bytes_def Let_def)

lemma take_bit_small: "unat x < 2 ^ k \<Longrightarrow> take_bit k x = (x :: 'a::len word)"
  by (simp add: word_unat_eq_iff unsigned_take_bit_eq take_bit_nat_eq_self)

lemma head_first:
  assumes "major < 8" "small < 32"
  shows "drop_bit 5 (push_bit 5 major OR small) = major" "(push_bit 5 major OR small) AND 31 = (small :: u8)"
proof -
  have "take_bit 3 major = major" "take_bit 5 small = small"
    using assms by (simp_all add: take_bit_small word_less_nat_alt)
  then have m: "bit major i \<Longrightarrow> i < 3" and s: "bit small i \<Longrightarrow> i < 5" for i by (metis bit_take_bit_iff)+
  show "drop_bit 5 (push_bit 5 major OR small) = major"
    by (rule bit_word_eqI) (use m s in \<open>fastforce simp: bit_simps\<close>)
  have "(push_bit 5 major OR small) AND mask 5 = small"
    by (rule bit_word_eqI) (use s in \<open>auto simp: bit_simps\<close>)
  moreover have "mask 5 = (31 :: u8)" by (simp add: mask_eq_exp_minus_1)
  ultimately show "(push_bit 5 major OR small) AND 31 = small" by simp
qed

lemma small_width:
  assumes "24 \<le> n"
  defines "c \<equiv> (if argument_bytes n = 1 then 24 else if argument_bytes n = 2 then 25 else if argument_bytes n = 4 then 26 else 27) :: u8"
  shows "24 \<le> c" "c \<le> 27" "2 ^ unat (c - 24) = argument_bytes n" "c < 32" "\<not> c < 24" "\<not> 27 < c"
  by (rule argument_bytes_cases [of n]; simp add: c_def)+

lemma minimal_width:
  "24 \<le> n \<Longrightarrow> \<not> (n < 24 \<or> (1 < argument_bytes n \<and> n < push_bit (8 * (argument_bytes n div 2)) (1 :: u64)))"
  by (rule argument_bytes_cases [of n]) (auto simp: not_less push_bit_eq_mult word_le_nat_alt word_less_nat_alt)

lemma get_be_argument: "get_be (put_be (argument_bytes n) n) = (n :: u64)"
proof -
  have "take_bit (8 * argument_bytes n) n = n"
    by (rule argument_bytes_cases [of n]) (simp_all add: take_bit_small take_bit_word_eq_self word_less_nat_alt word_le_nat_alt)
  then show ?thesis by (simp add: get_be_put_be_take_bit)
qed

lemma argument_head:
  assumes "major < 8" "sz \<le> length data" "at + length (head_bytes major n) \<le> sz"
    and "take (length (head_bytes major n)) (drop at data) = head_bytes major n"
  shows "argument data sz at = Some (major, length (head_bytes major n), n, at + length (head_bytes major n))"
proof (cases "n < 24")
  case True
  have h: "head_bytes major n = [push_bit 5 major OR ucast n]" using True by (simp add: head_bytes_def)
  have at: "at < sz" "data ! at = push_bit 5 major OR ucast n"
    using assms(2-4) by (simp_all add: h take_Suc_conv_app_nth hd_drop_conv_nth flip: take_Suc)
  have u: "(ucast n :: u8) < 24" using True by (simp add: word_less_nat_alt unsigned_ucast_eq take_bit_nat_def)
  then have u32: "(ucast n :: u8) < 32" by (rule order.strict_trans) simp
  have again: "ucast (ucast n :: u8) = n"
    using True by (simp add: word_less_nat_alt word_unat_eq_iff unsigned_ucast_eq unsigned_take_bit_eq take_bit_nat_eq_self)
  show ?thesis using at head_first [OF assms(1) u32] u again by (simp add: argument_def h)
next
  case False
  then have n: "24 \<le> n" by (simp add: not_less)
  let ?k = "argument_bytes n"
  let ?c = "if ?k = 1 then 24 else if ?k = 2 then 25 else if ?k = 4 then 26 else 27 :: u8"
  have h: "head_bytes major n = (push_bit 5 major OR ?c) # put_be ?k n" by (rule head_bytes_long [OF n])
  have len: "at + 1 + ?k \<le> sz" using assms(3) by (simp add: h)
  have "drop at data = data ! at # drop (at + 1) data"
    using assms(2) len by (simp add: Cons_nth_drop_Suc)
  then have at: "data ! at = push_bit 5 major OR ?c" "take ?k (drop (at + 1) data) = put_be ?k n"
    using assms(4) by (simp_all add: h)
  note w = small_width [OF n] and first = head_first [OF assms(1) small_width(4) [OF n]]
  have v: "foldl (\<lambda>v i. push_bit 8 v OR ucast (data ! (at + 1 + i))) (0 :: u64) [0..<?k] = n"
    using foldl_be [of "at + 1" ?k data] len assms(2) at(2) by (simp add: get_be_argument)
  show ?thesis
    unfolding argument_def Let_def
    using len w first minimal_width [OF n] v by (simp add: at(1) h del: One_nat_def)
qed

lemma put_be_get_be_u64: "length p \<le> 8 \<Longrightarrow> put_be (length p) (get_be p :: u64) = p"
  by (rule put_be_get_be) simp_all

lemma small_cases: "\<not> x < 24 \<Longrightarrow> x \<le> 27 \<Longrightarrow> x \<in> {24, 25, 26, 27 :: u8}"
proof -
  assume "\<not> x < 24" "x \<le> 27"
  then have "unat x \<in> {24, 25, 26, 27}" by (auto simp: word_less_nat_alt word_le_nat_alt)
  then show ?thesis by (auto simp: word_unat_eq_iff)
qed

lemma argument_inv:
  assumes "argument data sz at = Some (major, hw, n, at')" "sz \<le> length data"
  shows "major < 8" "hw = length (head_bytes major n)" "at' = at + hw" "at' \<le> sz"
    "take hw (drop at data) = head_bytes major n"
proof -
  let ?first = "data ! at"
  let ?small = "?first AND 31"
  have at: "at < sz" using assms(1) by (simp add: argument_def split: if_splits)
  then have drop: "drop at data = ?first # drop (at + 1) data"
    using assms(2) by (simp add: Cons_nth_drop_Suc)
  have major: "major = drop_bit 5 ?first" using assms(1) by (auto simp: argument_def Let_def split: if_splits)
  have mask: "(31 :: u8) = mask 5" by (simp add: mask_eq_exp_minus_1)
  have first: "?first = push_bit 5 major OR ?small"
    unfolding major mask by (rule bit_word_eqI) (auto simp: bit_simps)
  have "unat ?first < 2 ^ LENGTH(8)" by (rule unsigned_less)
  then show m8: "major < 8" by (simp add: major word_less_nat_alt drop_bit_eq_div unat_div_distrib)
  show "hw = length (head_bytes major n)" "at' = at + hw" "at' \<le> sz" "take hw (drop at data) = head_bytes major n"
  proof -
    have "hw = length (head_bytes major n) \<and> at' = at + hw \<and> at' \<le> sz \<and> take hw (drop at data) = head_bytes major n"
    proof (cases "?small < 24")
      case True
      then have r: "hw = 1" "n = ucast ?small" "at' = at + 1"
        using assms(1) at by (simp_all add: argument_def Let_def)
      have "n < 24" using True by (simp add: r(2) word_less_nat_alt unsigned_ucast_eq take_bit_nat_def)
      moreover have "ucast n = ?small" unfolding r(2) by (rule bit_word_eqI) (auto simp: bit_simps)
      ultimately have "head_bytes major n = [?first]" using first by (simp add: head_bytes_def)
      then show ?thesis using r at drop by simp
    next
      case False
      define k where "k = (2 ^ unat (?small - 24) :: nat)"
      define p where "p = take k (drop (at + 1) data)"
      have le: "?small \<le> 27" and size: "k \<le> sz - at - 1"
        using assms(1) at False by (auto simp: argument_def Let_def k_def not_less split: if_splits)
      have len: "length p = k" using size at assms(2) by (simp add: p_def)
      have fold: "foldl (\<lambda>v i. push_bit 8 v OR ucast (data ! (at + 1 + i))) (0 :: u64) [0..<k] = get_be p"
        using foldl_be [of "at + 1" k data] size at assms(2) by (simp add: p_def)
      have r: "hw = 1 + k" "n = get_be p" "at' = at + (1 + k)" "\<not> n < 24" "1 < k \<longrightarrow> \<not> n < push_bit (8 * (k div 2)) 1"
        using assms(1) at False le size fold
        by (auto simp: argument_def Let_def not_less simp flip: k_def split: if_splits)
      have small: "?small \<in> {24, 25, 26, 27}" using False le by (rule small_cases)
      have k8: "k \<le> 8" using small by (auto simp: k_def)
      have n: "put_be k n = p" using put_be_get_be_u64 [of p] len k8 by (simp add: r(2))
      then have "take_bit (8 * k) n = n" using get_be_put_be_take_bit [of k n] by (simp add: r(2))
      then have "unat n < 2 ^ (8 * k)" if "k < 8"
        by (metis take_bit_nat_less_exp unsigned_take_bit_eq)
      then have arg: "argument_bytes n = k \<and> (if k = 1 then 24 else if k = 2 then 25 else if k = 4 then 26 else 27) = ?small"
        using small r(4,5) by (auto simp: k_def argument_bytes_def word_less_nat_alt word_le_nat_alt push_bit_eq_mult)
      have "head_bytes major n = (push_bit 5 major OR ?small) # p"
        using head_bytes_long [of n major] r(4)
        by (simp only: not_less conjunct1 [OF arg] conjunct2 [OF arg] n)
      then have "head_bytes major n = ?first # p" by (simp only: first [symmetric])
      then show ?thesis using r(1,3) len size at drop by (simp add: p_def)
    qed
    then show "hw = length (head_bytes major n)" "at' = at + hw" "at' \<le> sz" "take hw (drop at data) = head_bytes major n"
      by blast+
  qed
qed

section \<open>The values a frame describes\<close>

datatype cbor = CUint u64 | CNint u64 | CBytes bytes | CText bytes | CArray "cbor list"
  | CMap "(bytes \<times> cbor) list" | CFalse | CTrue | CNull

text \<open>The one encoding of a value.\<close>

fun encode :: "cbor \<Rightarrow> bytes" where
  "encode (CUint n) = head_bytes 0 n"
| "encode (CNint n) = head_bytes 1 n"
| "encode (CBytes b) = head_bytes 2 (of_nat (length b)) @ b"
| "encode (CText t) = head_bytes 3 (of_nat (length t)) @ t"
| "encode (CArray vs) = head_bytes 4 (of_nat (length vs)) @ concat (map encode vs)"
| "encode (CMap kvs) = head_bytes 5 (of_nat (length kvs)) @ concat (map (\<lambda>(k, v). (head_bytes 3 (of_nat (length k)) @ k) @ encode v) kvs)"
| "encode CFalse = head_bytes 7 20"
| "encode CTrue = head_bytes 7 21"
| "encode CNull = head_bytes 7 22"

text \<open>What the reader admits with \<open>l\<close> levels left.\<close>

fun admitted :: "nat \<Rightarrow> cbor \<Rightarrow> bool" where
  "admitted 0 v \<longleftrightarrow> False"
| "admitted (Suc l) (CBytes b) \<longleftrightarrow> int (length b) < 2 ^ 64"
| "admitted (Suc l) (CText t) \<longleftrightarrow> int (length t) < 2 ^ 64 \<and> utf8 t"
| "admitted (Suc l) (CArray vs) \<longleftrightarrow> length vs \<le> 1024 \<and> list_all (admitted l) vs"
| "admitted (Suc l) (CMap kvs) \<longleftrightarrow> length kvs \<le> 64 \<and> distinct (map fst kvs) \<and>
     list_all (\<lambda>(k, v). 0 < l \<and> int (length k) < 2 ^ 64 \<and> utf8 k \<and> admitted l v) kvs"
| "admitted (Suc l) _ \<longleftrightarrow> True"

text \<open>
  The tokens of a value at position \<open>at\<close>, the first of them at index \<open>i\<close>. The elements of an array
  that is only viewed leave no token.
\<close>

fun cbor_type :: "cbor \<Rightarrow> char" where
  "cbor_type (CUint n) = CHR ''0''"
| "cbor_type (CNint n) = CHR ''-''"
| "cbor_type (CBytes b) = CHR ''b''"
| "cbor_type (CText t) = CHR 0x22"
| "cbor_type (CArray vs) = CHR ''[''"
| "cbor_type (CMap kvs) = CHR ''{''"
| "cbor_type CFalse = CHR ''f''"
| "cbor_type CTrue = CHR ''t''"
| "cbor_type CNull = CHR ''n''"

fun cbor_head :: "cbor \<Rightarrow> bytes" where
  "cbor_head (CUint n) = head_bytes 0 n"
| "cbor_head (CNint n) = head_bytes 1 n"
| "cbor_head (CBytes b) = head_bytes 2 (of_nat (length b))"
| "cbor_head (CText t) = head_bytes 3 (of_nat (length t))"
| "cbor_head (CArray vs) = head_bytes 4 (of_nat (length vs))"
| "cbor_head (CMap kvs) = head_bytes 5 (of_nat (length kvs))"
| "cbor_head CFalse = head_bytes 7 20"
| "cbor_head CTrue = head_bytes 7 21"
| "cbor_head CNull = head_bytes 7 22"

definition cbor_token :: "cbor \<Rightarrow> nat \<Rightarrow> nat \<Rightarrow> wn_token" where
  "cbor_token v at nxt = \<lparr>tk_start = at, tk_end = at + length (encode v), tk_next = nxt,
     tk_type = cbor_type v, tk_header = length (cbor_head v)\<rparr>"

definition viewed :: "bytes option \<Rightarrow> bytes \<Rightarrow> bool" where
  "viewed view k \<longleftrightarrow> (case view of None \<Rightarrow> False | Some f \<Rightarrow> k = wn_key_name f)"

fun tokens_of :: "bytes option \<Rightarrow> bool \<Rightarrow> nat \<Rightarrow> nat \<Rightarrow> cbor \<Rightarrow> wn_token list"
  and array_tokens :: "bytes option \<Rightarrow> bool \<Rightarrow> nat \<Rightarrow> nat \<Rightarrow> cbor list \<Rightarrow> wn_token list"
  and map_tokens :: "bytes option \<Rightarrow> nat \<Rightarrow> nat \<Rightarrow> (bytes \<times> cbor) list \<Rightarrow> wn_token list" where
  "tokens_of view compact at i (CArray vs) =
     (let ts = array_tokens view compact (at + length (cbor_head (CArray vs))) (i + 1) vs
      in cbor_token (CArray vs) at (i + 1 + length ts) # ts)"
| "tokens_of view compact at i (CMap kvs) =
     (let ts = map_tokens view (at + length (cbor_head (CMap kvs))) (i + 1) kvs
      in cbor_token (CMap kvs) at (i + 1 + length ts) # ts)"
| "tokens_of view compact at i v = [cbor_token v at (i + 1)]"
| "array_tokens view compact at i [] = []"
| "array_tokens view compact at i (v # vs) =
     (if compact then array_tokens view compact (at + length (encode v)) i vs
      else let ts = tokens_of view False at i v
           in ts @ array_tokens view compact (at + length (encode v)) (i + length ts) vs)"
| "map_tokens view at i [] = []"
| "map_tokens view at i ((k, v) # kvs) =
     (let ts = tokens_of view (viewed view k) (at + length (encode (CText k))) (i + 1) v
      in cbor_token (CText k) at (i + 1) # ts @
         map_tokens view (at + length (encode (CText k)) + length (encode v)) (i + 1 + length ts) kvs)"

text \<open>How many tokens a value leaves, and how many are in use at once while it is read.\<close>

fun ntokens :: "bytes option \<Rightarrow> bool \<Rightarrow> cbor \<Rightarrow> nat"
  and array_ntokens :: "bytes option \<Rightarrow> bool \<Rightarrow> cbor list \<Rightarrow> nat"
  and map_ntokens :: "bytes option \<Rightarrow> (bytes \<times> cbor) list \<Rightarrow> nat" where
  "ntokens view compact (CArray vs) = 1 + array_ntokens view compact vs"
| "ntokens view compact (CMap kvs) = 1 + map_ntokens view kvs"
| "ntokens view compact v = 1"
| "array_ntokens view compact [] = 0"
| "array_ntokens view compact (v # vs) = (if compact then 0 else ntokens view False v) + array_ntokens view compact vs"
| "map_ntokens view [] = 0"
| "map_ntokens view ((k, v) # kvs) = 1 + ntokens view (viewed view k) v + map_ntokens view kvs"

fun peak :: "bytes option \<Rightarrow> bool \<Rightarrow> cbor \<Rightarrow> nat"
  and array_peak :: "bytes option \<Rightarrow> bool \<Rightarrow> cbor list \<Rightarrow> nat"
  and map_peak :: "bytes option \<Rightarrow> (bytes \<times> cbor) list \<Rightarrow> nat" where
  "peak view compact (CArray vs) = 1 + array_peak view compact vs"
| "peak view compact (CMap kvs) = 1 + map_peak view kvs"
| "peak view compact v = 1"
| "array_peak view compact [] = 0"
| "array_peak view compact (v # vs) =
     max (peak view False v) ((if compact then 0 else ntokens view False v) + array_peak view compact vs)"
| "map_peak view [] = 0"
| "map_peak view ((k, v) # kvs) =
     1 + max (peak view (viewed view k) v) (ntokens view (viewed view k) v + map_peak view kvs)"

lemma cbor_head_encode: "\<exists>body. encode v = cbor_head v @ body"
  by (cases v) auto

lemma encode_map_Cons [simp]:
  "concat (map (\<lambda>(k, v). (head_bytes 3 (of_nat (length k)) @ k) @ encode v) ((k, v) # kvs)) =
     encode (CText k) @ encode v @ concat (map (\<lambda>(k, v). (head_bytes 3 (of_nat (length k)) @ k) @ encode v) kvs)"
  by simp

declare encode_map_Cons [simp del]

abbreviation entries :: "(bytes \<times> cbor) list \<Rightarrow> bytes" where
  "entries kvs \<equiv> concat (map (\<lambda>(k, v). (head_bytes 3 (of_nat (length k)) @ k) @ encode v) kvs)"

lemma length_tokens_of [simp]:
  "length (tokens_of view compact at i v) = ntokens view compact v"
  "length (array_tokens view compact at i vs) = array_ntokens view compact vs"
  "length (map_tokens view at i kvs) = map_ntokens view kvs"
  by (induction view compact at i v and view compact at i vs and view at i kvs
      rule: tokens_of_array_tokens_map_tokens.induct) (simp_all add: Let_def)

lemma ntokens_pos [simp]: "0 < ntokens view compact v"
  by (cases v) simp_all

lemma tokens_of_hd:
  obtains t ts where "tokens_of view compact at i v = t # ts" "tk_next t = i + ntokens view compact v"
    "length ts = ntokens view compact v - 1"
proof -
  have len: "length (tokens_of view compact at i v) = ntokens view compact v" by simp
  then obtain t ts where t: "tokens_of view compact at i v = t # ts"
    using ntokens_pos [of view compact v] by (cases "tokens_of view compact at i v") auto
  moreover have "tk_next t = i + ntokens view compact v"
    using t by (cases v) (auto simp: cbor_token_def Let_def)
  ultimately show thesis using len that by simp
qed

definition at_bytes :: "wn_doc \<Rightarrow> nat \<Rightarrow> bytes \<Rightarrow> bool" where
  "at_bytes d at bs \<longleftrightarrow> at + length bs \<le> dc_size d \<and> take (length bs) (drop at (dc_text d)) = bs"

definition doc_wf :: "wn_doc \<Rightarrow> bool" where
  "doc_wf d \<longleftrightarrow> dc_size d \<le> length (dc_text d) \<and> dc_size d \<le> 4294967295 \<and> length (dc_tokens d) \<le> dc_capacity d"

lemma take_append_iff:
  "take (length xs + length ys) zs = xs @ ys \<longleftrightarrow> take (length xs) zs = xs \<and> take (length ys) (drop (length xs) zs) = ys"
proof
  assume eq: "take (length xs + length ys) zs = xs @ ys"
  have "take (length xs) (take (length xs + length ys) zs) = xs" "drop (length xs) (take (length xs + length ys) zs) = ys"
    by (simp_all add: eq del: take_take)
  then show "take (length xs) zs = xs \<and> take (length ys) (drop (length xs) zs) = ys"
    by (simp add: drop_take)
qed (simp add: take_add)

lemma at_bytes_append:
  "at_bytes d at (xs @ ys) \<longleftrightarrow> at_bytes d at xs \<and> at_bytes d (at + length xs) ys"
  using take_append_iff [of xs ys "drop at (dc_text d)"] by (auto simp: at_bytes_def add.assoc add.commute)

lemma at_bytes_tokens [simp]: "at_bytes (d\<lparr>dc_tokens := ts\<rparr>) at bs = at_bytes d at bs"
  by (simp add: at_bytes_def)

lemma argument_at:
  assumes "doc_wf d" "major < 8" "at_bytes d at (head_bytes major n)"
  shows "argument (dc_text d) (dc_size d) at =
    Some (major, length (head_bytes major n), n, at + length (head_bytes major n))"
  by (rule argument_head) (use assms in \<open>simp_all add: at_bytes_def doc_wf_def\<close>)

section \<open>Every admitted value is read\<close>

definition grown :: "wn_doc \<Rightarrow> wn_token list \<Rightarrow> wn_doc" where
  "grown d ts = d\<lparr>dc_tokens := dc_tokens d @ ts\<rparr>"

lemma grown_simps [simp]:
  "dc_text (grown d ts) = dc_text d" "dc_size (grown d ts) = dc_size d" "dc_capacity (grown d ts) = dc_capacity d"
  "dc_tokens (grown d ts) = dc_tokens d @ ts" "at_bytes (grown d ts) at bs = at_bytes d at bs"
  "grown (grown d ts) us = grown d (ts @ us)" "grown d [] = d" "(grown d ts)\<lparr>dc_tokens := dc_tokens d\<rparr> = d"
  by (simp_all add: grown_def at_bytes_def)

lemma doc_wf_grown: "doc_wf d \<Longrightarrow> length (dc_tokens d) + length ts \<le> dc_capacity d \<Longrightarrow> doc_wf (grown d ts)"
  by (simp add: doc_wf_def)

text \<open>\<open>reads l view\<close>: with \<open>l\<close> levels left, an admitted value is read and leaves its tokens.\<close>

definition reads :: "parser \<Rightarrow> bytes option \<Rightarrow> bool \<Rightarrow> cbor \<Rightarrow> bool" where
  "reads rec view compact v \<longleftrightarrow> (\<forall>d at. doc_wf d \<longrightarrow> at_bytes d at (encode v) \<longrightarrow>
     length (dc_tokens d) + peak view compact v \<le> dc_capacity d \<longrightarrow>
     rec d at view compact =
       Some (length (dc_tokens d), grown d (tokens_of view compact at (length (dc_tokens d)) v), at + length (encode v)))"

lemma readsD:
  "reads rec view compact v \<Longrightarrow> doc_wf d \<Longrightarrow> at_bytes d at (encode v) \<Longrightarrow>
     length (dc_tokens d) + peak view compact v \<le> dc_capacity d \<Longrightarrow>
     rec d at view compact =
       Some (length (dc_tokens d), grown d (tokens_of view compact at (length (dc_tokens d)) v), at + length (encode v))"
  by (simp add: reads_def)

lemma peak_ge: "ntokens view compact v \<le> peak view compact v"
  "array_ntokens view compact vs \<le> array_peak view compact vs"
  "map_ntokens view kvs \<le> map_peak view kvs"
  by (induction view compact v and view compact vs and view kvs rule: peak_array_peak_map_peak.induct)
    (auto simp: le_max_iff_disj)

lemma parse_array:
  assumes "\<forall>v \<in> set vs. reads rec view False v"
    and "doc_wf d" "at_bytes d at (concat (map encode vs))"
    and "length (dc_tokens d) + array_peak view compact vs \<le> dc_capacity d"
    and "compact \<longrightarrow> length (dc_tokens d) = index + 1"
  shows "parse_items rec 4 view compact index (length vs) d at =
    Some (grown d (array_tokens view compact at (length (dc_tokens d)) vs), at + length (concat (map encode vs)))"
  using assms
proof (induction vs arbitrary: d at)
  case (Cons v vs)
  let ?ts = "tokens_of view False at (length (dc_tokens d)) v"
  have here: "at_bytes d at (encode v)" and rest: "at_bytes d (at + length (encode v)) (concat (map encode vs))"
    using Cons.prems(3) by (simp_all add: at_bytes_append)
  have one: "rec d at view False = Some (length (dc_tokens d), grown d ?ts, at + length (encode v))"
    by (rule readsD) (use Cons.prems here in auto)
  show ?case
  proof (cases compact)
    case True
    with one True Cons.IH [of d "at + length (encode v)"] Cons.prems rest show ?thesis
      by (simp add: add.assoc)
  next
    case False
    have "doc_wf (grown d ?ts)"
      by (rule doc_wf_grown) (use Cons.prems(2,4) False peak_ge(1) [of view False v] in auto)
    with one False Cons.IH [of "grown d ?ts" "at + length (encode v)"] Cons.prems rest show ?thesis
      by (simp add: add.assoc)
  qed
qed simp

lemma cbor_token_type [simp]: "tk_type (cbor_token v at nxt) = cbor_type v"
  by (simp add: cbor_token_def)

lemma map_tokens_append:
  "map_tokens view at i (xs @ ys) =
     map_tokens view at i xs @ map_tokens view (at + length (entries xs)) (i + map_ntokens view xs) ys"
  by (induction xs arbitrary: at i) (auto simp: Let_def add.assoc)

lemma payload_text:
  assumes "at_bytes d at (encode (CText k))" "dc_text d' = dc_text d"
  shows "payload d' (cbor_token (CText k) at nxt) = k"
  using assms by (simp add: payload_def cbor_token_def at_bytes_append) (simp add: at_bytes_def)

lemma duplicate_key_entries:
  assumes "dc_tokens d = pre @ map_tokens view at (length pre) kvs @ cbor_token (CText key) kat nxt # post"
    and "at_bytes d at (entries kvs)" "at_bytes d kat (encode (CText key))"
  shows "duplicate_key d (length pre) (length pre + map_ntokens view kvs) = Some (key \<in> fst ` set kvs)"
  using assms
proof (induction kvs arbitrary: pre at)
  case Nil
  then show ?case by (subst duplicate_key.simps) simp
next
  case (Cons kv kvs)
  obtain k v where kv: "kv = (k, v)" by (cases kv)
  let ?i = "length pre"
  let ?vat = "at + length (encode (CText k))"
  let ?ts = "tokens_of view (viewed view k) ?vat (?i + 1) v"
  let ?kt = "cbor_token (CText k) at (?i + 1)"
  obtain t ts where t: "?ts = t # ts" "tk_next t = ?i + 1 + ntokens view (viewed view k) v"
    by (rule tokens_of_hd)
  have toks: "dc_tokens d = pre @ ?kt # ?ts @ map_tokens view (?vat + length (encode v)) (?i + 1 + length ?ts) kvs @
      cbor_token (CText key) kat nxt # post"
    using Cons.prems(1) by (simp add: kv Let_def)
  then have key: "dc_tokens d ! (?i + map_ntokens view (kv # kvs)) = cbor_token (CText key) kat nxt"
    by (simp add: kv nth_append)
  have first: "dc_tokens d ! ?i = ?kt" "dc_tokens d ! (?i + 1) = t"
    using toks t(1) by (simp_all add: nth_append)
  have bytes: "at_bytes d at (encode (CText k))" "at_bytes d (?vat + length (encode v)) (entries kvs)"
    using Cons.prems(2) unfolding kv encode_map_Cons by (simp_all add: at_bytes_append add.assoc)
  have pay: "payload d ?kt = k" "payload d (cbor_token (CText key) kat nxt) = key"
    using payload_text bytes(1) Cons.prems(3) by blast+
  have same: "same_payload d ?i (?i + map_ntokens view (kv # kvs)) \<longleftrightarrow> k = key"
    unfolding same_payload_def Let_def key first(1) pay by (auto simp: cbor_token_def)
  show ?case
  proof (cases "k = key")
    case True
    with same show ?thesis by (subst duplicate_key.simps) (simp add: kv)
  next
    case False
    have len: "?i + 1 + length ?ts = length (pre @ ?kt # ?ts)" by simp
    have "duplicate_key d (length (pre @ ?kt # ?ts)) (length (pre @ ?kt # ?ts) + map_ntokens view kvs) =
        Some (key \<in> fst ` set kvs)"
      by (rule Cons.IH [OF _ bytes(2) Cons.prems(3)]) (use toks in simp)
    with False same first(2) show ?thesis
      by (subst duplicate_key.simps) (simp add: kv t(2) add.assoc)
  qed
qed

text \<open>A key is read as text, differs from the earlier keys, and says whether its value is viewed.\<close>

lemma parse_key_reads:
  assumes "reads rec None False (CText k)" "doc_wf d" "length (dc_tokens d) < dc_capacity d"
    and "at_bytes d at (encode (CText k))" "k \<notin> fst ` set past"
    and "dc_tokens d = pre @ map_tokens view pat (index + 1) past" "length pre = index + 1" "at_bytes d pat (entries past)"
  shows "parse_key rec view index d at =
    Some (grown d [cbor_token (CText k) at (length (dc_tokens d) + 1)], at + length (encode (CText k)), viewed view k)"
proof -
  let ?i = "length (dc_tokens d)" and ?t = "cbor_token (CText k) at (length (dc_tokens d) + 1)"
  have rd: "rec d at None False = Some (?i, grown d [?t], at + length (encode (CText k)))"
    using readsD [OF assms(1,2,4)] assms(3) by simp
  have i: "?i = index + 1 + map_ntokens view past" using assms(6,7) by simp
  have dup: "duplicate_key (grown d [?t]) (index + 1) ?i = Some False"
    using duplicate_key_entries [of "grown d [?t]" pre view pat past k at "?i + 1" "[]"] assms(4-8) by (simp add: i)
  have eq: "wn_doc_equal (grown d [?t]) (int ?i) s \<longleftrightarrow> k = s" for s
    using payload_text [OF assms(4), of "grown d [?t]" "?i + 1"]
    by (auto simp: wn_doc_equal_def wn_doc_text_def wn_doc_token_def nth_append cbor_token_def)
  show ?thesis
    unfolding parse_key_def rd using dup
    by (simp add: nth_append viewed_def eq [unfolded Suc_eq_plus1 [symmetric]] split: option.split)
qed

lemma parse_map:
  assumes "\<forall>(k, v) \<in> set kvs. reads rec None False (CText k) \<and> reads rec view (viewed view k) v"
    and "doc_wf d" "at_bytes d at (entries kvs)" "distinct (map fst (past @ kvs))"
    and "length (dc_tokens d) + map_peak view kvs \<le> dc_capacity d"
    and "dc_tokens d = pre @ map_tokens view pat (index + 1) past" "length pre = index + 1"
      "at_bytes d pat (entries past)" "at = pat + length (entries past)"
  shows "parse_items rec 5 view compact index (length kvs) d at =
    Some (grown d (map_tokens view at (length (dc_tokens d)) kvs), at + length (entries kvs))"
  using assms
proof (induction kvs arbitrary: d at past)
  case (Cons kv kvs)
  obtain k v where kv: "kv = (k, v)" by (cases kv)
  let ?i = "length (dc_tokens d)" and ?t = "cbor_token (CText k) at (length (dc_tokens d) + 1)"
  let ?vat = "at + length (encode (CText k))"
  let ?ts = "tokens_of view (viewed view k) ?vat (?i + 1) v"
  have bytes: "at_bytes d at (encode (CText k))" "at_bytes d ?vat (encode v)"
    "at_bytes d (?vat + length (encode v)) (entries kvs)"
    using Cons.prems(3) unfolding kv encode_map_Cons by (simp_all add: at_bytes_append add.assoc)
  have rd: "reads rec None False (CText k)" "reads rec view (viewed view k) v" using Cons.prems(1) by (simp_all add: kv)
  have room: "?i < dc_capacity d" "?i + 1 + peak view (viewed view k) v \<le> dc_capacity d"
    "?i + 1 + ntokens view (viewed view k) v + map_peak view kvs \<le> dc_capacity d"
    using Cons.prems(5) by (auto simp: kv)
  have new: "k \<notin> fst ` set past" using Cons.prems(4) by (auto simp: kv)
  have key: "parse_key rec view index d at = Some (grown d [?t], ?vat, viewed view k)"
    by (rule parse_key_reads [OF rd(1) Cons.prems(2) room(1) bytes(1) new Cons.prems(6-8)])
  have wf1: "doc_wf (grown d [?t])" using doc_wf_grown [OF Cons.prems(2), of "[?t]"] room(1) by simp
  have val: "rec (grown d [?t]) ?vat view (viewed view k) = Some (?i + 1, grown d (?t # ?ts), ?vat + length (encode v))"
    using readsD [OF rd(2) wf1, of ?vat] bytes(2) room(2) by simp
  have wf2: "doc_wf (grown d (?t # ?ts))"
    by (rule doc_wf_grown [OF Cons.prems(2)]) (use room(3) in simp)
  have "parse_items rec 5 view compact index (length kvs) (grown d (?t # ?ts)) (?vat + length (encode v)) =
      Some (grown (grown d (?t # ?ts)) (map_tokens view (?vat + length (encode v)) (length (dc_tokens (grown d (?t # ?ts)))) kvs),
        ?vat + length (encode v) + length (entries kvs))"
  proof (rule Cons.IH [where past = "past @ [(k, v)]"])
    show "dc_tokens (grown d (?t # ?ts)) = pre @ map_tokens view pat (index + 1) (past @ [(k, v)])"
      using Cons.prems(6,7,9) by (simp add: map_tokens_append Let_def)
    show "at_bytes (grown d (?t # ?ts)) pat (entries (past @ [(k, v)]))"
      using Cons.prems(8,9) bytes(1,2) by (simp add: at_bytes_append add.assoc)
  qed (use Cons.prems wf2 bytes(3) room(3) in \<open>auto simp: kv add.assoc\<close>)
  with key val show ?case by (simp add: kv Let_def add.assoc)
qed simp

lemma finish_grown:
  "finish_token (grown d (t # ts)) (length (dc_tokens d)) at =
     (length (dc_tokens d), grown d (t\<lparr>tk_end := at, tk_next := length (dc_tokens d) + 1 + length ts\<rparr> # ts), at)"
  by (simp add: finish_token_def grown_def nth_append list_update_append)

lemma unat_length: "n < 2 ^ 64 \<Longrightarrow> unat (of_nat n :: u64) = n"
  by (simp add: unat_of_nat)

text \<open>The body once the head is known.\<close>

lemma value_body_head:
  assumes "doc_wf d" "length (dc_tokens d) < dc_capacity d" "major < 8" "at_bytes d at (head_bytes major n)"
  shows "value_body rec d at view compact =
    (let at' = at + length (head_bytes major n); i = length (dc_tokens d);
         t = \<lparr>tk_start = at, tk_end = 0, tk_next = 0, tk_type = token_type major n, tk_header = length (head_bytes major n)\<rparr>
     in if major = 2 \<or> major = 3 then
          if dc_size d - at' < unat n then None
          else if major = 3 \<and> \<not> utf8 (take (unat n) (drop at' (dc_text d))) then None
          else Some (finish_token (grown d [t]) i (at' + unat n))
        else if major = 4 \<or> major = 5 then
          if 1024 < n \<or> (major = 5 \<and> 64 < n) then None
          else case parse_items rec major view compact i (unat n) (grown d [t]) at' of
                 None \<Rightarrow> None
               | Some (d, at) \<Rightarrow> Some (finish_token d i at)
        else if 1 < major \<and> token_type major n = CHR ''x'' then None
        else Some (finish_token (grown d [t]) i at'))"
proof -
  have "\<not> 4294967295 < at" using assms(1,4) by (auto simp: doc_wf_def at_bytes_def)
  with assms(2) argument_at [OF assms(1,3,4)] show ?thesis
    by (simp add: value_body_def Let_def flip: grown_def)
qed

lemma body_bytes: "at_bytes d at b \<Longrightarrow> take (length b) (drop at (dc_text d)) = b \<and> \<not> dc_size d - at < length b"
  by (auto simp: at_bytes_def)

lemma parse_value_reads: "admitted l v \<Longrightarrow> reads (parse_value l) view compact v"
proof (induction l arbitrary: v view compact)
  case (Suc l)
  show ?case unfolding reads_def
  proof (intro allI impI)
    fix d at
    assume wf: "doc_wf d" and here: "at_bytes d at (encode v)"
      and room: "length (dc_tokens d) + peak view compact v \<le> dc_capacity d"
    have lt: "length (dc_tokens d) < dc_capacity d" using room ntokens_pos [of view compact v] peak_ge(1) [of view compact v] by linarith
    show "parse_value (Suc l) d at view compact =
      Some (length (dc_tokens d), grown d (tokens_of view compact at (length (dc_tokens d)) v), at + length (encode v))"
    proof (cases v)
      case (CUint n)
      then show ?thesis using value_body_head [OF wf lt, of 0 at n] here
        by (simp add: Let_def finish_grown token_type_def cbor_token_def)
    next
      case (CNint n)
      then show ?thesis using value_body_head [OF wf lt, of 1 at n] here
        by (simp add: Let_def finish_grown token_type_def cbor_token_def)
    next
      case (CBytes b)
      then show ?thesis using value_body_head [OF wf lt, of 2 at "of_nat (length b)"] here Suc.prems body_bytes [of d _ b]
        by (simp add: Let_def finish_grown token_type_def cbor_token_def at_bytes_append unat_length)
    next
      case (CText b)
      then show ?thesis using value_body_head [OF wf lt, of 3 at "of_nat (length b)"] here Suc.prems body_bytes [of d _ b]
        by (simp add: Let_def finish_grown token_type_def cbor_token_def at_bytes_append unat_length)
    next
      case (CArray vs)
      let ?h = "head_bytes 4 (of_nat (length vs))"
      let ?t = "\<lparr>tk_start = at, tk_end = 0, tk_next = 0, tk_type = CHR ''['', tk_header = length ?h\<rparr>"
      have len: "length vs \<le> 1024" and all: "\<forall>v \<in> set vs. reads (parse_value l) view False v"
        using Suc CArray by (auto simp: list_all_iff)
      then have n: "unat (of_nat (length vs) :: u64) = length vs" "\<not> 1024 < (of_nat (length vs) :: u64)"
        by (simp_all add: unat_length word_less_nat_alt)
      have bytes: "at_bytes d at ?h" "at_bytes d (at + length ?h) (concat (map encode vs))"
        using here CArray by (simp_all add: at_bytes_append)
      have "parse_items (parse_value l) 4 view compact (length (dc_tokens d)) (length vs) (grown d [?t]) (at + length ?h) =
          Some (grown (grown d [?t]) (array_tokens view compact (at + length ?h) (length (dc_tokens (grown d [?t]))) vs),
            at + length ?h + length (concat (map encode vs)))"
        by (rule parse_array [OF all doc_wf_grown [OF wf]]) (use bytes room CArray lt in auto)
      then show ?thesis
        using value_body_head [OF wf lt _ bytes(1), of "parse_value l" view compact] n CArray
        by (simp add: Let_def finish_grown token_type_def cbor_token_def add.assoc)
    next
      case (CMap kvs)
      let ?h = "head_bytes 5 (of_nat (length kvs))"
      let ?t = "\<lparr>tk_start = at, tk_end = 0, tk_next = 0, tk_type = CHR ''{'', tk_header = length ?h\<rparr>"
      have len: "length kvs \<le> 64" "distinct (map fst kvs)" using Suc.prems CMap by auto
      then have n: "unat (of_nat (length kvs) :: u64) = length kvs" "\<not> 1024 < (of_nat (length kvs) :: u64)"
        "\<not> 64 < (of_nat (length kvs) :: u64)"
        by (simp_all add: unat_length word_less_nat_alt)
      have all: "\<forall>(k, v) \<in> set kvs. reads (parse_value l) None False (CText k) \<and> reads (parse_value l) view (viewed view k) v"
      proof safe
        fix k v assume kv: "(k, v) \<in> set kvs"
        with Suc.prems CMap have "0 < l" "length k < 2 ^ 64" "utf8 k" "admitted l v" by (auto simp: list_all_iff)
        moreover from this have "admitted l (CText k)" by (cases l) auto
        ultimately show "reads (parse_value l) None False (CText k)" "reads (parse_value l) view (viewed view k) v"
          using Suc.IH by blast+
      qed
      have bytes: "at_bytes d at ?h" "at_bytes d (at + length ?h) (entries kvs)"
        using here CMap by (simp_all add: at_bytes_append)
      have "parse_items (parse_value l) 5 view compact (length (dc_tokens d)) (length kvs) (grown d [?t]) (at + length ?h) =
          Some (grown (grown d [?t]) (map_tokens view (at + length ?h) (length (dc_tokens (grown d [?t]))) kvs),
            at + length ?h + length (entries kvs))"
        by (rule parse_map [OF all doc_wf_grown [OF wf], where past = "[]" and pre = "dc_tokens (grown d [?t])"
              and pat = "at + length ?h"])
          (use bytes room CMap lt len in \<open>auto simp: at_bytes_def\<close>)
      then show ?thesis
        using value_body_head [OF wf lt _ bytes(1), of "parse_value l" view compact] n CMap
        by (simp add: Let_def finish_grown token_type_def cbor_token_def add.assoc)
    next
      case CFalse
      then show ?thesis using value_body_head [OF wf lt, of 7 at 20] here
        by (simp add: Let_def finish_grown token_type_def cbor_token_def)
    next
      case CTrue
      then show ?thesis using value_body_head [OF wf lt, of 7 at 21] here
        by (simp add: Let_def finish_grown token_type_def cbor_token_def)
    next
      case CNull
      then show ?thesis using value_body_head [OF wf lt, of 7 at 22] here
        by (simp add: Let_def finish_grown token_type_def cbor_token_def)
    qed
  qed
qed simp

section \<open>Nothing else is read\<close>

text \<open>What \<open>rec\<close> reads at a position is an admitted value.\<close>

definition reads_only :: "parser \<Rightarrow> nat \<Rightarrow> bool" where
  "reads_only rec l \<longleftrightarrow> (\<forall>d at view compact r. doc_wf d \<longrightarrow> rec d at view compact = Some r \<longrightarrow>
     (\<exists>v. admitted l v \<and> at_bytes d at (encode v) \<and> length (dc_tokens d) + peak view compact v \<le> dc_capacity d))"

lemma reads_onlyE:
  assumes "reads_only rec l" "\<And>v view compact. admitted l v \<Longrightarrow> reads rec view compact v"
    and "doc_wf d" "rec d at view compact = Some (i, d', at')"
  obtains v where "admitted l v" "at_bytes d at (encode v)" "length (dc_tokens d) + peak view compact v \<le> dc_capacity d"
    "i = length (dc_tokens d)" "d' = grown d (tokens_of view compact at (length (dc_tokens d)) v)"
    "at' = at + length (encode v)"
proof -
  from assms(1,3,4) obtain v where v: "admitted l v" "at_bytes d at (encode v)"
    "length (dc_tokens d) + peak view compact v \<le> dc_capacity d"
    unfolding reads_only_def by metis
  from readsD [OF assms(2) [OF v(1)] assms(3) v(2,3)] assms(4) show thesis
    by (intro that [OF v]) simp_all
qed

lemma doc_wf_read:
  assumes "doc_wf d" "length (dc_tokens d) + peak view compact v \<le> dc_capacity d"
  shows "doc_wf (grown d (tokens_of view compact at i v))"
  by (rule doc_wf_grown [OF assms(1)]) (use assms(2) peak_ge(1) [of view compact v] in simp)

lemma array_sound:
  assumes "reads_only rec l" "\<And>v view compact. admitted l v \<Longrightarrow> reads rec view compact v"
    and "doc_wf d" "parse_items rec 4 view compact index n d at = Some r" "compact \<longrightarrow> length (dc_tokens d) = index + 1"
    and "at \<le> dc_size d"
  shows "\<exists>vs. length vs = n \<and> (\<forall>v \<in> set vs. admitted l v) \<and> at_bytes d at (concat (map encode vs)) \<and>
    length (dc_tokens d) + array_peak view compact vs \<le> dc_capacity d"
  using assms(3-)
proof (induction n arbitrary: d at)
  case 0
  then show ?case by (auto simp: doc_wf_def at_bytes_def)
next
  case (Suc n)
  then obtain i d1 at1 where one: "rec d at view False = Some (i, d1, at1)"
    and more: "parse_items rec 4 view compact index n
      (if compact then d1\<lparr>dc_tokens := take (index + 1) (dc_tokens d1)\<rparr> else d1) at1 = Some r"
    by (auto split: option.splits)
  obtain v where v: "admitted l v" "at_bytes d at (encode v)" "length (dc_tokens d) + peak view False v \<le> dc_capacity d"
    "d1 = grown d (tokens_of view False at (length (dc_tokens d)) v)" "at1 = at + length (encode v)"
    by (rule reads_onlyE [OF assms(1,2) Suc.prems(1) one])
  let ?d = "if compact then d else d1"
  have "doc_wf ?d" using Suc.prems(1) doc_wf_read [OF Suc.prems(1) v(3)] by (simp add: v(4))
  moreover have "parse_items rec 4 view compact index n ?d at1 = Some r"
    using more Suc.prems(3) by (auto simp: v(4) split: if_splits)
  moreover have "at1 \<le> dc_size ?d" using v(2) by (simp add: v(4,5) at_bytes_def)
  moreover have "compact \<longrightarrow> length (dc_tokens ?d) = index + 1" using Suc.prems(3) by simp
  ultimately obtain vs where "length vs = n" "\<forall>v \<in> set vs. admitted l v" "at_bytes ?d at1 (concat (map encode vs))"
    "length (dc_tokens ?d) + array_peak view compact vs \<le> dc_capacity ?d"
    using Suc.IH [of ?d at1] by blast
  with v show ?case
    by (intro exI [of _ "v # vs"]) (auto simp: at_bytes_append split: if_splits)
qed

lemma text_typed: "cbor_type v = CHR 0x22 \<longleftrightarrow> (\<exists>k. v = CText k)"
  by (cases v) auto

lemma map_sound:
  assumes "reads_only rec l" "\<And>v view compact. admitted l v \<Longrightarrow> reads rec view compact v"
    and "doc_wf d" "parse_items rec 5 view compact index n d at = Some r" "at \<le> dc_size d"
    and "dc_tokens d = pre @ map_tokens view pat (index + 1) past" "length pre = index + 1"
      "at_bytes d pat (entries past)" "at = pat + length (entries past)" "distinct (map fst past)"
  shows "\<exists>kvs. length kvs = n \<and> distinct (map fst (past @ kvs)) \<and>
    (\<forall>(k, v) \<in> set kvs. admitted l (CText k) \<and> admitted l v) \<and> at_bytes d at (entries kvs) \<and>
    length (dc_tokens d) + map_peak view kvs \<le> dc_capacity d"
  using assms(3-)
proof (induction n arbitrary: d at past)
  case 0
  then show ?case by (intro exI [of _ "[]"]) (auto simp: doc_wf_def at_bytes_def)
next
  case (Suc n)
  obtain d1 at1 cc i2 d2 at2 where key: "parse_key rec view index d at = Some (d1, at1, cc)"
    and two: "rec d1 at1 view cc = Some (i2, d2, at2)"
    and more: "parse_items rec 5 view compact index n d2 at2 = Some r"
    using Suc.prems(2) by (auto split: option.splits)
  from key obtain i where one: "rec d at None False = Some (i, d1, at1)"
    and ty: "tk_type (dc_tokens d1 ! i) = CHR 0x22" and dup: "duplicate_key d1 (index + 1) i = Some False"
    by (auto simp: parse_key_def split: option.splits if_splits)
  obtain u where u: "admitted l u" "at_bytes d at (encode u)" "length (dc_tokens d) + peak None False u \<le> dc_capacity d"
    "i = length (dc_tokens d)" "d1 = grown d (tokens_of None False at (length (dc_tokens d)) u)" "at1 = at + length (encode u)"
    by (rule reads_onlyE [OF assms(1,2) Suc.prems(1) one])
  obtain k where k: "u = CText k"
  proof -
    have "tk_type (dc_tokens d1 ! i) = cbor_type u" using u(4) by (cases u) (simp_all add: u(5) nth_append Let_def)
    with ty that show thesis by (auto simp: text_typed)
  qed
  let ?t = "cbor_token (CText k) at (length (dc_tokens d) + 1)"
  have d1: "d1 = grown d [?t]" "at_bytes d at (encode (CText k))" "length (dc_tokens d) < dc_capacity d"
    using u(2,3,5) by (simp_all add: k)
  have "duplicate_key d1 (index + 1) i = Some (k \<in> fst ` set past)"
    using duplicate_key_entries [of d1 pre view pat past k at "length (dc_tokens d) + 1" "[]"] Suc.prems(4-6) d1
    by (simp add: u(4))
  with dup have new: "k \<notin> fst ` set past" by simp
  have rk: "reads rec None False (CText k)" using assms(2) u(1) by (simp add: k)
  have cc: "cc = viewed view k"
    using parse_key_reads [OF rk Suc.prems(1) d1(3,2) new Suc.prems(4-6)] key by simp
  have wf1: "doc_wf d1" using doc_wf_grown [OF Suc.prems(1), of "[?t]"] d1 by simp
  obtain v where v: "admitted l v" "at_bytes d1 at1 (encode v)" "length (dc_tokens d1) + peak view cc v \<le> dc_capacity d1"
    "d2 = grown d1 (tokens_of view cc at1 (length (dc_tokens d1)) v)" "at2 = at1 + length (encode v)"
    by (rule reads_onlyE [OF assms(1,2) wf1 two])
  have "\<exists>kvs. length kvs = n \<and> distinct (map fst ((past @ [(k, v)]) @ kvs)) \<and>
    (\<forall>(k, v) \<in> set kvs. admitted l (CText k) \<and> admitted l v) \<and> at_bytes d2 at2 (entries kvs) \<and>
    length (dc_tokens d2) + map_peak view kvs \<le> dc_capacity d2"
  proof (rule Suc.IH [OF _ more])
    show "doc_wf d2" unfolding v(4) by (rule doc_wf_read [OF wf1 v(3)])
    show "at2 \<le> dc_size d2" using v(2) by (simp add: v(4,5) at_bytes_def)
    show "dc_tokens d2 = pre @ map_tokens view pat (index + 1) (past @ [(k, v)])"
      using Suc.prems(4,5,7) by (simp add: v(4) d1(1) u(6) k cc map_tokens_append Let_def)
    show "at_bytes d2 pat (entries (past @ [(k, v)]))"
      using Suc.prems(6,7) d1 v(2) u(6) by (simp add: v(4) at_bytes_append add.assoc k)
    show "at2 = pat + length (entries (past @ [(k, v)]))" using Suc.prems(7) by (simp add: v(5) u(6) k)
    show "distinct (map fst (past @ [(k, v)]))" using Suc.prems(8) new by simp
  qed (use Suc.prems(5) in simp)
  then obtain kvs where "length kvs = n" "distinct (map fst ((past @ [(k, v)]) @ kvs))"
    "\<forall>(k, v) \<in> set kvs. admitted l (CText k) \<and> admitted l v" "at_bytes d2 at2 (entries kvs)"
    "length (dc_tokens d2) + map_peak view kvs \<le> dc_capacity d2" by blast
  with u(1) v d1 show ?case
    by (intro exI [of _ "(k, v) # kvs"]) (simp add: encode_map_Cons at_bytes_append u(6) k cc d1(1) add.assoc)
qed

lemma major_cases: "major < 8 \<Longrightarrow> major \<in> {0, 1, 2, 3, 4, 5, 6, 7 :: u8}"
proof -
  assume "major < 8"
  then have "unat major \<in> {0, 1, 2, 3, 4, 5, 6, 7}" by (auto simp: word_less_nat_alt)
  then show ?thesis by (auto simp: word_unat_eq_iff)
qed

lemma at_bytes_slice:
  "doc_wf d \<Longrightarrow> n \<le> dc_size d - at \<Longrightarrow> at \<le> dc_size d \<Longrightarrow> at_bytes d at (take n (drop at (dc_text d)))"
  by (auto simp: at_bytes_def doc_wf_def min_def)

lemma parse_value_sound: "reads_only (parse_value l) l"
proof (induction l)
  case 0
  then show ?case by (simp add: reads_only_def)
next
  case (Suc l)
  show ?case unfolding reads_only_def
  proof (intro allI impI)
    fix d at view compact r
    assume wf: "doc_wf d" and parsed: "parse_value (Suc l) d at view compact = Some r"
    then obtain major hw n at' where arg: "argument (dc_text d) (dc_size d) at = Some (major, hw, n, at')"
      and lt: "length (dc_tokens d) < dc_capacity d"
      by (auto simp: value_body_def doc_wf_def split: if_splits option.splits)
    note inv = argument_inv [OF arg]
    have wf': "dc_size d \<le> length (dc_text d)" using wf by (simp add: doc_wf_def)
    have head: "at_bytes d at (head_bytes major n)" using inv(2-5) [OF wf'] by (simp add: at_bytes_def)
    let ?h = "head_bytes major n"
    let ?at = "at + length ?h"
    let ?t = "\<lparr>tk_start = at, tk_end = 0, tk_next = 0, tk_type = token_type major n, tk_header = length ?h\<rparr>"
    have at: "?at \<le> dc_size d" using inv(2-4) [OF wf'] by simp
    note body = parsed [simplified, unfolded value_body_head [OF wf lt inv(1) [OF wf'] head] Let_def]
    let ?goal = "\<exists>v. admitted (Suc l) v \<and> at_bytes d at (encode v) \<and> length (dc_tokens d) + peak view compact v \<le> dc_capacity d"
    have slice: "at_bytes d at (?h @ take (unat n) (drop ?at (dc_text d)))" "length (take (unat n) (drop ?at (dc_text d))) = unat n"
      if "unat n \<le> dc_size d - ?at"
      using at_bytes_slice [OF wf that at] head that wf' by (auto simp: at_bytes_append)
    have wf1: "doc_wf (grown d [?t])" using doc_wf_grown [OF wf, of "[?t]"] lt by simp
    have "uint n < 2 ^ LENGTH(64)" by (rule unsigned_less)
    then have unat: "of_nat (unat n) = n" "uint n < 2 ^ 64" by simp_all
    have "major \<in> {0, 1, 2, 3, 4, 5, 6, 7}" by (rule major_cases [OF inv(1) [OF wf']])
    then consider "major = 0" | "major = 1" | "major = 2" | "major = 3" | "major = 4" | "major = 5" | "major = 6" | "major = 7" by auto
    then show ?goal
    proof cases
      case 1
      with head lt show ?thesis by (intro exI [of _ "CUint n"]) simp
    next
      case 2
      with head lt show ?thesis by (intro exI [of _ "CNint n"]) simp
    next
      case 3
      then have "unat n \<le> dc_size d - ?at" using body by (simp split: if_splits)
      from slice [OF this] 3 lt unat show ?thesis
        by (intro exI [of _ "CBytes (take (unat n) (drop ?at (dc_text d)))"]) simp
    next
      case 4
      then have "unat n \<le> dc_size d - ?at" "utf8 (take (unat n) (drop ?at (dc_text d)))"
        using body by (simp_all split: if_splits)
      with slice 4 lt unat show ?thesis
        by (intro exI [of _ "CText (take (unat n) (drop ?at (dc_text d)))"]) simp
    next
      case 5
      then obtain d' at'' where items: "parse_items (parse_value l) 4 view compact (length (dc_tokens d)) (unat n) (grown d [?t]) ?at = Some (d', at'')"
        and n: "\<not> 1024 < n"
        using body by (auto split: if_splits option.splits)
      obtain vs where vs: "length vs = unat n" "\<forall>v \<in> set vs. admitted l v" "at_bytes d ?at (concat (map encode vs))"
        "length (dc_tokens d) + 1 + array_peak view compact vs \<le> dc_capacity d"
        using array_sound [OF Suc.IH parse_value_reads wf1 items] at by auto
      have "length vs \<le> 1024" using n vs(1) by (simp add: word_less_nat_alt)
      with vs head 5 unat(1) show ?thesis
        by (intro exI [of _ "CArray vs"]) (simp add: at_bytes_append list_all_iff)
    next
      case 6
      then obtain d' at'' where items: "parse_items (parse_value l) 5 view compact (length (dc_tokens d)) (unat n) (grown d [?t]) ?at = Some (d', at'')"
        and n: "\<not> 64 < n"
        using body by (auto split: if_splits option.splits)
      obtain kvs where kvs: "length kvs = unat n" "distinct (map fst kvs)"
        "\<forall>(k, v) \<in> set kvs. admitted l (CText k) \<and> admitted l v" "at_bytes d ?at (entries kvs)"
        "length (dc_tokens d) + 1 + map_peak view kvs \<le> dc_capacity d"
        using map_sound [OF Suc.IH parse_value_reads wf1 items, of "dc_tokens (grown d [?t])" ?at "[]"] at
        by (auto simp: at_bytes_def)
      have key_ok: "admitted l (CText k) \<longleftrightarrow> 0 < l \<and> length k < 2 ^ 64 \<and> utf8 k" for k by (cases l) auto
      have "length kvs \<le> 64" using n kvs(1) by (simp add: word_less_nat_alt)
      with kvs head 6 unat(1) show ?thesis
        by (intro exI [of _ "CMap kvs"]) (auto simp: at_bytes_append list_all_iff key_ok)
    next
      case 7
      with body show ?thesis by (simp add: token_type_def)
    next
      case 8
      then have "n = 20 \<or> n = 21 \<or> n = 22" using body by (auto simp: token_type_def split: if_splits)
      then show ?thesis
      proof (elim disjE)
        assume "n = 20" with 8 head lt show ?thesis by (intro exI [of _ CFalse]) simp
      next
        assume "n = 21" with 8 head lt show ?thesis by (intro exI [of _ CTrue]) simp
      next
        assume "n = 22" with 8 head lt show ?thesis by (intro exI [of _ CNull]) simp
      qed
    qed
  qed
qed

text \<open>The document that describes \<open>v\<close>.\<close>

definition doc_of :: "bytes option \<Rightarrow> nat \<Rightarrow> cbor \<Rightarrow> wn_doc" where
  "doc_of view capacity v =
     \<lparr>dc_text = encode v, dc_size = length (encode v), dc_capacity = capacity, dc_tokens = tokens_of view False 0 0 v\<rparr>"

lemma parse_value_top:
  assumes "length bs \<le> 4294967295"
  shows "(\<exists>i. parse_value l \<lparr>dc_text = bs, dc_size = length bs, dc_capacity = capacity, dc_tokens = []\<rparr> 0 view False =
      Some (i, d, length bs)) \<longleftrightarrow>
    (\<exists>v. admitted l v \<and> encode v = bs \<and> peak view False v \<le> capacity \<and> d = doc_of view capacity v)"
    (is "(\<exists>i. parse_value l ?d 0 view False = _) \<longleftrightarrow> ?R")
proof
  have wf: "doc_wf ?d" using assms by (simp add: doc_wf_def)
  assume "\<exists>i. parse_value l ?d 0 view False = Some (i, d, length bs)"
  then obtain i where i: "parse_value l ?d 0 view False = Some (i, d, length bs)" by blast
  obtain v where v: "admitted l v" "at_bytes ?d 0 (encode v)" "length (dc_tokens ?d) + peak view False v \<le> dc_capacity ?d"
    "d = grown ?d (tokens_of view False 0 (length (dc_tokens ?d)) v)" "length bs = 0 + length (encode v)"
    by (rule reads_onlyE [OF parse_value_sound parse_value_reads wf i])
  have bs: "encode v = bs" using v(2,5) by (simp add: at_bytes_def)
  have "d = doc_of view capacity v" unfolding v(4) by (simp add: doc_of_def grown_def bs)
  with v(1,3) bs show ?R by (intro exI [of _ v]) simp
next
  assume ?R
  then obtain v where v: "admitted l v" "encode v = bs" "peak view False v \<le> capacity" "d = doc_of view capacity v" by blast
  have "at_bytes ?d 0 (encode v)" using v(2) by (simp add: at_bytes_def)
  from readsD [OF parse_value_reads [OF v(1)] _ this, of view False] v assms
  show "\<exists>i. parse_value l ?d 0 view False = Some (i, d, length bs)"
    by (simp add: doc_wf_def doc_of_def grown_def)
qed

lemma encode_nonempty: "encode v \<noteq> []"
  using cbor_head_encode [of v] length_head_bytes by (cases v) (auto simp: head_bytes_def Let_def split: if_splits)

lemma parse_iff:
  "parse (Some bs) maximum True capacity view = Some d \<longleftrightarrow>
     length bs \<le> maximum \<and> maximum \<le> (if view = None then 65536 else 4194304) \<and> 0 < capacity \<and> capacity \<le> 256 \<and>
     (\<exists>v. admitted 17 v \<and> encode v = bs \<and> peak view False v \<le> capacity \<and> d = doc_of view capacity v)"
proof (cases "bs \<noteq> [] \<and> length bs \<le> maximum \<and> maximum \<le> (if view = None then 65536 else 4194304) \<and> 0 < capacity \<and> capacity \<le> 256")
  case True
  then have small: "length bs \<le> 4294967295" by (auto split: if_splits)
  let ?d = "\<lparr>dc_text = bs, dc_size = length bs, dc_capacity = capacity, dc_tokens = []\<rparr>"
  have "parse (Some bs) maximum True capacity view = Some d \<longleftrightarrow>
      (\<exists>i. parse_value 17 ?d 0 view False = Some (i, d, length bs))"
    using True by (auto simp: parse_def not_less simp del: parse_value.simps split: option.splits if_splits)
  with parse_value_top [OF small, of 17 capacity view d] True show ?thesis by simp
next
  case False
  then show ?thesis using encode_nonempty by (auto simp: parse_def)
qed

section \<open>A frame has one reading\<close>

lemma head_bytes_prefix:
  assumes "head_bytes m n @ xs = head_bytes m' n' @ ys" "m < 8" "m' < 8"
  shows "m = m'" "n = n'" "xs = ys"
proof -
  let ?z = "head_bytes m n @ xs"
  have 1: "argument ?z (length ?z) 0 = Some (m, length (head_bytes m n), n, length (head_bytes m n))"
    using argument_head [OF assms(2), of "length ?z" ?z 0 n] by simp
  have 2: "argument ?z (length ?z) 0 = Some (m', length (head_bytes m' n'), n', length (head_bytes m' n'))"
    using argument_head [OF assms(3), of "length ?z" ?z 0 n'] by (simp add: assms(1))
  from 1 2 show "m = m'" "n = n'" by simp_all
  with assms(1) show "xs = ys" by simp
qed

lemma of_nat_length_inject: "a < 2 ^ 64 \<Longrightarrow> b < 2 ^ 64 \<Longrightarrow> (of_nat a :: u64) = of_nat b \<longleftrightarrow> a = b"
  by (metis unat_length)

lemma cbor_text_prefix:
  assumes "encode (CText a) @ xs = encode (CText b) @ ys" "length a < 2 ^ 64" "length b < 2 ^ 64"
  shows "a = b \<and> xs = ys"
proof -
  have "head_bytes 3 (of_nat (length a)) @ (a @ xs) = head_bytes 3 (of_nat (length b)) @ (b @ ys)" using assms(1) by simp
  from head_bytes_prefix [OF this] of_nat_length_inject [OF assms(2,3)] show ?thesis by auto
qed

fun cbor_major :: "cbor \<Rightarrow> u8" where
  "cbor_major (CUint n) = 0" | "cbor_major (CNint n) = 1" | "cbor_major (CBytes b) = 2" | "cbor_major (CText t) = 3"
| "cbor_major (CArray vs) = 4" | "cbor_major (CMap kvs) = 5" | "cbor_major _ = 7"

fun cbor_arg :: "cbor \<Rightarrow> u64" where
  "cbor_arg (CUint n) = n" | "cbor_arg (CNint n) = n" | "cbor_arg (CBytes b) = of_nat (length b)"
| "cbor_arg (CText t) = of_nat (length t)" | "cbor_arg (CArray vs) = of_nat (length vs)"
| "cbor_arg (CMap kvs) = of_nat (length kvs)" | "cbor_arg CFalse = 20" | "cbor_arg CTrue = 21" | "cbor_arg CNull = 22"

fun cbor_body :: "cbor \<Rightarrow> bytes" where
  "cbor_body (CBytes b) = b" | "cbor_body (CText t) = t" | "cbor_body (CArray vs) = concat (map encode vs)"
| "cbor_body (CMap kvs) = entries kvs" | "cbor_body _ = []"

lemma encode_split: "encode v = head_bytes (cbor_major v) (cbor_arg v) @ cbor_body v" "cbor_major v < 8"
  by (cases v; simp)+

lemma encode_prefix:
  "encode v @ xs = encode w @ ys \<Longrightarrow> admitted l v \<Longrightarrow> admitted l w \<Longrightarrow> v = w \<and> xs = ys"
proof (induction l arbitrary: v w xs ys)
  case (Suc l)
  note pre = Suc.prems(1)
  have arrays: "length vs = length ws \<Longrightarrow> concat (map encode vs) @ xs = concat (map encode ws) @ ys \<Longrightarrow>
      list_all (admitted l) vs \<Longrightarrow> list_all (admitted l) ws \<Longrightarrow> vs = ws \<and> xs = ys" for vs ws xs ys
  proof (induction vs ws rule: list_induct2)
    case (Cons v vs w ws)
    from Cons.prems Suc.IH [of v "concat (map encode vs) @ xs" w "concat (map encode ws) @ ys"] Cons.IH show ?case by simp
  qed simp
  have maps: "length kvs = length lws \<Longrightarrow> entries kvs @ xs = entries lws @ ys \<Longrightarrow>
      list_all (\<lambda>(k, v). length k < 2 ^ 64 \<and> admitted l v) kvs \<Longrightarrow> list_all (\<lambda>(k, v). length k < 2 ^ 64 \<and> admitted l v) lws \<Longrightarrow>
      kvs = lws \<and> xs = ys" for kvs lws :: "(bytes \<times> cbor) list" and xs ys
  proof (induction kvs lws rule: list_induct2)
    case (Cons kv kvs lw lws)
    obtain k v j w where kv: "kv = (k, v)" "lw = (j, w)" by (cases kv, cases lw)
    have "encode (CText k) @ encode v @ entries kvs @ xs = encode (CText j) @ encode w @ entries lws @ ys"
      using Cons.prems(1) unfolding kv encode_map_Cons by simp
    from cbor_text_prefix [OF this] Cons.prems(2,3) have kj: "k = j"
      and rest: "encode v @ entries kvs @ xs = encode w @ entries lws @ ys" by (simp_all add: kv)
    from Suc.IH [OF rest] Cons.prems(2,3) have "v = w" "entries kvs @ xs = entries lws @ ys" by (simp_all add: kv)
    with Cons.IH Cons.prems(2,3) kj show ?case by (simp add: kv)
  qed simp
  have "head_bytes (cbor_major v) (cbor_arg v) @ (cbor_body v @ xs) = head_bytes (cbor_major w) (cbor_arg w) @ (cbor_body w @ ys)"
    using pre by (simp only: encode_split(1) [symmetric] append_assoc [symmetric])
  note eq = head_bytes_prefix [OF this encode_split(2) encode_split(2)]
  show ?case
  proof (cases v)
    case (CArray vs)
    with eq(1) obtain ws where w: "w = CArray ws" by (cases w) auto
    have "length vs = length ws" using eq(2) Suc.prems(2,3) of_nat_length_inject [of "length vs" "length ws"] by (simp add: CArray w)
    with arrays [of vs ws xs ys] eq(3) Suc.prems(2,3) show ?thesis by (simp add: CArray w)
  next
    case (CMap kvs)
    with eq(1) obtain lws where w: "w = CMap lws" by (cases w) auto
    have "length kvs = length lws" using eq(2) Suc.prems(2,3) of_nat_length_inject [of "length kvs" "length lws"] by (simp add: CMap w)
    with maps [of kvs lws xs ys] eq(3) Suc.prems(2,3) show ?thesis by (simp add: CMap w list_all_iff case_prod_beta)
  next
    case (CBytes b)
    with eq(1) obtain c where w: "w = CBytes c" by (cases w) auto
    with eq(2,3) Suc.prems(2,3) of_nat_length_inject [of "length b" "length c"] show ?thesis by (simp add: CBytes w)
  next
    case (CText b)
    with eq(1) obtain c where w: "w = CText c" by (cases w) auto
    with eq(2,3) Suc.prems(2,3) of_nat_length_inject [of "length b" "length c"] show ?thesis by (simp add: CText w)
  qed (use eq in \<open>cases w; simp\<close>)+
qed simp

end
