(* ===== verification/Peer_Document.thy ===== *)
theory Peer_Document
  imports Peer_Binary
begin

text \<open>
  What the queries of \<open>components/wendy_net_peer/src/binary.c\<close> return on a document the reader
  produced, in terms of the value the frame describes.
\<close>

section \<open>Tokens that describe a value\<close>

definition denotes :: "wn_doc \<Rightarrow> nat \<Rightarrow> cbor \<Rightarrow> bool" where
  "denotes d i v \<longleftrightarrow> doc_wf d \<and> (\<exists>view compact at pre post.
     dc_tokens d = pre @ tokens_of view compact at i v @ post \<and> length pre = i \<and> at_bytes d at (encode v))"

lemma denotesI:
  "doc_wf d \<Longrightarrow> dc_tokens d = pre @ tokens_of view compact at i v @ post \<Longrightarrow> length pre = i \<Longrightarrow>
     at_bytes d at (encode v) \<Longrightarrow> denotes d i v"
  unfolding denotes_def by blast

lemma denotes_doc_of:
  assumes "admitted l v" "peak view False v \<le> capacity" "length (encode v) \<le> 4294967295"
  shows "denotes (doc_of view capacity v) 0 v"
  using assms peak_ge(1) [of view False v]
  by (intro denotesI [where pre = "[]" and post = "[]" and at = 0 and view = view and compact = False])
    (auto simp: doc_of_def doc_wf_def at_bytes_def)

lemma tokens_of_first: "\<exists>nxt ts. tokens_of view compact at i v = cbor_token v at nxt # ts"
  by (cases v) (auto simp: Let_def)

lemma cbor_head_split: "cbor_head v = head_bytes (cbor_major v) (cbor_arg v)"
  by (cases v) simp_all

lemma payload_body:
  assumes "at_bytes d at (encode v)"
  shows "payload d (cbor_token v at nxt) = cbor_body v"
proof -
  have "encode v = cbor_head v @ cbor_body v" by (simp add: encode_split(1) cbor_head_split)
  with assms show ?thesis
    by (simp add: payload_def cbor_token_def at_bytes_append) (simp add: at_bytes_def)
qed

lemma denotes_token:
  assumes "denotes d i v"
  obtains at nxt where "wn_doc_token d (int i) = Some (cbor_token v at nxt)" "at_bytes d at (encode v)"
    "payload d (cbor_token v at nxt) = cbor_body v"
proof -
  from assms obtain view compact at pre post where toks: "dc_tokens d = pre @ tokens_of view compact at i v @ post"
    "length pre = i" and bytes: "at_bytes d at (encode v)" unfolding denotes_def by blast
  moreover obtain nxt ts where "tokens_of view compact at i v = cbor_token v at nxt # ts" using tokens_of_first by blast
  ultimately have "wn_doc_token d (int i) = Some (cbor_token v at nxt)"
    by (auto simp: wn_doc_token_def nth_append)
  with bytes payload_body [OF bytes] that show thesis by blast
qed

section \<open>Reading a value\<close>

lemma wn_doc_text_denotes: "denotes d i v \<Longrightarrow> wn_doc_text d (int i) = (case v of CText t \<Rightarrow> Some t | _ \<Rightarrow> None)"
  by (rule denotes_token) (auto simp: wn_doc_text_def split: cbor.splits)

lemma wn_doc_bytes_denotes: "denotes d i v \<Longrightarrow> wn_doc_bytes d (int i) = (case v of CBytes b \<Rightarrow> Some b | _ \<Rightarrow> None)"
  by (rule denotes_token) (auto simp: wn_doc_bytes_def split: cbor.splits)

lemma wn_doc_equal_denotes: "denotes d i v \<Longrightarrow> wn_doc_equal d (int i) s \<longleftrightarrow> v = CText s"
  by (auto simp: wn_doc_equal_def wn_doc_text_denotes split: cbor.splits)

lemma wn_doc_u64_denotes:
  assumes "denotes d i v"
  shows "wn_doc_u64 d (int i) = (case v of CUint n \<Rightarrow> Some n | _ \<Rightarrow> None)"
proof (rule denotes_token [OF assms])
  fix at nxt
  assume t: "wn_doc_token d (int i) = Some (cbor_token v at nxt)" "at_bytes d at (encode v)"
  have "doc_wf d" using assms by (simp add: denotes_def)
  from argument_at [OF this, of 0 at] t show ?thesis
    by (cases v) (auto simp: wn_doc_u64_def cbor_token_def)
qed

section \<open>The entries of a map\<close>

text \<open>The first entry of a run of entries in the table.\<close>

lemma map_tokens_entry:
  assumes "doc_wf d" "dc_tokens d = pre @ map_tokens view at (length pre) ((k, v) # kvs) @ post"
    and "at_bytes d at (entries ((k, v) # kvs))"
  defines "pre' \<equiv> pre @ cbor_token (CText k) at (length pre + 1) #
    tokens_of view (viewed view k) (at + length (encode (CText k))) (length pre + 1) v"
    and "at' \<equiv> at + length (encode (CText k)) + length (encode v)"
  shows "denotes d (length pre) (CText k)" "denotes d (length pre + 1) v"
    "tk_next (dc_tokens d ! (length pre + 1)) = length pre'"
    "dc_tokens d = pre' @ map_tokens view at' (length pre') kvs @ post" "at_bytes d at' (entries kvs)"
    "length pre' + map_ntokens view kvs = length pre + map_ntokens view ((k, v) # kvs)"
proof -
  let ?i = "length pre" and ?vat = "at + length (encode (CText k))"
  let ?ts = "tokens_of view (viewed view k) ?vat (?i + 1) v"
  have toks: "dc_tokens d = pre @ cbor_token (CText k) at (?i + 1) # ?ts @ map_tokens view at' (?i + 1 + length ?ts) kvs @ post"
    using assms(2) by (simp add: Let_def at'_def)
  have bytes: "at_bytes d at (encode (CText k))" "at_bytes d ?vat (encode v)" "at_bytes d at' (entries kvs)"
    using assms(3) unfolding encode_map_Cons at'_def by (simp_all add: at_bytes_append add.assoc)
  show "denotes d ?i (CText k)"
    by (rule denotesI [OF assms(1) _ refl bytes(1), where view = view and compact = False]) (simp add: toks)
  show "denotes d (?i + 1) v"
    by (rule denotesI [OF assms(1) _ _ bytes(2), where pre = "pre @ [cbor_token (CText k) at (?i + 1)]"
          and view = view and compact = "viewed view k"])
      (simp_all add: toks)
  obtain t ts where "?ts = t # ts" "tk_next t = ?i + 1 + ntokens view (viewed view k) v"
    "length ts = ntokens view (viewed view k) v - 1" by (rule tokens_of_hd)
  then show "tk_next (dc_tokens d ! (?i + 1)) = length pre'" by (simp add: toks nth_append pre'_def)
  show "dc_tokens d = pre' @ map_tokens view at' (length pre') kvs @ post" by (simp add: toks pre'_def)
  show "at_bytes d at' (entries kvs)" by (rule bytes(3))
  show "length pre' + map_ntokens view kvs = ?i + map_ntokens view ((k, v) # kvs)" by (simp add: pre'_def)
qed

lemma member_from_entries:
  assumes "doc_wf d" "dc_tokens d = pre @ map_tokens view at (length pre) kvs @ post" "at_bytes d at (entries kvs)"
  shows "case map_of kvs (wn_key_name key) of
      None \<Rightarrow> member_from d (length pre) (length pre + map_ntokens view kvs) key = Some (- 1)
    | Some v \<Rightarrow> \<exists>j. member_from d (length pre) (length pre + map_ntokens view kvs) key = Some (int j) \<and> denotes d j v"
  using assms(2-)
proof (induction kvs arbitrary: pre at)
  case Nil
  then show ?case by (subst member_from.simps) simp
next
  case (Cons kv kvs)
  obtain k v where kv: "kv = (k, v)" by (cases kv)
  note e = map_tokens_entry [OF assms(1) Cons.prems [unfolded kv]]
  let ?i = "length pre" and ?stop = "length pre + map_ntokens view (kv # kvs)"
  have lt: "?i < ?stop" by (simp add: kv)
  show ?case
  proof (cases "k = wn_key_name key")
    case True
    then have "member_from d ?i ?stop key = Some (int (?i + 1))"
      using lt by (subst member_from.simps) (simp add: wn_doc_equal_denotes [OF e(1)])
    with True e(2) show ?thesis by (auto simp: kv intro!: exI [of _ "?i + 1"])
  next
    case False
    have step: "member_from d ?i ?stop key = member_from d (tk_next (dc_tokens d ! (?i + 1))) ?stop key"
      using lt False by (subst member_from.simps) (simp add: wn_doc_equal_denotes [OF e(1)])
    have skip: "map_of (kv # kvs) (wn_key_name key) = map_of kvs (wn_key_name key)" using False by (simp add: kv)
    show ?thesis unfolding step skip e(3) by (rule Cons.IH [OF e(4,5), unfolded e(6), folded kv])
  qed
qed

lemma fields_from_entries:
  assumes "doc_wf d" "dc_tokens d = pre @ map_tokens view at (length pre) kvs @ post" "at_bytes d at (entries kvs)"
  shows "fields_from d (length pre) (length pre + map_ntokens view kvs) allowed =
    Some (fst ` set kvs \<subseteq> wn_key_name ` set allowed)"
  using assms(2-)
proof (induction kvs arbitrary: pre at)
  case Nil
  then show ?case by (subst fields_from.simps) simp
next
  case (Cons kv kvs)
  obtain k v where kv: "kv = (k, v)" by (cases kv)
  note e = map_tokens_entry [OF assms(1) Cons.prems [unfolded kv]]
  let ?i = "length pre" and ?stop = "length pre + map_ntokens view (kv # kvs)"
  have lt: "?i < ?stop" by (simp add: kv)
  have found: "list_ex (\<lambda>f. wn_doc_equal d (int ?i) (wn_key_name f)) allowed \<longleftrightarrow> k \<in> wn_key_name ` set allowed"
    by (auto simp: list_ex_iff wn_doc_equal_denotes [OF e(1)])
  show ?case
  proof (cases "k \<in> wn_key_name ` set allowed")
    case True
    then have step: "fields_from d ?i ?stop allowed = fields_from d (tk_next (dc_tokens d ! (?i + 1))) ?stop allowed"
      using lt found by (subst fields_from.simps) simp
    have more: "fst ` set (kv # kvs) \<subseteq> wn_key_name ` set allowed \<longleftrightarrow> fst ` set kvs \<subseteq> wn_key_name ` set allowed"
      using True by (simp add: kv)
    show ?thesis unfolding step more e(3) by (rule Cons.IH [OF e(4,5), unfolded e(6), folded kv])
  next
    case False
    then show ?thesis using lt found by (subst fields_from.simps) (auto simp: kv)
  qed
qed

lemma denotes_map_entries:
  assumes "denotes d i (CMap kvs)"
  obtains view at pre post where "doc_wf d" "dc_tokens d = pre @ map_tokens view at (length pre) kvs @ post"
    "at_bytes d at (entries kvs)" "length pre = i + 1" "dc_tokens d ! i = cbor_token (CMap kvs) (tk_start (dc_tokens d ! i)) (i + 1 + map_ntokens view kvs)"
    "i < length (dc_tokens d)"
proof -
  from assms obtain view compact at pre post where wf: "doc_wf d"
    and toks: "dc_tokens d = pre @ tokens_of view compact at i (CMap kvs) @ post" "length pre = i"
    and bytes: "at_bytes d at (encode (CMap kvs))" unfolding denotes_def by blast
  let ?h = "head_bytes 5 (of_nat (length kvs))"
  let ?t = "cbor_token (CMap kvs) at (i + 1 + map_ntokens view kvs)"
  show thesis
  proof (rule that [OF wf, of "pre @ [?t]" view "at + length ?h" post])
    show "at_bytes d (at + length ?h) (entries kvs)" using bytes by (simp add: at_bytes_append)
  qed (use toks in \<open>simp_all add: Let_def nth_append cbor_token_def\<close>)
qed

lemma wn_doc_member_denotes:
  assumes "denotes d i v"
  shows "case v of
      CMap kvs \<Rightarrow> (case map_of kvs (wn_key_name key) of
          None \<Rightarrow> wn_doc_member d i key = Some (- 1)
        | Some w \<Rightarrow> \<exists>j. wn_doc_member d i key = Some (int j) \<and> denotes d j w)
    | _ \<Rightarrow> wn_doc_member d i key = Some (- 1)"
proof (cases "\<exists>kvs. v = CMap kvs")
  case True
  then obtain kvs where v: "v = CMap kvs" by blast
  show ?thesis
  proof (rule denotes_map_entries [OF assms [unfolded v]])
    fix view at pre post
    assume e: "doc_wf d" "dc_tokens d = pre @ map_tokens view at (length pre) kvs @ post" "at_bytes d at (entries kvs)"
      "length pre = i + 1" "dc_tokens d ! i = cbor_token (CMap kvs) (tk_start (dc_tokens d ! i)) (i + 1 + map_ntokens view kvs)"
      "i < length (dc_tokens d)"
    have "tk_type (dc_tokens d ! i) = CHR ''{''" "tk_next (dc_tokens d ! i) = i + 1 + map_ntokens view kvs"
      by (subst e(5), simp add: cbor_token_def)+
    then have "wn_doc_member d i key = member_from d (length pre) (length pre + map_ntokens view kvs) key"
      using e(4,6) by (simp add: wn_doc_member_def wn_doc_token_def)
    with member_from_entries [OF e(1-3), of key] show ?thesis by (simp add: v split: option.splits)
  qed
next
  case False
  show ?thesis by (rule denotes_token [OF assms]) (use False in \<open>auto simp: wn_doc_member_def split: cbor.splits\<close>)
qed

lemma wn_doc_fields_denotes:
  assumes "denotes d i v"
  shows "wn_doc_fields d i allowed =
    Some (case v of CMap kvs \<Rightarrow> fst ` set kvs \<subseteq> wn_key_name ` set allowed | _ \<Rightarrow> False)"
proof (cases "\<exists>kvs. v = CMap kvs")
  case True
  then obtain kvs where v: "v = CMap kvs" by blast
  show ?thesis
  proof (rule denotes_map_entries [OF assms [unfolded v]])
    fix view at pre post
    assume e: "doc_wf d" "dc_tokens d = pre @ map_tokens view at (length pre) kvs @ post" "at_bytes d at (entries kvs)"
      "length pre = i + 1" "dc_tokens d ! i = cbor_token (CMap kvs) (tk_start (dc_tokens d ! i)) (i + 1 + map_ntokens view kvs)"
      "i < length (dc_tokens d)"
    have "tk_type (dc_tokens d ! i) = CHR ''{''" "tk_next (dc_tokens d ! i) = i + 1 + map_ntokens view kvs"
      by (subst e(5), simp add: cbor_token_def)+
    then have "wn_doc_fields d i allowed = fields_from d (length pre) (length pre + map_ntokens view kvs) allowed"
      using e(4,6) by (simp add: wn_doc_fields_def wn_doc_token_def)
    with fields_from_entries [OF e(1-3), of allowed] show ?thesis by (simp add: v)
  qed
next
  case False
  show ?thesis by (rule denotes_token [OF assms]) (use False in \<open>auto simp: wn_doc_fields_def split: cbor.splits\<close>)
qed

section \<open>The elements of an array\<close>

text \<open>
  The elements a caller sees that passes each cursor on, for at most the given number of calls, and what
  the last call returned: 1 for one more element, 0 at the end, -1 for an element that cannot be read.
\<close>

fun array_walk :: "nat \<Rightarrow> wn_doc \<Rightarrow> int \<Rightarrow> nat \<Rightarrow> wn_doc list \<times> int" where
  "array_walk 0 d i cursor = ([], 1)"
| "array_walk (Suc n) d i cursor =
     (case wn_doc_array_next d i cursor of
        None \<Rightarrow> ([], - 1)
      | Some None \<Rightarrow> ([], 0)
      | Some (Some (cursor', child)) \<Rightarrow> map_prod (Cons child) id (array_walk n d i cursor'))"

abbreviation fits_alone :: "cbor \<Rightarrow> bool" where
  "fits_alone v \<equiv> peak None False v \<le> WN_TOKENS"

lemma admitted_mono: "admitted l v \<Longrightarrow> l \<le> m \<Longrightarrow> admitted m v"
proof (induction l arbitrary: v m)
  case (Suc l)
  then obtain k where k: "m = Suc k" "l \<le> k" by (cases m) auto
  with Suc show ?case by (cases v) (auto simp: list_all_iff)
qed simp

lemma array_next_element:
  assumes "doc_wf d" "wn_doc_token d i = Some t" "tk_type t = CHR ''[''" "tk_start t + tk_header t \<le> pos"
    and "at_bytes d pos (encode v)" "pos + length (encode v) \<le> tk_end t" "tk_end t \<le> dc_size d" "0 < pos"
    and "admitted 17 v" "peak None False v \<le> WN_TOKENS"
  obtains child where "wn_doc_array_next d i pos = Some (Some (pos + length (encode v), child))" "denotes child 0 v"
proof -
  let ?c = "\<lparr>dc_text = dc_text d, dc_size = tk_end t, dc_capacity = WN_TOKENS, dc_tokens = []\<rparr>"
  have wf: "doc_wf ?c" using assms(1,7) by (simp add: doc_wf_def)
  have bytes: "at_bytes ?c pos (encode v)" using assms(5,6) by (simp add: at_bytes_def)
  let ?child = "grown ?c (tokens_of None False pos 0 v)"
  have parsed: "parse_value 17 ?c pos None False = Some (0, ?child, pos + length (encode v))"
    using readsD [OF parse_value_reads [OF assms(9)] wf bytes] assms(10) by simp
  have "pos < tk_end t" using assms(6) encode_nonempty [of v] by (cases "encode v") auto
  then have "wn_doc_array_next d i pos = Some (Some (pos + length (encode v), ?child))"
    using assms(2-4,6,8) parsed by (simp add: wn_doc_array_next_def)
  moreover have "denotes ?child 0 v"
    by (rule denotesI [OF doc_wf_grown [OF wf], where pre = "[]" and post = "[]" and at = pos])
      (use bytes assms(10) peak_ge(1) [of None False v] in simp_all)
  ultimately show thesis by (rule that)
qed

text \<open>An element that does not fit the table of a document of its own is not returned.\<close>

lemma array_next_misfit:
  assumes "doc_wf d" "wn_doc_token d i = Some t" "tk_type t = CHR ''[''"
    and "at_bytes d pos (encode v)" "pos + length (encode v) \<le> tk_end t" "tk_end t \<le> dc_size d" "0 < pos"
    and "admitted 17 v" "\<not> fits_alone v"
  shows "wn_doc_array_next d i pos = None"
proof -
  let ?c = "\<lparr>dc_text = dc_text d, dc_size = tk_end t, dc_capacity = WN_TOKENS, dc_tokens = []\<rparr>"
  have wf: "doc_wf ?c" using assms(1,6) by (simp add: doc_wf_def)
  have bytes: "at_bytes ?c pos (encode v)" using assms(4,5) by (simp add: at_bytes_def)
  have "parse_value 17 ?c pos None False = None"
  proof (rule ccontr)
    assume "parse_value 17 ?c pos None False \<noteq> None"
    then obtain r where "parse_value 17 ?c pos None False = Some r" by blast
    with wf parse_value_sound [of 17] obtain w where w: "admitted 17 w" "at_bytes ?c pos (encode w)"
      "length (dc_tokens ?c) + peak None False w \<le> dc_capacity ?c"
      unfolding reads_only_def by blast
    have "encode v @ drop (length (encode v)) (drop pos (dc_text d)) = drop pos (dc_text d)"
      "encode w @ drop (length (encode w)) (drop pos (dc_text d)) = drop pos (dc_text d)"
      using bytes w(2) by (metis append_take_drop_id at_bytes_def wn_doc.select_convs(1))+
    with encode_prefix [OF _ assms(8) w(1)] have "v = w" by metis
    with w(3) assms(9) show False by simp
  qed
  moreover have "pos < tk_end t" using assms(5) encode_nonempty [of v] by (cases "encode v") auto
  ultimately show ?thesis using assms(2,3,7) by (simp add: wn_doc_array_next_def)
qed

lemma array_walk_from:
  assumes "doc_wf d" "wn_doc_token d i = Some t" "tk_type t = CHR ''[''" "tk_end t \<le> dc_size d"
    and "\<forall>v \<in> set vs. admitted 17 v"
    and "tk_start t + tk_header t \<le> pos" "0 < pos" "at_bytes d pos (concat (map encode vs))"
      "tk_end t = pos + length (concat (map encode vs))"
  shows "\<exists>children. array_walk (Suc (length vs)) d i pos = (children, if list_all fits_alone vs then 0 else - 1) \<and>
    list_all2 (\<lambda>c v. denotes c 0 v) children (takeWhile fits_alone vs)"
  using assms(5-)
proof (induction vs arbitrary: pos)
  case Nil
  then show ?case using assms(2,3) by (simp add: wn_doc_array_next_def)
next
  case (Cons v vs)
  have bytes: "at_bytes d pos (encode v)" "at_bytes d (pos + length (encode v)) (concat (map encode vs))"
    using Cons.prems(4) by (simp_all add: at_bytes_append)
  have fit: "admitted 17 v" "pos + length (encode v) \<le> tk_end t" using Cons.prems(1,5) by auto
  show ?case
  proof (cases "fits_alone v")
    case False
    from array_next_misfit [OF assms(1-3) bytes(1) fit(2) assms(4) Cons.prems(3) fit(1) False] False show ?thesis
      by (subst array_walk.simps) simp
  next
    case True
    obtain child where child: "wn_doc_array_next d i pos = Some (Some (pos + length (encode v), child))" "denotes child 0 v"
      by (rule array_next_element [OF assms(1-3) Cons.prems(2) bytes(1) fit(2) assms(4) Cons.prems(3) fit(1) True])
    from Cons.IH [OF _ _ _ bytes(2)] Cons.prems obtain children
      where "array_walk (Suc (length vs)) d i (pos + length (encode v)) = (children, if list_all fits_alone vs then 0 else - 1)"
        "list_all2 (\<lambda>c v. denotes c 0 v) children (takeWhile fits_alone vs)"
      by auto
    with child True show ?thesis by (subst array_walk.simps) (simp del: array_walk.simps)
  qed
qed

lemma array_walk_start:
  assumes "0 < tk_start t + tk_header t" "wn_doc_token d i = Some t"
  shows "array_walk n d i 0 = array_walk n d i (tk_start t + tk_header t)"
  using assms by (cases n) (simp_all add: wn_doc_array_next_def)

section \<open>Properties\<close>

text \<open>C22: The reader accepts exactly the canonical encodings: a frame within the caller's limits is
  read if and only if it is the encoding of one value that nests at most 17 deep, has arrays of at most
  1024 elements and maps of at most 64 entries with distinct text keys, valid UTF-8 throughout, and
  needs no more tokens than there is room for. That value is unique, and the token table is the one that
  describes it.\<close>

theorem parse_exact:
  "parse (Some bs) maximum True capacity view = Some d \<longleftrightarrow>
     length bs \<le> maximum \<and> maximum \<le> (if view = None then 65536 else 4194304) \<and> 0 < capacity \<and> capacity \<le> 256 \<and>
     (\<exists>!v. admitted 17 v \<and> encode v = bs \<and> peak view False v \<le> capacity \<and> d = doc_of view capacity v)"
proof -
  have "v = w" if "admitted 17 v" "admitted 17 w" "encode v = encode w" for v w
    using encode_prefix [of v "[]" w "[]" 17] that by simp
  then have "(\<exists>!v. admitted 17 v \<and> encode v = bs \<and> peak view False v \<le> capacity \<and> d = doc_of view capacity v) \<longleftrightarrow>
      (\<exists>v. admitted 17 v \<and> encode v = bs \<and> peak view False v \<le> capacity \<and> d = doc_of view capacity v)"
    by blast
  then show ?thesis by (simp add: parse_iff)
qed

text \<open>C23: Every value that fits a control frame and the token table is read back from its encoding.\<close>

theorem doc_round_trip:
  assumes "admitted 17 v" "length (encode v) \<le> 2048" "peak None False v \<le> 128"
  shows "\<exists>d. wn_doc_parse (Some (encode v)) = Some d \<and> denotes d 0 v"
proof (intro exI conjI)
  show "wn_doc_parse (Some (encode v)) = Some (doc_of None WN_TOKENS v)"
    using assms by (simp add: wn_doc_parse_def wn_doc_parse_bounded_def parse_iff WN_CONTROL_MAX_def WN_TOKENS_def)
      blast
  show "denotes (doc_of None WN_TOKENS v) 0 v"
    by (rule denotes_doc_of [OF assms(1)]) (use assms(2,3) in \<open>simp_all add: WN_TOKENS_def\<close>)
qed

text \<open>C24: On a token that describes a value every query answers and answers for that value: text,
  bytes and unsigned integers are returned exactly for their types, a member of a map is found exactly
  when a key has that (short) name and then describes its value, and the check of the fields of a map
  holds exactly when every key is among the allowed ones. None of the walks over a map loops or leaves
  the table.\<close>

theorem wn_doc_queries:
  assumes "denotes d i v"
  shows "wn_doc_text d (int i) = (case v of CText t \<Rightarrow> Some t | _ \<Rightarrow> None) \<and>
    wn_doc_bytes d (int i) = (case v of CBytes b \<Rightarrow> Some b | _ \<Rightarrow> None) \<and>
    wn_doc_u64 d (int i) = (case v of CUint n \<Rightarrow> Some n | _ \<Rightarrow> None) \<and>
    (\<forall>s. wn_doc_equal d (int i) s \<longleftrightarrow> v = CText s) \<and>
    (\<forall>key. case v of
        CMap kvs \<Rightarrow> (case map_of kvs (wn_key_name key) of
            None \<Rightarrow> wn_doc_member d i key = Some (- 1)
          | Some w \<Rightarrow> \<exists>j. wn_doc_member d i key = Some (int j) \<and> denotes d j w)
      | _ \<Rightarrow> wn_doc_member d i key = Some (- 1)) \<and>
    (\<forall>allowed. wn_doc_fields d i allowed =
      Some (case v of CMap kvs \<Rightarrow> fst ` set kvs \<subseteq> wn_key_name ` set allowed | _ \<Rightarrow> False))"
  using assms
  by (simp only: wn_doc_text_denotes wn_doc_bytes_denotes wn_doc_u64_denotes wn_doc_equal_denotes
      wn_doc_member_denotes wn_doc_fields_denotes simp_thms)

text \<open>C25: A caller that passes each cursor on visits the elements of an array of a document that was
  read, in order and each as a document that describes it, up to the first that needs more tokens than
  a document of its own has (128); there, and only there, the call returns -1. When every element fits,
  the caller is told the end: the walk takes one call more than there are elements.\<close>

theorem array_elements:
  assumes "denotes d i (CArray vs)" "admitted l (CArray vs)" "l \<le> 17"
  shows "\<exists>children. array_walk (Suc (length vs)) d (int i) 0 =
      (children, if list_all (\<lambda>v. peak None False v \<le> 128) vs then 0 else - 1) \<and>
    list_all2 (\<lambda>c v. denotes c 0 v) children (takeWhile (\<lambda>v. peak None False v \<le> 128) vs)"
proof (rule denotes_token [OF assms(1)])
  fix at nxt
  let ?t = "cbor_token (CArray vs) at nxt"
  assume t: "wn_doc_token d (int i) = Some ?t" "at_bytes d at (encode (CArray vs))"
  have wf: "doc_wf d" using assms(1) by (simp add: denotes_def)
  obtain k where "l = Suc k" using assms(2) by (cases l) auto
  then have adm: "\<forall>v \<in> set vs. admitted 17 v"
    using assms(2,3) by (auto simp: list_all_iff intro: admitted_mono)
  let ?h = "head_bytes 4 (of_nat (length vs))"
  have start: "tk_start ?t + tk_header ?t = at + length ?h" "tk_end ?t = at + length ?h + length (concat (map encode vs))"
    by (simp_all add: cbor_token_def)
  have pos: "0 < at + length ?h" by (simp add: length_head_bytes)
  have "\<exists>children. array_walk (Suc (length vs)) d (int i) (at + length ?h) =
        (children, if list_all fits_alone vs then 0 else - 1) \<and>
      list_all2 (\<lambda>c v. denotes c 0 v) children (takeWhile fits_alone vs)"
    by (rule array_walk_from [OF wf t(1)])
      (use t(2) adm start pos in \<open>simp_all add: at_bytes_append\<close>, simp add: at_bytes_def)
  then show ?thesis using array_walk_start [OF _ t(1)] start(1) pos by (simp add: WN_TOKENS_def)
qed

section \<open>An example frame\<close>

definition example_value :: cbor where
  "example_value = CMap [(ascii ''k'', CText (ascii ''hi'')), (ascii ''R'', CUint 300),
     (ascii ''c'', CArray [CUint 1, CBytes [1, 2]])]"

lemma example_admitted: "admitted (Suc (Suc (Suc l))) example_value"
  by (simp add: example_value_def utf8.simps ascii_def)

lemma example_value_ok:
  "admitted 17 example_value" "length (encode example_value) \<le> 2048" "peak None False example_value \<le> 128"
  using example_admitted [of 14]
  by (simp, simp_all add: example_value_def length_head_bytes argument_bytes_def ascii_def)

lemma example_denotes: "denotes (doc_of None 128 example_value) 0 example_value"
  by (rule denotes_doc_of [OF example_value_ok(1)]) (use example_value_ok(2,3) in simp_all)

theorem doc_round_trip_witness:
  "(\<exists>d. wn_doc_parse (Some (encode example_value)) = Some d \<and> denotes d 0 example_value) \<and>
   encode example_value = [0xa3, 0x61, 0x6b, 0x62, 0x68, 0x69, 0x61, 0x52, 0x19, 0x01, 0x2c, 0x61, 0x63, 0x82, 0x01, 0x42, 1, 2]"
proof
  show "\<exists>d. wn_doc_parse (Some (encode example_value)) = Some d \<and> denotes d 0 example_value"
    by (rule doc_round_trip [OF example_value_ok])
qed code_simp

theorem wn_doc_queries_witness:
  "(\<exists>j. wn_doc_member (doc_of None 128 example_value) 0 (ascii ''revision'') = Some (int j) \<and>
      denotes (doc_of None 128 example_value) j (CUint 300)) \<and>
   wn_doc_member (doc_of None 128 example_value) 0 (ascii ''missing'') = Some (- 1) \<and>
   wn_doc_text (doc_of None 128 example_value) 0 = None"
proof -
  have names: "wn_key_name (ascii ''revision'') = ascii ''R''" "wn_key_name (ascii ''missing'') = ascii ''m''"
    "ascii ''k'' \<noteq> ascii ''R''" "ascii ''k'' \<noteq> ascii ''m''" "ascii ''R'' \<noteq> ascii ''m''" "ascii ''c'' \<noteq> ascii ''m''"
    by code_simp+
  note q = wn_doc_queries [OF example_denotes]
  note m = q [THEN conjunct2, THEN conjunct2, THEN conjunct2, THEN conjunct2, THEN conjunct1, THEN spec]
  from m [of "ascii ''revision''"] m [of "ascii ''missing''"] q [THEN conjunct1] names show ?thesis
    by (simp add: example_value_def)
qed

theorem array_elements_witness:
  "\<exists>j children. wn_doc_member (doc_of None 128 example_value) 0 (ascii ''caps'') = Some (int j) \<and>
     array_walk 3 (doc_of None 128 example_value) (int j) 0 = (children, 0) \<and>
     list_all2 (\<lambda>c v. denotes c 0 v) children [CUint 1, CBytes [1, 2]]"
proof -
  let ?d = "doc_of None 128 example_value" and ?vs = "[CUint 1, CBytes [1, 2]]"
  have names: "wn_key_name (ascii ''caps'') = ascii ''c''" "ascii ''k'' \<noteq> ascii ''c''" "ascii ''R'' \<noteq> ascii ''c''"
    by code_simp+
  from wn_doc_member_denotes [OF example_denotes, of "ascii ''caps''"] names
  obtain j where j: "wn_doc_member ?d 0 (ascii ''caps'') = Some (int j)" "denotes ?d j (CArray ?vs)"
    by (auto simp: example_value_def)
  have "admitted (Suc (Suc l)) (CArray ?vs)" for l by simp
  from array_elements [OF j(2) this [of 0]] j(1) show ?thesis
    by (simp add: numeral_3_eq_3 del: array_walk.simps)
qed

end
