(* ===== verification/Packet_Queue.thy ===== *)
theory Packet_Queue
  imports Fifo_Interface "HOL-Library.AList"
begin

text \<open>
  The packet queue of \<open>components/wendy_net_peer/src/packet_queue.c\<close>: a singly linked list with head
  and tail pointers in an explicit heap. The heap holds the blocks the queue's allocator has handed
  out and not got back; an access to a block that is not in it (a dangling pointer) is
  \<^const>\<open>None\<close>, and so is releasing one twice. The allocator is the one the queue was initialised
  with, a field of the structure as in the code: it may refuse, and when it does not it returns an
  address that is not in use (\<open>fresh_allocator\<close>). It answers for the blocks in use and the size; a
  refused push changes nothing, so when a later one is served does not matter to the queue. The queue's
  release function gives a block back.
\<close>

definition WN_MTU :: nat where "WN_MTU = 1320"

section \<open>The list in the heap\<close>

record wnpq_packet =
  pk_next :: "nat option"
  pk_size :: nat
  pk_bytes :: bytes

type_synonym packet_heap = "(nat \<times> wnpq_packet) list"

type_synonym packet_allocator = "packet_heap \<Rightarrow> nat \<Rightarrow> nat option"

record wnpq =
  pq_head :: "nat option"
  pq_tail :: "nat option"
  pq_count :: nat
  pq_limit :: nat
  pq_allocate :: packet_allocator
  pq_heap :: packet_heap

text \<open>A null allocator is replaced by \<open>wendy_net_malloc\<close>, a parameter here.\<close>

definition wnpq_init :: "packet_allocator \<Rightarrow> nat \<Rightarrow> packet_allocator option \<Rightarrow> wnpq" where
  "wnpq_init wendy_net_malloc limit allocate =
     \<lparr>pq_head = None, pq_tail = None, pq_count = 0, pq_limit = limit,
      pq_allocate = (case allocate of None \<Rightarrow> wendy_net_malloc | Some f \<Rightarrow> f), pq_heap = []\<rparr>"

text \<open>\<open>sizeof *p + size\<close>: on the 32-bit target the header is a pointer and a \<open>size_t\<close> of four bytes
  each.\<close>

definition packet_block :: "nat \<Rightarrow> nat" where
  "packet_block n = 8 + n"

datatype push_result = Push_Invalid | Push_Full | Push_Done

text \<open>The new block at \<open>p\<close> is filled and linked behind the tail.\<close>

definition link_packet :: "wnpq \<Rightarrow> nat \<Rightarrow> bytes \<Rightarrow> wnpq option" where
  "link_packet q p bs =
     (let heap = AList.update p \<lparr>pk_next = None, pk_size = length bs, pk_bytes = bs\<rparr> (pq_heap q)
      in case pq_tail q of
           None \<Rightarrow> Some (q\<lparr>pq_heap := heap, pq_head := Some p, pq_tail := Some p, pq_count := pq_count q + 1\<rparr>)
         | Some t \<Rightarrow>
             (case map_of heap t of
                None \<Rightarrow> None
              | Some lst \<Rightarrow> Some (q\<lparr>pq_heap := AList.update t (lst\<lparr>pk_next := Some p\<rparr>) heap,
                  pq_tail := Some p, pq_count := pq_count q + 1\<rparr>)))"

text \<open>\<open>bytes\<close> is the caller's buffer, \<^const>\<open>None\<close> for a null pointer; its length is \<open>size\<close>.\<close>

definition wnpq_push :: "wnpq \<Rightarrow> bytes option \<Rightarrow> (push_result \<times> wnpq) option" where
  "wnpq_push q bytes =
     (case bytes of
        None \<Rightarrow> Some (Push_Invalid, q)
      | Some bs \<Rightarrow>
          if length bs < 40 \<or> WN_MTU < length bs then Some (Push_Invalid, q)
          else if pq_limit q \<le> pq_count q then Some (Push_Full, q)
          else case pq_allocate q (pq_heap q) (packet_block (length bs)) of
            None \<Rightarrow> Some (Push_Full, q)
          | Some p \<Rightarrow> map_option (Pair Push_Done) (link_packet q p bs))"

text \<open>The bytes of the head and their number; no packet is \<open>Some None\<close>.\<close>

definition wnpq_front :: "wnpq \<Rightarrow> (nat \<times> bytes) option option" where
  "wnpq_front q =
     (case pq_head q of
        None \<Rightarrow> Some None
      | Some p \<Rightarrow> map_option (\<lambda>pk. Some (pk_size pk, pk_bytes pk)) (map_of (pq_heap q) p))"

definition wnpq_drop :: "wnpq \<Rightarrow> wnpq option" where
  "wnpq_drop q =
     (case pq_head q of
        None \<Rightarrow> Some q
      | Some p \<Rightarrow>
          (case map_of (pq_heap q) p of
             None \<Rightarrow> None
           | Some pk \<Rightarrow> Some (q\<lparr>pq_head := pk_next pk,
               pq_tail := (if pk_next pk = None then None else pq_tail q),
               pq_count := pq_count q - 1,
               pq_heap := AList.delete p (pq_heap q)\<rparr>)))"

definition wnpq_pop :: "wnpq \<Rightarrow> (bytes option \<times> wnpq) option" where
  "wnpq_pop q =
     (case wnpq_front q of
        None \<Rightarrow> None
      | Some None \<Rightarrow> Some (None, q)
      | Some (Some (n, bs)) \<Rightarrow> map_option (\<lambda>q'. (Some (take n bs), q')) (wnpq_drop q))"

text \<open>The loop of \<open>wnpq_reset\<close>: each round releases a block, so it ends with the heap.\<close>

function wnpq_release_all :: "packet_heap \<Rightarrow> nat option \<Rightarrow> packet_heap option" where
  "wnpq_release_all heap head =
     (case head of
        None \<Rightarrow> Some heap
      | Some p \<Rightarrow>
          (case map_of heap p of
             None \<Rightarrow> None
           | Some pk \<Rightarrow> wnpq_release_all (AList.delete p heap) (pk_next pk)))"
  by pat_completeness auto
termination
  by (relation "measure (\<lambda>(heap, _). card (dom (map_of heap)))")
    (auto simp: AList.delete_conv' finite_dom_map_of intro!: psubset_card_mono)

declare wnpq_release_all.simps [simp del]

definition wnpq_reset :: "wnpq \<Rightarrow> wnpq option" where
  "wnpq_reset q =
     map_option (\<lambda>heap. q\<lparr>pq_heap := heap, pq_head := None, pq_tail := None, pq_count := 0\<rparr>)
       (wnpq_release_all (pq_heap q) (pq_head q))"

section \<open>The queue a heap holds\<close>

text \<open>\<open>chain heap p nodes\<close>: the list from \<open>p\<close> has these addresses and packets.\<close>

fun chain :: "packet_heap \<Rightarrow> nat option \<Rightarrow> (nat \<times> bytes) list \<Rightarrow> bool" where
  "chain heap p [] \<longleftrightarrow> p = None"
| "chain heap p ((a, bs) # nodes) \<longleftrightarrow> p = Some a \<and>
     (case map_of heap a of
        None \<Rightarrow> False
      | Some pk \<Rightarrow> pk_bytes pk = bs \<and> pk_size pk = length bs \<and> chain heap (pk_next pk) nodes)"

definition queue_nodes :: "wnpq \<Rightarrow> (nat \<times> bytes) list \<Rightarrow> bool" where
  "queue_nodes q nodes \<longleftrightarrow> chain (pq_heap q) (pq_head q) nodes \<and> distinct (map fst nodes) \<and>
     pq_tail q = (if nodes = [] then None else Some (fst (last nodes))) \<and>
     pq_count q = length nodes \<and> pq_count q \<le> pq_limit q \<and>
     dom (map_of (pq_heap q)) = fst ` set nodes \<and>
     (\<forall>bs \<in> snd ` set nodes. 40 \<le> length bs \<and> length bs \<le> WN_MTU)"

definition fresh_allocator :: "packet_allocator \<Rightarrow> bool" where
  "fresh_allocator allocate \<longleftrightarrow> (\<forall>heap n p. allocate heap n = Some p \<longrightarrow> map_of heap p = None)"

definition queue_rep :: "wnpq \<Rightarrow> bytes list \<Rightarrow> bool" where
  "queue_rep q packets \<longleftrightarrow> fresh_allocator (pq_allocate q) \<and>
     (\<exists>nodes. queue_nodes q nodes \<and> packets = map snd nodes)"

lemma chain_cong:
  "chain heap p nodes \<Longrightarrow> (\<And>a. a \<in> fst ` set nodes \<Longrightarrow> map_of heap' a = map_of heap a) \<Longrightarrow>
     chain heap' p nodes"
  by (induction heap p nodes rule: chain.induct) (auto split: option.splits)

lemma chain_append:
  assumes "chain heap p nodes" "distinct (map fst nodes)" "new \<notin> fst ` set nodes"
    and "nodes \<noteq> []" "map_of heap (fst (last nodes)) = Some lst"
    and "map_of heap' (fst (last nodes)) = Some (lst\<lparr>pk_next := Some new\<rparr>)"
    and "map_of heap' new = Some \<lparr>pk_next = None, pk_size = length bs, pk_bytes = bs\<rparr>"
    and "\<And>a. a \<in> fst ` set (butlast nodes) \<Longrightarrow> map_of heap' a = map_of heap a"
  shows "chain heap' p (nodes @ [(new, bs)])"
  using assms
proof (induction heap p nodes rule: chain.induct)
  case (2 heap p a bs' nodes)
  show ?case
  proof (cases nodes)
    case Nil
    with 2(2-) show ?thesis by (auto split: option.splits)
  next
    case (Cons n ns)
    with 2 show ?thesis by (auto split: option.splits)
  qed
qed simp

section \<open>The operations on the queue\<close>

definition packet_ok :: "bytes \<Rightarrow> bool" where
  "packet_ok bs \<longleftrightarrow> 40 \<le> length bs \<and> length bs \<le> WN_MTU"

lemma queue_append:
  assumes "queue_nodes q nodes" "pq_count q < pq_limit q" "map_of (pq_heap q) p = None" "packet_ok bs"
  obtains q' where "link_packet q p bs = Some q'"
    "queue_nodes q' (nodes @ [(p, bs)])" "pq_limit q' = pq_limit q" "pq_allocate q' = pq_allocate q"
proof (cases "nodes = []")
  case True
  with assms that show ?thesis
    by (simp add: link_packet_def queue_nodes_def AList.update_conv' packet_ok_def)
next
  case False
  let ?t = "fst (last nodes)"
  let ?heap = "AList.update p \<lparr>pk_next = None, pk_size = length bs, pk_bytes = bs\<rparr> (pq_heap q)"
  have dom: "dom (map_of (pq_heap q)) = fst ` set nodes" and tail: "pq_tail q = Some ?t"
    using assms(1) False by (auto simp: queue_nodes_def)
  have t: "?t \<in> fst ` set nodes" using False by simp
  with dom obtain lst where lst: "map_of (pq_heap q) ?t = Some lst" by blast
  have new: "p \<notin> fst ` set nodes" using dom assms(3) by auto
  then have pt: "p \<noteq> ?t" using t by auto
  let ?heap' = "AList.update ?t (lst\<lparr>pk_next := Some p\<rparr>) ?heap"
  have "distinct (map fst (butlast nodes @ [last nodes]))"
    using assms(1) False by (simp add: queue_nodes_def)
  then have lst_notin: "?t \<notin> fst ` set (butlast nodes)" by simp
  have frame: "map_of ?heap' a = map_of (pq_heap q) a" if "a \<in> fst ` set (butlast nodes)" for a
  proof -
    have "a \<noteq> ?t" using that lst_notin by metis
    moreover have "a \<noteq> p" using that new by (auto dest: in_set_butlastD)
    ultimately show ?thesis by (simp add: AList.update_conv')
  qed
  have "chain ?heap' (pq_head q) (nodes @ [(p, bs)])"
    by (rule chain_append [OF _ _ new False lst _ _ frame])
      (use assms(1) pt in \<open>simp_all add: queue_nodes_def AList.update_conv'\<close>)
  then have "queue_nodes (q\<lparr>pq_heap := ?heap', pq_tail := Some p, pq_count := pq_count q + 1\<rparr>) (nodes @ [(p, bs)])"
    using assms new t dom by (auto simp: queue_nodes_def AList.update_conv' packet_ok_def)
  with tail lst pt that show ?thesis by (simp add: link_packet_def AList.update_conv')
qed

lemma push_spec:
  assumes "queue_rep q xs" "packet_ok bs"
  shows "(wnpq_push q (Some bs) = Some (Push_Full, q) \<and>
      (pq_limit q \<le> length xs \<or> pq_allocate q (pq_heap q) (packet_block (length bs)) = None)) \<or>
    (\<exists>q'. wnpq_push q (Some bs) = Some (Push_Done, q') \<and> queue_rep q' (xs @ [bs]) \<and>
      pq_limit q' = pq_limit q \<and> pq_allocate q' = pq_allocate q)"
proof -
  from assms(1) obtain nodes where nodes: "queue_nodes q nodes" "xs = map snd nodes"
    and fresh: "fresh_allocator (pq_allocate q)" by (auto simp: queue_rep_def)
  have cnt: "pq_count q = length xs" using nodes by (simp add: queue_nodes_def)
  have size: "\<not> (length bs < 40 \<or> WN_MTU < length bs)" using assms(2) by (auto simp: packet_ok_def)
  show ?thesis
  proof (cases "pq_limit q \<le> pq_count q \<or> pq_allocate q (pq_heap q) (packet_block (length bs)) = None")
    case True
    with size cnt show ?thesis by (auto simp: wnpq_push_def)
  next
    case False
    then obtain p where p: "pq_allocate q (pq_heap q) (packet_block (length bs)) = Some p" by auto
    then have free: "map_of (pq_heap q) p = None" using fresh by (simp add: fresh_allocator_def)
    have room: "pq_count q < pq_limit q" using False by simp
    obtain q' where q': "link_packet q p bs = Some q'" "queue_nodes q' (nodes @ [(p, bs)])"
      "pq_limit q' = pq_limit q" "pq_allocate q' = pq_allocate q"
      by (rule queue_append [OF nodes(1) room free assms(2)])
    then have "queue_rep q' (xs @ [bs])"
      using fresh nodes(2) by (auto simp: queue_rep_def intro!: exI [of _ "nodes @ [(p, bs)]"])
    with q' p size room show ?thesis by (simp add: wnpq_push_def)
  qed
qed

lemma push_invalid:
  assumes "case bytes of None \<Rightarrow> True | Some bs \<Rightarrow> \<not> packet_ok bs"
  shows "wnpq_push q bytes = Some (Push_Invalid, q)"
  using assms by (auto simp: wnpq_push_def packet_ok_def split: option.splits)

lemma drop_nodes:
  assumes "queue_nodes q ((a, bs) # nodes)"
  obtains q' where "wnpq_front q = Some (Some (length bs, bs))" "wnpq_drop q = Some q'" "queue_nodes q' nodes"
    "pq_limit q' = pq_limit q" "pq_allocate q' = pq_allocate q" "map_of (pq_heap q') a = None"
proof -
  from assms obtain pk where pk: "pq_head q = Some a" "map_of (pq_heap q) a = Some pk" "pk_bytes pk = bs"
    "pk_size pk = length bs" "chain (pq_heap q) (pk_next pk) nodes"
    by (auto simp: queue_nodes_def split: option.splits)
  have front: "wnpq_front q = Some (Some (length bs, bs))" using pk by (simp add: wnpq_front_def)
  let ?q = "q\<lparr>pq_head := pk_next pk, pq_tail := (if pk_next pk = None then None else pq_tail q),
     pq_count := pq_count q - 1, pq_heap := AList.delete a (pq_heap q)\<rparr>"
  have a: "a \<notin> fst ` set nodes" using assms by (simp add: queue_nodes_def)
  have "chain (AList.delete a (pq_heap q)) (pk_next pk) nodes"
    by (rule chain_cong [OF pk(5)]) (use a in \<open>auto simp: AList.delete_conv'\<close>)
  moreover have "pk_next pk = None \<longleftrightarrow> nodes = []" using pk(5) by (cases nodes) auto
  ultimately have "queue_nodes ?q nodes"
    using assms a by (auto simp: queue_nodes_def AList.delete_conv')
  moreover have "wnpq_drop q = Some ?q" using pk by (simp add: wnpq_drop_def)
  ultimately show thesis using front by (intro that [of ?q]) (simp_all add: AList.delete_conv')
qed

lemma pop_spec:
  assumes "queue_rep q xs"
  shows "\<exists>q'. wnpq_pop q = Some (case xs of [] \<Rightarrow> None | x # _ \<Rightarrow> Some x, q') \<and> queue_rep q' (tl xs) \<and>
    pq_limit q' = pq_limit q \<and> pq_allocate q' = pq_allocate q"
proof -
  from assms obtain nodes where nodes: "queue_nodes q nodes" "xs = map snd nodes"
    and fresh: "fresh_allocator (pq_allocate q)" by (auto simp: queue_rep_def)
  show ?thesis
  proof (cases nodes)
    case Nil
    with nodes assms show ?thesis
      by (intro exI [of _ q]) (auto simp: wnpq_pop_def wnpq_front_def queue_nodes_def)
  next
    case (Cons n rest)
    obtain a bs where n: "n = (a, bs)" by (cases n)
    obtain q' where q': "wnpq_front q = Some (Some (length bs, bs))" "wnpq_drop q = Some q'" "queue_nodes q' rest"
      "pq_limit q' = pq_limit q" "pq_allocate q' = pq_allocate q"
      by (rule drop_nodes [OF nodes(1) [unfolded Cons n]])
    with fresh Cons n nodes(2) show ?thesis
      by (intro exI [of _ q']) (auto simp: wnpq_pop_def queue_rep_def)
  qed
qed

lemma release_all_chain:
  "chain heap head nodes \<Longrightarrow> distinct (map fst nodes) \<Longrightarrow> dom (map_of heap) = fst ` set nodes \<Longrightarrow>
     wnpq_release_all heap head = Some []"
proof (induction nodes arbitrary: heap head)
  case Nil
  then have "fst ` set heap = {}" by (simp add: dom_map_of_conv_image_fst del: dom_eq_empty_conv)
  then have "heap = []" by simp
  with Nil show ?case by (simp add: wnpq_release_all.simps)
next
  case (Cons n nodes)
  obtain a bs where n: "n = (a, bs)" by (cases n)
  with Cons.prems obtain pk where pk: "head = Some a" "map_of heap a = Some pk" "chain heap (pk_next pk) nodes"
    by (auto split: option.splits)
  have a: "a \<notin> fst ` set nodes" using Cons.prems(2) n by simp
  have "wnpq_release_all (AList.delete a heap) (pk_next pk) = Some []"
  proof (rule Cons.IH)
    show "chain (AList.delete a heap) (pk_next pk) nodes"
      by (rule chain_cong [OF pk(3)]) (use a in \<open>auto simp: AList.delete_conv'\<close>)
    show "dom (map_of (AList.delete a heap)) = fst ` set nodes"
      using Cons.prems(3) a n by (auto simp: AList.delete_conv')
  qed (use Cons.prems(2) in simp)
  with pk show ?case by (subst wnpq_release_all.simps) simp
qed

lemma reset_spec:
  assumes "queue_rep q xs"
  shows "\<exists>q'. wnpq_reset q = Some q' \<and> pq_heap q' = [] \<and> queue_rep q' []"
proof -
  from assms obtain nodes where nodes: "queue_nodes q nodes" by (auto simp: queue_rep_def)
  then have "wnpq_release_all (pq_heap q) (pq_head q) = Some []"
    by (intro release_all_chain [of _ _ nodes]) (simp_all add: queue_nodes_def)
  with assms show ?thesis by (auto simp: wnpq_reset_def queue_rep_def queue_nodes_def)
qed

section \<open>The queue as a bounded FIFO\<close>

text \<open>A client offers the first packet of what it has, and takes one at a time.\<close>

definition offer_packet :: "wnpq \<Rightarrow> bytes list \<Rightarrow> (nat \<times> wnpq) option" where
  "offer_packet q ps =
     (case ps of
        [] \<Rightarrow> Some (0, q)
      | p # _ \<Rightarrow> map_option (\<lambda>(r, q'). (if r = Push_Done then 1 else 0, q')) (wnpq_push q (Some p)))"

definition take_packet :: "wnpq \<Rightarrow> nat \<Rightarrow> (bytes list \<times> wnpq) option" where
  "take_packet q n =
     (if n = 0 then Some ([], q)
      else map_option (\<lambda>(p, q'). (case p of None \<Rightarrow> [] | Some bs \<Rightarrow> [bs], q')) (wnpq_pop q))"

lemma queue_rep_limit: "queue_rep q xs \<Longrightarrow> length xs \<le> pq_limit q"
  by (auto simp: queue_rep_def queue_nodes_def)

interpretation packet_fifo: bounded_fifo queue_rep pq_limit "\<lambda>_. True" offer_packet take_packet
proof unfold_locales
  fix q :: wnpq and xs assume "queue_rep q xs"
  then show "length xs \<le> pq_limit q" by (rule queue_rep_limit)
next
  fix q :: wnpq and xs ys assume rep: "queue_rep q xs"
  show "\<exists>n q'. offer_packet q ys = Some (n, q') \<and> n \<le> length ys \<and> queue_rep q' (xs @ take n ys) \<and>
      pq_limit q' = pq_limit q"
  proof (cases ys)
    case Nil
    with rep show ?thesis by (simp add: offer_packet_def)
  next
    case (Cons p ps)
    show ?thesis
    proof (cases "packet_ok p")
      case True
      from push_spec [OF rep this] show ?thesis
      proof
        assume "wnpq_push q (Some p) = Some (Push_Full, q) \<and>
          (pq_limit q \<le> length xs \<or> pq_allocate q (pq_heap q) (packet_block (length p)) = None)"
        with rep Cons show ?thesis
          by (intro exI [of _ 0] exI [of _ q]) (simp add: offer_packet_def)
      next
        assume "\<exists>q'. wnpq_push q (Some p) = Some (Push_Done, q') \<and> queue_rep q' (xs @ [p]) \<and>
          pq_limit q' = pq_limit q \<and> pq_allocate q' = pq_allocate q"
        then obtain q' where "wnpq_push q (Some p) = Some (Push_Done, q')" "queue_rep q' (xs @ [p])"
          "pq_limit q' = pq_limit q" by blast
        with Cons show ?thesis by (intro exI [of _ 1] exI [of _ q']) (simp add: offer_packet_def)
      qed
    next
      case False
      with rep Cons show ?thesis
        by (intro exI [of _ 0] exI [of _ q]) (simp add: offer_packet_def push_invalid)
    qed
  qed
next
  fix q :: wnpq and xs k assume rep: "queue_rep q xs"
  show "\<exists>n q'. take_packet q k = Some (take n xs, q') \<and> n \<le> k \<and> queue_rep q' (drop n xs) \<and>
      pq_limit q' = pq_limit q"
  proof (cases "k = 0")
    case True
    with rep show ?thesis by (intro exI [of _ 0] exI [of _ q]) (simp add: take_packet_def)
  next
    case False
    from pop_spec [OF rep] obtain q' where "wnpq_pop q = Some (case xs of [] \<Rightarrow> None | x # _ \<Rightarrow> Some x, q')"
      "queue_rep q' (tl xs)" "pq_limit q' = pq_limit q" by blast
    with False show ?thesis
      by (intro exI [of _ 1] exI [of _ q']) (cases xs; simp add: take_packet_def)
  qed
qed

lemma init_queue_rep: "fresh_allocator allocate \<Longrightarrow> queue_rep (wnpq_init malloc limit (Some allocate)) []"
  by (simp add: queue_rep_def queue_nodes_def wnpq_init_def)

lemma queue_rep_counts:
  assumes "queue_rep q xs"
  shows "pq_count q = length xs" "card (dom (map_of (pq_heap q))) = length xs" "\<forall>x\<in>set xs. packet_ok x"
proof -
  from assms obtain nodes where nodes: "queue_nodes q nodes" "xs = map snd nodes" by (auto simp: queue_rep_def)
  then show "pq_count q = length xs" "\<forall>x\<in>set xs. packet_ok x" by (auto simp: queue_nodes_def packet_ok_def)
  have "card (fst ` set nodes) = length nodes"
    using nodes(1) distinct_card [of "map fst nodes"] by (simp add: queue_nodes_def)
  with nodes show "card (dom (map_of (pq_heap q))) = length xs" by (simp add: queue_nodes_def)
qed

section \<open>Properties\<close>

text \<open>C28: Whatever pushes and pops a client makes on a fresh queue, and however often the allocator
  refuses, no dangling packet is touched and the queue is a FIFO: the packets accepted are the ones
  delivered followed by the ones queued, never more than the limit and each between 40 and 1320 bytes.
  The blocks in use are exactly the queued packets, and a reset gives all of them back.\<close>

theorem wnpq_fifo:
  assumes "fresh_allocator allocate"
  shows "\<exists>accepted delivered q' queued q''.
    fifo_run offer_packet take_packet (wnpq_init malloc limit (Some allocate)) calls =
      Some (accepted, delivered, q') \<and>
    accepted = delivered @ queued \<and> length queued \<le> limit \<and> pq_count q' = length queued \<and>
    (\<forall>p\<in>set queued. 40 \<le> length p \<and> length p \<le> 1320) \<and>
    card (dom (map_of (pq_heap q'))) = length queued \<and>
    wnpq_reset q' = Some q'' \<and> pq_heap q'' = [] \<and> pq_count q'' = 0"
proof -
  let ?q = "wnpq_init malloc limit (Some allocate)"
  obtain accepted delivered q' queued
    where run: "fifo_run offer_packet take_packet ?q calls = Some (accepted, delivered, q')"
      and rep: "queue_rep q' queued" and fifo: "[] @ accepted = delivered @ queued"
      and len: "length queued \<le> pq_limit ?q"
    by (rule packet_fifo.run_stream [OF init_queue_rep [OF assms], of calls]) simp
  from reset_spec [OF rep] obtain q'' where q'': "wnpq_reset q' = Some q''" "pq_heap q'' = []" "queue_rep q'' []"
    by blast
  from queue_rep_counts [OF rep] queue_rep_counts(1) [OF q''(3)] run fifo len q'' show ?thesis
    by (auto simp: wnpq_init_def packet_ok_def WN_MTU_def)
qed

text \<open>The smallest unused address, as long as the heap holds fewer than three blocks.\<close>

definition three_blocks :: packet_allocator where
  "three_blocks heap n = (if 3 \<le> length heap then None else Some (Suc (foldr (\<lambda>b m. max (fst b) m) heap 0)))"

lemma below_foldr_max: "map_of heap a \<noteq> None \<Longrightarrow> a \<le> foldr (\<lambda>b m. max (fst b) m) heap (0 :: nat)"
  by (induction heap) (auto split: if_splits)

lemma three_blocks_fresh: "fresh_allocator three_blocks"
  using below_foldr_max [of _ "Suc _"] by (fastforce simp: fresh_allocator_def three_blocks_def split: if_splits)

theorem wnpq_fifo_witness:
  "(\<exists>accepted delivered q' queued.
      fifo_run offer_packet take_packet (wnpq_init three_blocks 2 (Some three_blocks))
        [Offer [replicate 40 1], Offer [replicate 41 2], Offer [replicate 42 3], Take 1, Offer [replicate 39 4], Offer [replicate 43 5]] =
        Some (accepted, delivered, q') \<and> accepted = delivered @ queued \<and> length queued \<le> 2) \<and>
   map_option (\<lambda>(accepted, delivered, q'). (map length accepted, map length delivered, pq_count q'))
      (fifo_run offer_packet take_packet (wnpq_init three_blocks 2 (Some three_blocks))
        [Offer [replicate 40 1], Offer [replicate 41 2], Offer [replicate 42 3], Take 1, Offer [replicate 39 4], Offer [replicate 43 5]]) =
     Some ([40, 41, 43], [40], 2)"
proof
  show "\<exists>accepted delivered q' queued.
      fifo_run offer_packet take_packet (wnpq_init three_blocks 2 (Some three_blocks))
        [Offer [replicate 40 1], Offer [replicate 41 2], Offer [replicate 42 3], Take 1, Offer [replicate 39 4], Offer [replicate 43 5]] =
        Some (accepted, delivered, q') \<and> accepted = delivered @ queued \<and> length queued \<le> 2"
    using wnpq_fifo [OF three_blocks_fresh] by blast
qed code_simp

text \<open>C29: A push reports what happened and changes the queue only when it succeeds: an absent or
  wrongly sized packet is invalid, a full queue or a refused allocation is backpressure, and in every
  other case the packet is queued last.\<close>

theorem wnpq_push_result:
  assumes "queue_rep q xs"
  shows "(case bytes of None \<Rightarrow> True | Some bs \<Rightarrow> length bs < 40 \<or> 1320 < length bs) \<and>
      wnpq_push q bytes = Some (Push_Invalid, q) \<or>
    (\<exists>bs. bytes = Some bs \<and> 40 \<le> length bs \<and> length bs \<le> 1320 \<and>
      (if pq_limit q \<le> length xs \<or> pq_allocate q (pq_heap q) (packet_block (length bs)) = None
       then wnpq_push q bytes = Some (Push_Full, q)
       else \<exists>q'. wnpq_push q bytes = Some (Push_Done, q') \<and> queue_rep q' (xs @ [bs]) \<and> pq_limit q' = pq_limit q))"
proof (cases "case bytes of None \<Rightarrow> True | Some bs \<Rightarrow> \<not> packet_ok bs")
  case True
  from push_invalid [OF True, of q] True show ?thesis
    by (auto simp: packet_ok_def WN_MTU_def split: option.splits)
next
  case False
  then obtain bs where bs: "bytes = Some bs" "packet_ok bs" by (auto split: option.splits)
  have cnt: "pq_count q = length xs" by (rule queue_rep_counts(1) [OF assms])
  show ?thesis
    using push_spec [OF assms bs(2)] bs cnt
    by (auto simp: packet_ok_def WN_MTU_def wnpq_push_def split: option.splits)
qed

theorem wnpq_push_result_witness:
  "queue_rep (wnpq_init three_blocks 1 (Some three_blocks)) [] \<and>
   (\<exists>q'. wnpq_push (wnpq_init three_blocks 1 (Some three_blocks)) (Some (replicate 40 7)) = Some (Push_Done, q') \<and>
     queue_rep q' [replicate 40 7])"
proof
  show rep: "queue_rep (wnpq_init three_blocks 1 (Some three_blocks)) []"
    by (rule init_queue_rep [OF three_blocks_fresh])
  show "\<exists>q'. wnpq_push (wnpq_init three_blocks 1 (Some three_blocks)) (Some (replicate 40 7)) = Some (Push_Done, q') \<and>
     queue_rep q' [replicate 40 7]"
    using wnpq_push_result [OF rep, of "Some (replicate 40 7)"] by (auto simp: wnpq_init_def three_blocks_def)
qed

end
