(* ===== verification/Peer_Packet.thy ===== *)
theory Peer_Packet
  imports Packet_Queue
begin

text \<open>
  Fragmentation of IPv6 packets into carrier datagrams and their reassembly:
  \<open>components/wendy_net_peer/src/packet.c\<close> with the byte order helpers of \<open>src/protocol.c\<close>. A packet
  of at most 1320 bytes travels in at most two fragments, cut at 1091. A datagram is the list of its
  bytes (\<open>None\<close> for a null pointer) and times are microseconds.
\<close>

section \<open>Byte order\<close>

definition wn_get16 :: "bytes \<Rightarrow> u16" where
  "wn_get16 p = push_bit 8 (ucast (p ! 0)) OR ucast (p ! 1)"

definition wn_get32 :: "bytes \<Rightarrow> u32" where
  "wn_get32 p = push_bit 16 (ucast (wn_get16 p)) OR ucast (wn_get16 (drop 2 p))"

definition wn_put16 :: "u16 \<Rightarrow> bytes" where
  "wn_put16 v = [ucast (drop_bit 8 v), ucast v]"

definition wn_put32 :: "u32 \<Rightarrow> bytes" where
  "wn_put32 v = wn_put16 (ucast (drop_bit 16 v)) @ wn_put16 (ucast v)"

lemma length_wn_put16 [simp]: "length (wn_put16 v) = 2"
  by (simp add: wn_put16_def)

lemma length_wn_put32 [simp]: "length (wn_put32 v) = 4"
  by (simp add: wn_put32_def)

lemma wn_get16_put16 [simp]: "wn_get16 (wn_put16 v @ rest) = v"
  by (rule bit_word_eqI) (auto simp: wn_get16_def wn_put16_def bit_simps)

lemma wn_get32_put32 [simp]: "wn_get32 (wn_put32 v @ rest) = v"
  by (rule bit_word_eqI)
    (auto simp: wn_get32_def wn_put32_def bit_simps dest: bit_imp_le_length)

lemma wn_get16_put16_exact [simp]: "wn_get16 (wn_put16 v) = v"
  using wn_get16_put16 [of v "[]"] by simp

lemma wn_put16_get16: "length p = 2 \<Longrightarrow> wn_put16 (wn_get16 p) = p"
proof -
  assume "length p = 2"
  then obtain a b where p: "p = [a, b]" by (metis (no_types, opaque_lifting) Suc_1 Suc_length_conv length_0_conv One_nat_def)
  have "(ucast (drop_bit 8 (push_bit 8 (ucast a) OR ucast b :: u16)) :: u8) = a"
    "(ucast (push_bit 8 (ucast a) OR ucast b :: u16) :: u8) = b"
    by (rule bit_word_eqI, auto simp: bit_simps dest: bit_imp_le_length)+
  then show ?thesis by (simp add: p wn_put16_def wn_get16_def)
qed

section \<open>Fragments\<close>

definition WN_DATAGRAM_MAX :: nat where "WN_DATAGRAM_MAX = 1100"

text \<open>\<open>wn_fragment\<close> returns the datagram; the empty list is its result 0.\<close>

definition ip6_shape :: "bytes \<Rightarrow> bool" where
  "ip6_shape p \<longleftrightarrow> 40 \<le> length p \<and> length p \<le> WN_MTU \<and> drop_bit 4 (p ! 0) = 6 \<and>
     unat (wn_get16 (drop 4 p)) = length p - 40"

definition wn_fragment :: "bytes option \<Rightarrow> u32 \<Rightarrow> nat \<Rightarrow> bytes" where
  "wn_fragment packet ident offset =
     (case packet of
        None \<Rightarrow> []
      | Some p \<Rightarrow>
          if \<not> ip6_shape p \<or> (offset \<noteq> 0 \<and> offset \<noteq> 1091) \<or> length p \<le> offset then []
          else
            let cnt = length p - offset;
                cnt = (if 1091 < cnt then 1091 else cnt)
            in [1] @ wn_put32 ident @ wn_put16 (of_nat (length p)) @ wn_put16 (of_nat offset) @
               take cnt (drop offset p))"

section \<open>Reassembly\<close>

record wn_assembler =
  as_packet :: bytes
  as_id :: u32
  as_total :: nat
  as_received :: nat
  as_parts :: nat
  as_deadline :: int

definition zero_assembler :: wn_assembler where
  "zero_assembler = \<lparr>as_packet = zeros WN_MTU, as_id = 0, as_total = 0, as_received = 0, as_parts = 0, as_deadline = 0\<rparr>"

text \<open>
  The fields of a fragment. \<open>as_parts\<close> is the bit set of the parts present; \<open>as_received\<close> is a
  sixteen-bit counter.
\<close>

definition frag_id :: "bytes \<Rightarrow> u32" where "frag_id p = wn_get32 (drop 1 p)"
definition frag_total :: "bytes \<Rightarrow> nat" where "frag_total p = unat (wn_get16 (drop 5 p))"
definition frag_offset :: "bytes \<Rightarrow> nat" where "frag_offset p = unat (wn_get16 (drop 7 p))"

definition frag_valid :: "bytes \<Rightarrow> bool" where
  "frag_valid p \<longleftrightarrow>
     \<not> (frag_total p < 40 \<or> WN_MTU < frag_total p \<or> (frag_offset p \<noteq> 0 \<and> frag_offset p \<noteq> 1091) \<or>
        frag_total p \<le> frag_offset p \<or>
        length p - 9 \<noteq> (if frag_total p - frag_offset p < 1091 then frag_total p - frag_offset p else 1091))"

definition restart :: "wn_assembler \<Rightarrow> bytes \<Rightarrow> int \<Rightarrow> wn_assembler" where
  "restart s p now =
     (if as_parts s = 0 \<or> as_deadline s \<le> now \<or> as_id s \<noteq> frag_id p
      then zero_assembler\<lparr>as_id := frag_id p, as_total := frag_total p, as_deadline := now + 2000000\<rparr>
      else s)"

definition has_part :: "nat \<Rightarrow> nat \<Rightarrow> bool" where
  "has_part parts part \<longleftrightarrow> parts AND part \<noteq> 0"

definition add_part :: "wn_assembler \<Rightarrow> bytes \<Rightarrow> wn_assembler" where
  "add_part s p =
     s\<lparr>as_packet := memcpy_at (frag_offset p) (drop 9 p) (as_packet s),
       as_received := (as_received s + (length p - 9)) mod 65536,
       as_parts := as_parts s OR (if frag_offset p \<noteq> 0 then 2 else 1)\<rparr>"

definition wn_assemble :: "wn_assembler \<Rightarrow> bytes option \<Rightarrow> int \<Rightarrow> int \<times> wn_assembler" where
  "wn_assemble s datagram now =
     (case datagram of
        None \<Rightarrow> (- 1, s)
      | Some p \<Rightarrow>
          if p = [] \<or> WN_DATAGRAM_MAX < length p then (- 1, s)
          else if p ! 0 \<noteq> 1 then (0, s)
          else if length p < 10 then (- 1, s)
          else if \<not> frag_valid p then (- 1, s)
          else
            let s = restart s p now;
                part = (if frag_offset p \<noteq> 0 then 2 else 1)
            in if as_total s \<noteq> frag_total p \<or> has_part (as_parts s) part
               then (- 1, s\<lparr>as_parts := 0\<rparr>)
               else
                 let s = add_part s p
                 in if as_received s \<noteq> frag_total p then (0, s)
                    else
                      (if drop_bit 4 (as_packet s ! 0) = 6 \<and>
                          int (unat (wn_get16 (drop 4 (as_packet s)))) = int (frag_total p) - 40
                       then int (frag_total p) else - 1, s\<lparr>as_parts := 0\<rparr>))"

section \<open>What a fragment carries\<close>

lemma nth_memcpy_take: "off + length src \<le> length base \<Longrightarrow> take (length src) (drop off (memcpy_at off src base)) = src"
  by (simp add: memcpy_at_def)

lemma fragment_fields:
  fixes i :: u32
  assumes "ip6_shape p" "off = 0 \<or> off = 1091" "off < length p"
  defines "f \<equiv> wn_fragment (Some p) i off"
  shows "frag_id f = i" "frag_total f = length p" "frag_offset f = off"
    "drop 9 f = take 1091 (drop off p)" "f \<noteq> []" "f ! 0 = 1" "10 \<le> length f" "length f \<le> WN_DATAGRAM_MAX"
    "length f - 9 = min 1091 (length p - off)" "frag_valid f"
proof -
  let ?d = "take 1091 (drop off p)"
  have shape: "40 \<le> length p" "length p \<le> 1320" using assms(1) by (auto simp: ip6_shape_def WN_MTU_def)
  have f: "f = [1] @ wn_put32 i @ wn_put16 (of_nat (length p)) @ wn_put16 (of_nat off) @ ?d"
    using assms(1-3) by (auto simp: f_def wn_fragment_def Let_def)
  have d: "drop 1 f = wn_put32 i @ wn_put16 (of_nat (length p)) @ wn_put16 (of_nat off) @ ?d"
    "drop 5 f = wn_put16 (of_nat (length p)) @ wn_put16 (of_nat off) @ ?d"
    "drop 7 f = wn_put16 (of_nat off) @ ?d"
    by (simp_all add: f wn_put32_def wn_put16_def)
  show id: "frag_id f = i" by (simp only: frag_id_def d wn_get32_put32)
  show total: "frag_total f = length p"
    using shape by (simp add: frag_total_def d unat_of_nat)
  show offset: "frag_offset f = off" using assms(2) by (auto simp: frag_offset_def d unat_of_nat)
  show body: "drop 9 f = ?d" by (simp add: f wn_put32_def wn_put16_def)
  show "f \<noteq> []" "f ! 0 = 1" by (simp_all add: f)
  have len: "length f = 9 + min 1091 (length p - off)" by (simp add: f)
  then show "10 \<le> length f" "length f \<le> WN_DATAGRAM_MAX" "length f - 9 = min 1091 (length p - off)"
    using assms(3) by (auto simp: WN_DATAGRAM_MAX_def)
  show "frag_valid f"
    using assms(2,3) shape by (auto simp: frag_valid_def total offset len WN_MTU_def)
qed

lemma has_part_simps [simp]:
  "\<not> has_part 0 k" "has_part 1 1" "has_part 2 2" "\<not> has_part 1 2" "\<not> has_part 2 1"
  by (simp_all add: has_part_def)

lemmas has_part_Suc [simp] = has_part_simps(2,4,5) [unfolded One_nat_def]

text \<open>One fragment that is neither repeated nor of another size, given what is already there.\<close>

lemma assemble_step:
  assumes "p \<noteq> []" "length p \<le> WN_DATAGRAM_MAX" "p ! 0 = 1" "10 \<le> length p" "frag_valid p"
    and "as_total (restart s p now) = frag_total p"
    and "\<not> has_part (as_parts (restart s p now)) (if frag_offset p \<noteq> 0 then 2 else 1)"
    and "length (as_packet (restart s p now)) = WN_MTU"
  shows "wn_assemble s (Some p) now =
    (let s' = add_part (restart s p now) p
     in if as_received s' \<noteq> frag_total p then (0, s')
        else (if ip6_shape (take (frag_total p) (as_packet s')) then int (frag_total p) else - 1,
              s'\<lparr>as_parts := 0\<rparr>))"
proof -
  let ?s = "add_part (restart s p now) p"
  have tot: "40 \<le> frag_total p" "frag_total p \<le> WN_MTU" "frag_offset p + (length p - 9) \<le> frag_total p"
    using assms(5) by (auto simp: frag_valid_def split: if_splits)
  then have "length (as_packet ?s) = WN_MTU" using assms(8) by (simp add: add_part_def)
  then have "ip6_shape (take (frag_total p) (as_packet ?s)) \<longleftrightarrow> drop_bit 4 (as_packet ?s ! 0) = 6 \<and>
      unat (wn_get16 (drop 4 (as_packet ?s))) = frag_total p - 40"
    using tot by (simp add: ip6_shape_def wn_get16_def)
  also have "\<dots> \<longleftrightarrow> drop_bit 4 (as_packet ?s ! 0) = 6 \<and>
      int (unat (wn_get16 (drop 4 (as_packet ?s)))) = int (frag_total p) - 40"
    using tot(1) by (simp only: of_nat_eq_iff [where 'a = int, symmetric] of_nat_diff of_nat_numeral)
  finally have "ip6_shape (take (frag_total p) (as_packet ?s)) \<longleftrightarrow> drop_bit 4 (as_packet ?s ! 0) = 6 \<and>
      int (unat (wn_get16 (drop 4 (as_packet ?s)))) = int (frag_total p) - 40" .
  with assms show ?thesis by (simp add: wn_assemble_def Let_def)
qed

lemma restart_fresh:
  "as_parts s = 0 \<or> as_deadline s \<le> now \<or> as_id s \<noteq> frag_id p \<Longrightarrow>
     restart s p now = zero_assembler\<lparr>as_id := frag_id p, as_total := frag_total p, as_deadline := now + 2000000\<rparr>"
  by (simp add: restart_def)

lemma restart_keep:
  "as_parts s \<noteq> 0 \<Longrightarrow> now < as_deadline s \<Longrightarrow> as_id s = frag_id p \<Longrightarrow> restart s p now = s"
  by (simp add: restart_def)

lemma zero_assembler_simps [simp]:
  "as_packet zero_assembler = zeros WN_MTU" "as_parts zero_assembler = 0" "as_received zero_assembler = 0"
  by (simp_all add: zero_assembler_def)

text \<open>The two placements in a buffer that holds the rest already, or zeros.\<close>

lemma take_memcpy_front:
  "length src = k \<Longrightarrow> k \<le> n \<Longrightarrow> n \<le> length base \<Longrightarrow>
     take n (memcpy_at 0 src base) = src @ take (n - k) (drop k base)"
  by (simp add: memcpy_at_def)

lemma take_memcpy_back:
  "k + length src = n \<Longrightarrow> n \<le> length base \<Longrightarrow> take n (memcpy_at k src base) = take k base @ src"
  by (simp add: memcpy_at_def)

lemma assemble_first:
  assumes "ip6_shape p" "off = 0 \<or> off = 1091" "off < length p"
    and "as_parts s = 0 \<or> as_deadline s \<le> now \<or> as_id s \<noteq> i"
  defines "s' \<equiv> \<lparr>as_packet = memcpy_at off (take 1091 (drop off p)) (zeros WN_MTU), as_id = i, as_total = length p,
    as_received = min 1091 (length p - off), as_parts = (if off = 0 then 1 else 2), as_deadline = now + 2000000\<rparr>"
  shows "wn_assemble s (Some (wn_fragment (Some p) i off)) now =
    (if length p \<le> 1091 then (int (length p), s'\<lparr>as_parts := 0\<rparr>) else (0, s'))"
proof -
  let ?f = "wn_fragment (Some p) i off"
  note f = fragment_fields [OF assms(1-3), of i]
  have shape: "40 \<le> length p" "length p \<le> WN_MTU" using assms(1) by (auto simp: ip6_shape_def)
  have r: "restart s ?f now = zero_assembler\<lparr>as_id := i, as_total := length p, as_deadline := now + 2000000\<rparr>"
    using assms(4) restart_fresh [of s now ?f] f(1,2) by simp
  have s': "add_part (restart s ?f now) ?f = s'"
    using assms(2) by (auto simp: add_part_def r f(3,4,9) s'_def zero_assembler_def)
  have "ip6_shape (take (length p) (as_packet s'))" if "length p \<le> 1091"
    using that assms(1-3) shape by (auto simp: s'_def take_memcpy_front)
  moreover have "as_received s' \<noteq> length p" if "\<not> length p \<le> 1091" using that assms(2) by (auto simp: s'_def)
  moreover have "as_received s' = length p" if "length p \<le> 1091" using that assms(2,3) by (auto simp: s'_def)
  ultimately show ?thesis
    using assemble_step [OF f(5,8,6,7,10), of s now] by (auto simp: r s' f(2,3) simp flip: s')
qed

lemma assemble_second:
  assumes "ip6_shape p" "1091 < length p" "off = 0 \<or> off = 1091" "now < as_deadline s"
    and s: "as_parts s = (if off = 0 then 2 else 1)" "as_id s = i" "as_total s = length p"
      "as_received s = min 1091 (length p - (1091 - off))"
      "as_packet s = memcpy_at (1091 - off) (take 1091 (drop (1091 - off) p)) (zeros WN_MTU)"
  obtains s' where "wn_assemble s (Some (wn_fragment (Some p) i off)) now = (int (length p), s')"
    "take (length p) (as_packet s') = p"
proof -
  let ?f = "wn_fragment (Some p) i off"
  have lt: "off < length p" using assms(2,3) by auto
  note f = fragment_fields [OF assms(1,3) lt, of i]
  have shape: "40 \<le> length p" "length p \<le> WN_MTU" "length p \<le> 1320"
    using assms(1) by (auto simp: ip6_shape_def WN_MTU_def)
  have len: "length (as_packet s) = WN_MTU" using shape(2) assms(2,3) by (auto simp: s(5))
  have r: "restart s ?f now = s" using assms(3,4) by (intro restart_keep) (auto simp: s f(1))
  have packet: "take (length p) (memcpy_at off (take 1091 (drop off p)) (as_packet s)) = p"
  proof (cases "off = 0")
    case True
    have "take (length p - 1091) (drop 1091 (as_packet s)) = drop 1091 p"
      using nth_memcpy_take [of 1091 "drop 1091 p" "zeros WN_MTU"] shape(2,3) assms(2) True
      by (simp add: s(5))
    with True shape(2) assms(2) len show ?thesis
      by (subst True, subst take_memcpy_front [of _ 1091]) simp_all
  next
    case False
    then have off: "off = 1091" using assms(3) by simp
    have "take 1091 (as_packet s) = take 1091 p"
      using take_memcpy_front [of "take 1091 p" 1091 1091 "zeros WN_MTU"] shape(2) assms(2) off by (simp add: s(5))
    with shape(2,3) assms(2) len show ?thesis
      by (subst off, subst take_memcpy_back) (simp_all add: off)
  qed
  have recv: "as_received (add_part s ?f) = length p"
    using assms(2,3) shape(3) by (auto simp: add_part_def f(9) s(4))
  have "ip6_shape (take (length p) (as_packet (add_part s ?f)))"
    using assms(1) packet by (simp add: add_part_def f(3,4))
  then have "wn_assemble s (Some ?f) now = (int (length p), add_part s ?f\<lparr>as_parts := 0\<rparr>)"
    using assemble_step [OF f(5,8,6,7,10), of s now] assms(3) recv len
    by (auto simp: r f(2,3) s(1,3) Let_def split: if_splits)
  then show thesis using that packet by (simp add: add_part_def f(3,4))
qed

section \<open>Every history of datagrams\<close>

primrec assemble_all :: "wn_assembler \<Rightarrow> (bytes option \<times> int) list \<Rightarrow> wn_assembler" where
  "assemble_all s [] = s"
| "assemble_all s (d # ds) = assemble_all (snd (wn_assemble s (fst d) (snd d))) ds"

lemma assemble_all_append: "assemble_all s (xs @ ys) = assemble_all (assemble_all s xs) ys"
  by (induction xs arbitrary: s) simp_all

text \<open>
  What an assembler in progress holds: one fragment of the packet it names, received at \<open>t\<close>, with
  the deadline counted from then.
\<close>

definition holds_fragment :: "(bytes option \<times> int) list \<Rightarrow> wn_assembler \<Rightarrow> bytes \<Rightarrow> int \<Rightarrow> bool" where
  "holds_fragment ds s f t \<longleftrightarrow> (Some f, t) \<in> set ds \<and> frag_valid f \<and> frag_id f = as_id s \<and> frag_total f = as_total s \<and>
     as_parts s = (if frag_offset f = 0 then 1 else 2) \<and> as_received s = length f - 9 \<and>
     as_received s < as_total s \<and>
     take (length f - 9) (drop (frag_offset f) (as_packet s)) = drop 9 f \<and> as_deadline s = t + 2000000"

definition assembler_ok :: "(bytes option \<times> int) list \<Rightarrow> wn_assembler \<Rightarrow> bool" where
  "assembler_ok ds s \<longleftrightarrow> length (as_packet s) = WN_MTU \<and> (as_parts s \<noteq> 0 \<longrightarrow> (\<exists>f t. holds_fragment ds s f t))"

text \<open>Where a completed packet comes from: one fragment, or two of the same packet.\<close>

definition built_from :: "(bytes option \<times> int) list \<Rightarrow> bytes \<Rightarrow> int \<Rightarrow> bytes \<Rightarrow> bool" where
  "built_from ds p now packet \<longleftrightarrow> packet = drop 9 p \<or>
     (\<exists>f t. (Some f, t) \<in> set ds \<and> now < t + 2000000 \<and> frag_id f = frag_id p \<and> frag_total f = frag_total p \<and>
       (frag_offset f = 0 \<and> frag_offset p = 1091 \<and> packet = drop 9 f @ drop 9 p \<or>
        frag_offset f = 1091 \<and> frag_offset p = 0 \<and> packet = drop 9 p @ drop 9 f))"

lemma frag_validD:
  assumes "frag_valid p"
  shows "40 \<le> frag_total p" "frag_total p \<le> WN_MTU" "frag_offset p = 0 \<or> frag_offset p = 1091"
    "frag_offset p < frag_total p" "length p - 9 = min 1091 (frag_total p - frag_offset p)"
    "frag_offset p + (length p - 9) \<le> frag_total p"
  using assms by (auto simp: frag_valid_def min_def split: if_splits)

lemma assembler_ok_mono: "assembler_ok ds s \<Longrightarrow> assembler_ok (ds @ ds') s"
  by (fastforce simp: assembler_ok_def holds_fragment_def)

lemma assembler_ok_reset: "assembler_ok ds s \<Longrightarrow> assembler_ok ds' (s\<lparr>as_parts := 0\<rparr>)"
  by (simp add: assembler_ok_def)

lemma restart_cases:
  assumes "assembler_ok ds s"
  obtains (fresh) "restart s p now = zero_assembler\<lparr>as_id := frag_id p, as_total := frag_total p, as_deadline := now + 2000000\<rparr>"
  | (partial) f t where "restart s p now = s" "holds_fragment ds s f t" "frag_id f = frag_id p" "now < t + 2000000"
proof (cases "as_parts s = 0 \<or> as_deadline s \<le> now \<or> as_id s \<noteq> frag_id p")
  case True
  then show thesis by (rule fresh [OF restart_fresh])
next
  case False
  with assms obtain f t where "holds_fragment ds s f t" by (auto simp: assembler_ok_def)
  with False show thesis by (intro partial [of f t]) (auto simp: restart_def holds_fragment_def)
qed

lemma add_part_fresh:
  assumes "frag_valid p"
    and "r = zero_assembler\<lparr>as_id := frag_id p, as_total := frag_total p, as_deadline := now + 2000000\<rparr>"
  shows "as_received (add_part r p) = length p - 9"
    and "as_received (add_part r p) = frag_total p \<Longrightarrow> take (frag_total p) (as_packet (add_part r p)) = drop 9 p"
    and "as_received (add_part r p) \<noteq> frag_total p \<Longrightarrow> holds_fragment (ds @ [(Some p, now)]) (add_part r p) p now"
proof -
  note v = frag_validD [OF assms(1)]
  show recv: "as_received (add_part r p) = length p - 9" using v(5) by (simp add: add_part_def assms(2))
  show "take (frag_total p) (as_packet (add_part r p)) = drop 9 p" if "as_received (add_part r p) = frag_total p"
  proof -
    have len: "length p - 9 = frag_total p" using that recv by simp
    then have "frag_offset p = 0" using v(4,6) by linarith
    with len v(2) show ?thesis by (simp add: add_part_def assms(2) take_memcpy_front)
  qed
  show "holds_fragment (ds @ [(Some p, now)]) (add_part r p) p now"
    if "as_received (add_part r p) \<noteq> frag_total p"
  proof -
    have "length p - 9 < frag_total p" using that recv v(6) by simp
    moreover have "take (length p - 9) (drop (frag_offset p) (memcpy_at (frag_offset p) (drop 9 p) (zeros WN_MTU))) = drop 9 p"
      using nth_memcpy_take [of "frag_offset p" "drop 9 p" "zeros WN_MTU"] v(2,6) by simp
    ultimately show ?thesis
      using assms(1) v(5) by (simp add: holds_fragment_def add_part_def assms(2))
  qed
qed

lemma add_part_second:
  assumes "frag_valid p" "holds_fragment ds s f t" "as_total s = frag_total p" "length (as_packet s) = WN_MTU"
    and "\<not> has_part (as_parts s) (if frag_offset p \<noteq> 0 then 2 else 1)"
  shows "as_received (add_part s p) = frag_total p"
    and "frag_offset f = 0 \<and> frag_offset p = 1091 \<and> take (frag_total p) (as_packet (add_part s p)) = drop 9 f @ drop 9 p \<or>
      frag_offset f = 1091 \<and> frag_offset p = 0 \<and> take (frag_total p) (as_packet (add_part s p)) = drop 9 p @ drop 9 f"
proof -
  note v = frag_validD [OF assms(1)]
  have h: "frag_valid f" "frag_total f = frag_total p" "as_parts s = (if frag_offset f = 0 then 1 else 2)"
    "as_received s = length f - 9" "take (length f - 9) (drop (frag_offset f) (as_packet s)) = drop 9 f"
    using assms(2,3) by (auto simp: holds_fragment_def)
  note w = frag_validD [OF h(1)]
  have offs: "frag_offset f = 0 \<and> frag_offset p = 1091 \<or> frag_offset f = 1091 \<and> frag_offset p = 0"
    using v(3) w(3) assms(5) h(3) by auto
  then show "as_received (add_part s p) = frag_total p"
    using v w h(2,4) by (auto simp: add_part_def WN_MTU_def)
  from offs show "frag_offset f = 0 \<and> frag_offset p = 1091 \<and> take (frag_total p) (as_packet (add_part s p)) = drop 9 f @ drop 9 p \<or>
      frag_offset f = 1091 \<and> frag_offset p = 0 \<and> take (frag_total p) (as_packet (add_part s p)) = drop 9 p @ drop 9 f"
  proof
    assume a: "frag_offset f = 0 \<and> frag_offset p = 1091"
    then have "length f - 9 = 1091" "1091 + (length p - 9) = frag_total p" using v(2,4,5) w(5) h(2) by (auto simp: WN_MTU_def)
    with a h(5) v(2) assms(4) show ?thesis by (simp add: add_part_def take_memcpy_back)
  next
    assume a: "frag_offset f = 1091 \<and> frag_offset p = 0"
    then have "length p - 9 = 1091" "length f - 9 = frag_total p - 1091" "1091 < frag_total p"
      using v(5) w(2,4,5) h(2) by (auto simp: WN_MTU_def)
    with a h(5) v(2) assms(4) show ?thesis by (simp add: add_part_def take_memcpy_front)
  qed
qed

lemma wn_assemble_cases:
  fixes now :: int
  fixes d :: "bytes option"
  assumes "assembler_ok ds s"
  defines "s' \<equiv> snd (wn_assemble s d now)" and "r \<equiv> fst (wn_assemble s d now)"
  shows "assembler_ok (ds @ [(d, now)]) s' \<and>
    (r = - 1 \<or> r = 0 \<or> (\<exists>p. d = Some p \<and> r = int (frag_total p) \<and> frag_valid p \<and>
      ip6_shape (take (frag_total p) (as_packet s')) \<and> built_from ds p now (take (frag_total p) (as_packet s'))))"
proof (cases "\<exists>p. d = Some p \<and> p \<noteq> [] \<and> length p \<le> WN_DATAGRAM_MAX \<and> p ! 0 = 1 \<and> 10 \<le> length p \<and> frag_valid p")
  case False
  then have "s' = s" "r = - 1 \<or> r = 0" by (auto simp: s'_def r_def wn_assemble_def split: option.splits)
  with assembler_ok_mono [OF assms(1)] show ?thesis by auto
next
  case True
  then obtain p where d: "d = Some p" and p: "p \<noteq> []" "length p \<le> WN_DATAGRAM_MAX" "p ! 0 = 1" "10 \<le> length p" "frag_valid p"
    by blast
  let ?r = "restart s p now" and ?part = "if frag_offset p \<noteq> 0 then 2 else 1 :: nat"
  let ?a = "add_part ?r p"
  note v = frag_validD [OF p(5)]
  have len: "length (as_packet ?r) = WN_MTU"
    using assms(1) by (auto simp: restart_def assembler_ok_def)
  then have lena: "length (as_packet ?a) = WN_MTU" using v(2,6) by (simp add: add_part_def)
  show ?thesis
  proof (cases "as_total ?r \<noteq> frag_total p \<or> has_part (as_parts ?r) ?part")
    case True
    then have "wn_assemble s d now = (- 1, ?r\<lparr>as_parts := 0\<rparr>)" using p by (auto simp: d wn_assemble_def Let_def)
    then show ?thesis using len by (simp add: s'_def r_def assembler_ok_def)
  next
    case False
    then have result: "wn_assemble s d now =
        (if as_received ?a \<noteq> frag_total p then (0, ?a)
         else (if ip6_shape (take (frag_total p) (as_packet ?a)) then int (frag_total p) else - 1, ?a\<lparr>as_parts := 0\<rparr>))"
      using assemble_step [OF p, of s now] len by (simp add: d Let_def)
    have "(as_received ?a \<noteq> frag_total p \<longrightarrow> assembler_ok (ds @ [(d, now)]) ?a) \<and>
        (as_received ?a = frag_total p \<longrightarrow> built_from ds p now (take (frag_total p) (as_packet ?a)))"
    proof (rule restart_cases [OF assms(1), where p = p and now = now])
      assume "?r = zero_assembler\<lparr>as_id := frag_id p, as_total := frag_total p, as_deadline := now + 2000000\<rparr>"
      note fresh = add_part_fresh [OF p(5) this]
      show ?thesis using fresh(2) fresh(3) [of ds] lena by (auto simp: assembler_ok_def built_from_def d)
    next
      fix f t assume f: "?r = s" "holds_fragment ds s f t" "frag_id f = frag_id p" "now < t + 2000000"
      have pre: "as_total s = frag_total p" "length (as_packet s) = WN_MTU" "\<not> has_part (as_parts s) ?part"
        using False len by (simp_all add: f(1))
      have "(Some f, t) \<in> set ds" "frag_total f = frag_total p"
        using f(2) pre(1) by (auto simp: holds_fragment_def)
      with add_part_second [OF p(5) f(2) pre] f(3,4) show ?thesis
        unfolding f(1) built_from_def by blast
    qed
    with result lena show ?thesis
      using p(5) by (auto simp: s'_def r_def d assembler_ok_def)
  qed
qed

lemma assemble_all_ok: "assembler_ok ds (assemble_all zero_assembler ds)"
proof (induction ds rule: rev_induct)
  case Nil
  then show ?case by (simp add: assembler_ok_def)
next
  case (snoc d ds)
  obtain x now where d: "d = (x, now)" by (cases d)
  from wn_assemble_cases [OF snoc, of x now] show ?case by (simp add: assemble_all_append d)
qed

section \<open>Properties\<close>

text \<open>C26: Fragmenting a packet and reassembling its fragments gives the packet back: for every IPv6
  packet of 40 to 1320 bytes, whatever the assembler held of other or expired packets, the single
  fragment of a packet of at most 1091 bytes completes it, and the two fragments of a longer one
  complete it in either order when the second arrives before the deadline.\<close>

theorem fragment_assemble:
  assumes "ip6_shape p" and "as_parts s = 0 \<or> as_deadline s \<le> now \<or> as_id s \<noteq> i" and "later < now + 2000000"
  shows "if length p \<le> 1091
    then case wn_assemble s (Some (wn_fragment (Some p) i 0)) now of
      (r, s') \<Rightarrow> r = int (length p) \<and> take (length p) (as_packet s') = p
    else \<forall>(a, b) \<in> {(0, 1091), (1091, 0)}.
      (case wn_assemble s (Some (wn_fragment (Some p) i a)) now of
        (r, s') \<Rightarrow> r = 0 \<and>
          (case wn_assemble s' (Some (wn_fragment (Some p) i b)) later of
            (r, s'') \<Rightarrow> r = int (length p) \<and> take (length p) (as_packet s'') = p))"
proof (cases "length p \<le> 1091")
  case True
  have pos: "0 < length p" "length p \<le> WN_MTU" using assms(1) by (auto simp: ip6_shape_def)
  then have "take (length p) (memcpy_at 0 (take 1091 p) (zeros WN_MTU)) = p"
    using True by (simp add: take_memcpy_front)
  with True assemble_first [OF assms(1) _ pos(1) assms(2)] show ?thesis by simp
next
  case False
  have "case wn_assemble s (Some (wn_fragment (Some p) i a)) now of
        (r, s') \<Rightarrow> r = 0 \<and>
          (case wn_assemble s' (Some (wn_fragment (Some p) i b)) later of
            (r, s'') \<Rightarrow> r = int (length p) \<and> take (length p) (as_packet s'') = p)"
    if ab: "(a, b) \<in> {(0, 1091), (1091, 0)}" for a b
  proof -
    let ?s = "\<lparr>as_packet = memcpy_at a (take 1091 (drop a p)) (zeros WN_MTU), as_id = i, as_total = length p,
      as_received = min 1091 (length p - a), as_parts = (if a = 0 then 1 else 2), as_deadline = now + 2000000\<rparr>"
    have a: "a = 0 \<or> a = 1091" "a < length p" "b = 0 \<or> b = 1091" "a = 1091 - b" using ab False by auto
    have first: "wn_assemble s (Some (wn_fragment (Some p) i a)) now = (0, ?s)"
      using assemble_first [OF assms(1) a(1,2) assms(2)] False by simp
    obtain s'' where "wn_assemble ?s (Some (wn_fragment (Some p) i b)) later = (int (length p), s'')"
      "take (length p) (as_packet s'') = p"
      by (rule assemble_second [OF assms(1) _ a(3), of later ?s i]) (use assms(3) ab False in auto)
    with first show ?thesis by simp
  qed
  with False show ?thesis by auto
qed

text \<open>C27: Whatever datagrams arrive and when, a completed packet is never mixed: the assembler answers
  \<open>-1\<close>, \<open>0\<close>, or the length of a well-formed IPv6 packet in its buffer that is the payload of the
  datagram just received, or that payload joined at offset 1091 with the payload of an earlier datagram
  with the same packet id and total that arrived less than two seconds before.\<close>

theorem wn_assemble_sound:
  assumes "(r, s') = wn_assemble (assemble_all zero_assembler ds) d now"
  shows "r = - 1 \<or> r = 0 \<or> (\<exists>p. d = Some p \<and> r = int (frag_total p) \<and> 40 \<le> r \<and> r \<le> 1320 \<and>
    ip6_shape (take (frag_total p) (as_packet s')) \<and> built_from ds p now (take (frag_total p) (as_packet s')))"
proof -
  have r: "fst (wn_assemble (assemble_all zero_assembler ds) d now) = r"
    "snd (wn_assemble (assemble_all zero_assembler ds) d now) = s'"
    by (simp_all flip: assms)
  from wn_assemble_cases [OF assemble_all_ok, of ds d now, unfolded r] show ?thesis
    using frag_validD(1,2) by (fastforce simp: WN_MTU_def)
qed

definition example_packet :: "nat \<Rightarrow> bytes" where
  "example_packet n = [96, 0, 0, 0] @ wn_put16 (of_nat n) @ replicate (34 + n) 7"

lemma example_packet_shape: "n \<le> 1280 \<Longrightarrow> ip6_shape (example_packet n)"
  by (simp add: ip6_shape_def example_packet_def WN_MTU_def unat_of_nat)

lemma length_example_packet: "length (example_packet n) = 40 + n"
  by (simp add: example_packet_def)

theorem fragment_assemble_witness:
  "(case wn_assemble zero_assembler (Some (wn_fragment (Some (example_packet 1160)) 9 1091)) 5 of
      (r, s') \<Rightarrow> r = 0 \<and>
        (case wn_assemble s' (Some (wn_fragment (Some (example_packet 1160)) 9 0)) 8 of
          (r, s'') \<Rightarrow> r = 1200 \<and> take 1200 (as_packet s'') = example_packet 1160)) \<and>
   (case wn_assemble zero_assembler (Some (wn_fragment (Some (example_packet 3)) 9 0)) 5 of
      (r, s') \<Rightarrow> r = 43 \<and> take 43 (as_packet s') = example_packet 3)"
  using fragment_assemble [OF example_packet_shape [of 1160], of zero_assembler 5 9 8]
    fragment_assemble [OF example_packet_shape [of 3], of zero_assembler 5 9 8]
  by (simp add: length_example_packet)

theorem wn_assemble_sound_witness:
  "\<exists>r s'. (r, s') = wn_assemble (assemble_all zero_assembler [(Some [2], 1), (None, 2)])
       (Some (wn_fragment (Some (example_packet 3)) 9 0)) 5 \<and> r = 43 \<and>
     ip6_shape (take 43 (as_packet s')) \<and>
     built_from [(Some [2], 1), (None, 2)] (wn_fragment (Some (example_packet 3)) 9 0) 5 (take 43 (as_packet s'))"
proof -
  let ?f = "wn_fragment (Some (example_packet 3)) 9 0"
  have all: "assemble_all zero_assembler [(Some [2], 1), (None, 2)] = zero_assembler"
    by (simp add: wn_assemble_def WN_DATAGRAM_MAX_def)
  obtain s' where s': "wn_assemble zero_assembler (Some ?f) 5 = (43, s')"
    using assemble_first [OF example_packet_shape [of 3], of 0 zero_assembler 5 9] by (simp add: length_example_packet)
  have "frag_total ?f = 43"
    using fragment_fields(2) [OF example_packet_shape [of 3], of 0 9] by (simp add: length_example_packet)
  with wn_assemble_sound [of 43 s' "[(Some [2], 1), (None, 2)]" "Some ?f" 5] show ?thesis
    by (intro exI [of _ 43] exI [of _ s']) (simp only: all s', auto)
qed

end
