(* ===== verification/Peer_Protocol.thy ===== *)
theory Peer_Protocol
  imports Peer_Document Peer_Packet
begin

text \<open>
  The names and messages of \<open>components/wendy_net_peer/src/protocol.c\<close>: UUIDs, mesh addresses, device
  host names, principals, the writers of manifests and directory messages, and the structural gate for
  IPv6 packets. A C string is its bytes without the terminator, a null pointer is \<^const>\<open>None\<close>, and an
  output buffer is passed in and returned as it is left.
\<close>

section \<open>UUIDs\<close>

definition hex :: "u8 \<Rightarrow> int" where
  "hex c = (if 48 \<le> c \<and> c \<le> 57 then uint c - 48 else if 97 \<le> c \<and> c \<le> 102 then uint c - 97 + 10 else - 1)"

abbreviation uuid_dash :: "nat \<Rightarrow> bool" where
  "uuid_dash i \<equiv> i = 8 \<or> i = 13 \<or> i = 18 \<or> i = 23"

function uuid_from :: "bytes \<Rightarrow> nat \<Rightarrow> nat \<Rightarrow> bytes \<Rightarrow> int \<times> bytes" where
  "uuid_from s i n out =
     (if i < 36 then
        if uuid_dash i then
          if s ! i \<noteq> 45 then (- 1, out) else uuid_from s (i + 1) n out
        else
          let a = hex (s ! i); b = hex (s ! (i + 1))
          in if a < 0 \<or> b < 0 then (- 1, out)
             else uuid_from s (i + 2) (n + 1) (out[n := word_of_int (a * 16 + b)])
      else (0, out))"
  by pat_completeness auto
termination
  by (relation "measure (\<lambda>(_, i, _, _). 36 - i)") auto

declare uuid_from.simps [simp del]

definition wn_uuid_parse :: "bytes option \<Rightarrow> bytes \<Rightarrow> int \<times> bytes" where
  "wn_uuid_parse s out =
     (case s of
        None \<Rightarrow> (- 1, out)
      | Some s \<Rightarrow> if length s \<noteq> 36 then (- 1, out) else uuid_from s 0 0 out)"

text \<open>The conversions \<open>%02x\<close> and \<open>%x\<close>, and \<open>snprintf\<close> with a buffer of \<open>cap\<close> bytes.\<close>

definition hex02 :: "u8 \<Rightarrow> bytes" where
  "hex02 b = [hex_digits ! unat (drop_bit 4 b), hex_digits ! unat (and b 15)]"

fun hex_nat :: "nat \<Rightarrow> bytes" where
  "hex_nat n = (if n < 16 then [hex_digits ! n] else hex_nat (n div 16) @ [hex_digits ! (n mod 16)])"

declare hex_nat.simps [simp del]

definition snprintf :: "nat \<Rightarrow> bytes \<Rightarrow> int \<times> bytes" where
  "snprintf cap s = (int (length s), take (cap - 1) s)"

definition wn_uuid_format :: "bytes \<Rightarrow> bytes" where
  "wn_uuid_format u = snd (snprintf 37
     (hex02 (u ! 0) @ hex02 (u ! 1) @ hex02 (u ! 2) @ hex02 (u ! 3) @ [45] @ hex02 (u ! 4) @ hex02 (u ! 5) @ [45] @
      hex02 (u ! 6) @ hex02 (u ! 7) @ [45] @ hex02 (u ! 8) @ hex02 (u ! 9) @ [45] @ hex02 (u ! 10) @ hex02 (u ! 11) @
      hex02 (u ! 12) @ hex02 (u ! 13) @ hex02 (u ! 14) @ hex02 (u ! 15)))"

section \<open>Addresses, host names and principals\<close>

definition wn_address :: "bytes \<Rightarrow> bytes" where
  "wn_address u = [0xfd, 0x45, 0xb8, 0x91, 0x56, 0x7f] @ take 10 (drop 6 u)"

definition tolower :: "u8 \<Rightarrow> u8" where
  "tolower c = (if 65 \<le> c \<and> c \<le> 90 then c + 32 else c)"

text \<open>A C string read at an index; its terminator is at its length.\<close>

definition char_at :: "bytes \<Rightarrow> nat \<Rightarrow> u8" where
  "char_at s i = (if i < length s then s ! i else 0)"

fun strncasecmp_at :: "bytes \<Rightarrow> nat \<Rightarrow> bytes \<Rightarrow> nat \<Rightarrow> nat \<Rightarrow> int" where
  "strncasecmp_at a i b j 0 = 0"
| "strncasecmp_at a i b j (Suc n) =
     (let x = tolower (char_at a i); y = tolower (char_at b j)
      in if x \<noteq> y then uint x - uint y else if x = 0 then 0 else strncasecmp_at a (i + 1) b (j + 1) n)"

definition host_suffixes :: "bytes list" where
  "host_suffixes = [ascii ''.mesh.wendy.internal'', ascii ''.mesh.local'']"

definition host_uuid :: "bytes \<Rightarrow> bytes" where
  "host_uuid host = map (\<lambda>j. let c = host ! (7 + j) in if 65 \<le> c \<and> c \<le> 70 then c + 97 - 65 else c) [0..<36]"

definition host_matches :: "bytes \<Rightarrow> nat \<Rightarrow> bytes \<Rightarrow> bool" where
  "host_matches host sz suffix \<longleftrightarrow>
     \<not> (sz \<noteq> 7 + 36 + length suffix \<or> strncasecmp_at host 0 (ascii ''device-'') 0 7 \<noteq> 0 \<or>
        strncasecmp_at host (7 + 36) suffix 0 (length suffix) \<noteq> 0)"

primrec host_try :: "bytes \<Rightarrow> nat \<Rightarrow> bytes list \<Rightarrow> bytes \<Rightarrow> int \<times> bytes" where
  "host_try host sz [] device = (0, device)"
| "host_try host sz (suffix # rest) device =
     (if \<not> host_matches host sz suffix then host_try host sz rest device
      else case wn_uuid_parse (Some (host_uuid host)) device of (r, device) \<Rightarrow> (if r \<noteq> 0 then - 1 else 1, device))"

definition wn_device_hostname_parse :: "bytes option \<Rightarrow> bytes option \<Rightarrow> int \<times> bytes option" where
  "wn_device_hostname_parse host device =
     (case (host, device) of
        (Some host, Some device) \<Rightarrow>
          let sz = length host;
              sz = (if sz \<noteq> 0 \<and> host ! (sz - 1) = 46 then sz - 1 else sz)
          in case host_try host sz host_suffixes device of (r, device) \<Rightarrow> (r, Some device)
      | _ \<Rightarrow> (0, device))"

definition wn_prefix :: "bytes \<Rightarrow> bytes" where
  "wn_prefix u =
     (let a = wn_address u; group = (\<lambda>i. hex_nat (unat (wn_get16 (drop i a))))
      in snd (snprintf 48 (ascii ''fd45:b891:567f:'' @ group 6 @ [58] @ group 8 @ [58] @ group 10 @ [58] @
           group 12 @ [58] @ group 14 @ ascii ''/128'')))"

text \<open>The scratch UUID of \<open>wn_principal\<close> is not read; on a refusal the output is as it was.\<close>

definition wn_principal :: "bytes option \<Rightarrow> bytes option \<Rightarrow> bytes \<Rightarrow> int \<times> bytes" where
  "wn_principal tenant device out =
     (case (tenant, device) of
        (Some t, Some d) \<Rightarrow>
          if fst (wn_uuid_parse (Some t) (replicate 16 0)) \<noteq> 0 \<or> fst (wn_uuid_parse (Some d) (replicate 16 0)) \<noteq> 0
          then (- 1, out)
          else (case snprintf 106 (ascii ''spiffe://wendy.sh/tenant/'' @ t @ ascii ''/device/'' @ d) of
                  (n, out) \<Rightarrow> (if n = 105 then n else - 1, out))
      | _ \<Rightarrow> (- 1, out))"

definition wn_principal_device :: "bytes option \<Rightarrow> bytes option \<Rightarrow> bytes \<Rightarrow> int \<times> bytes" where
  "wn_principal_device s tenant device =
     (case s of
        None \<Rightarrow> (- 1, device)
      | Some s \<Rightarrow>
          if length s \<noteq> 105 then (- 1, device)
          else case wn_uuid_parse (Some (drop 69 s)) device of
            (r, device) \<Rightarrow>
              if r \<noteq> 0 then (- 1, device)
              else case wn_principal tenant (Some (drop 69 s)) [] of
                (n, expected) \<Rightarrow>
                  if n < 0 then (- 1, device)
                  else (if strcmp s expected \<noteq> 0 then - 1 else 0, device))"

section \<open>Manifests and directory messages\<close>

record wn_origin =
  or_router_id :: u64
  or_seqno :: u16

definition WN_ORIGIN_SIGNATURE_MAX :: nat where "WN_ORIGIN_SIGNATURE_MAX = 3309"
definition WN_MANIFEST_BODY_MAX :: nat where "WN_MANIFEST_BODY_MAX = 32768"
definition WN_MANIFEST_WIRE_MAX :: nat where "WN_MANIFEST_WIRE_MAX = WN_MANIFEST_BODY_MAX + WN_ORIGIN_SIGNATURE_MAX + 136"

text \<open>
  A writer's result and what it left in the output buffer. \<open>store\<close> says whether the caller passed a
  buffer; a null one only measures.
\<close>

definition finish_calls :: "bool \<Rightarrow> nat \<Rightarrow> nat \<Rightarrow> wn_call list \<Rightarrow> int \<times> bytes" where
  "finish_calls store cap maximum cs =
     (case wn_finish (fold do_call cs (fresh_writer store cap maximum)) of
        (r, w) \<Rightarrow> (r, case w_data w of None \<Rightarrow> [] | Some d \<Rightarrow> d))"

definition manifest_calls ::
  "bytes \<Rightarrow> bytes \<Rightarrow> bytes \<Rightarrow> wn_origin \<Rightarrow> u64 \<Rightarrow> int \<Rightarrow> int \<Rightarrow> u16 \<Rightarrow> u16 \<Rightarrow> bytes option \<Rightarrow> bool \<Rightarrow>
   bytes option \<Rightarrow> nat \<Rightarrow> wn_call list" where
  "manifest_calls device prefix name origin revision issued expires port app_port display_name sensors
     services services_size =
     [Map_head 13,
      Key (ascii ''agentPort''), Uint (ucast port),
      Key (ascii ''revision''), Uint revision,
      Key (ascii ''agentTransport''), Text (Some (ascii ''mtls-v1'')),
      Key (ascii ''appEndpoints''), Array_head (if app_port \<noteq> 0 then 1 else 0)] @
     (if app_port \<noteq> 0 then
        [Map_head 2,
         Key (ascii ''port''), Uint (ucast app_port),
         Key (ascii ''transport''), Text (Some (ascii ''tls-v1''))]
      else []) @
     [Key (ascii ''caps''), Array_head (if sensors then 1 else 0)] @
     (if sensors then [Text (Some (ascii ''sensors''))] else []) @
     [Key (ascii ''device''), Text (Some device),
      Key (ascii ''Expires''), Uint (word_of_int expires),
      Key (ascii ''Issued''), Uint (word_of_int issued),
      Key (ascii ''platform''), Text (Some (ascii ''Lite'')),
      Key (ascii ''name''),
      Text (case display_name of Some (c # cs) \<Rightarrow> Some (c # cs) | _ \<Rightarrow> Some name),
      Key (ascii ''route''), Map_head 3,
      Key (ascii ''prefix''), Text (Some prefix),
      Key (ascii ''routerId''), Uint (or_router_id origin),
      Key (ascii ''seqno''), Uint (ucast (or_seqno origin)),
      Key (ascii ''services'')] @
     (case services of Some d \<Rightarrow> [Raw (Some d) services_size] | None \<Rightarrow> [Array_head 0]) @
     [Key (ascii ''version''), Uint 4]"

definition wn_manifest_services_write ::
  "bytes option \<Rightarrow> wn_origin option \<Rightarrow> u64 \<Rightarrow> int \<Rightarrow> int \<Rightarrow> u16 \<Rightarrow> u16 \<Rightarrow> bytes option \<Rightarrow> bool \<Rightarrow>
   bytes option \<Rightarrow> nat \<Rightarrow> bool \<Rightarrow> nat \<Rightarrow> int \<times> bytes" where
  "wn_manifest_services_write self origin revision issued expires port app_port display_name sensors
     services services_size store cap =
     (case (self, origin) of
        (Some self, Some origin) \<Rightarrow>
          if revision = 0 \<or> or_router_id origin = 0 \<or> or_router_id origin = UINT64_MAX \<or> issued \<le> 0 \<or>
             expires \<le> issued \<or> 900000 < expires - issued \<or> port = 0 then (- 1, [])
          else
            let device = wn_uuid_format self;
                prefix = wn_prefix self;
                name = snd (snprintf 16 (ascii ''esp32-'' @ take 8 device))
            in if (case display_name of None \<Rightarrow> False | Some s \<Rightarrow> 255 < length s) then (- 1, [])
               else finish_calls store cap WN_MANIFEST_BODY_MAX
                 (manifest_calls device prefix name origin revision issued expires port app_port display_name sensors
                    services services_size)
      | _ \<Rightarrow> (- 1, []))"

definition wn_manifest_capabilities_write ::
  "bytes option \<Rightarrow> wn_origin option \<Rightarrow> u64 \<Rightarrow> int \<Rightarrow> int \<Rightarrow> u16 \<Rightarrow> u16 \<Rightarrow> bytes option \<Rightarrow> bool \<Rightarrow>
   bool \<Rightarrow> nat \<Rightarrow> int \<times> bytes" where
  "wn_manifest_capabilities_write self origin revision issued expires port app_port display_name sensors store cap =
     wn_manifest_services_write self origin revision issued expires port app_port display_name sensors None 0 store cap"

definition wn_manifest_app_write ::
  "bytes option \<Rightarrow> wn_origin option \<Rightarrow> u64 \<Rightarrow> int \<Rightarrow> int \<Rightarrow> u16 \<Rightarrow> u16 \<Rightarrow> bool \<Rightarrow> nat \<Rightarrow> int \<times> bytes" where
  "wn_manifest_app_write self origin revision issued expires port app_port store cap =
     wn_manifest_capabilities_write self origin revision issued expires port app_port None False store cap"

definition wn_manifest_write ::
  "bytes option \<Rightarrow> wn_origin option \<Rightarrow> u64 \<Rightarrow> int \<Rightarrow> int \<Rightarrow> u16 \<Rightarrow> bool \<Rightarrow> nat \<Rightarrow> int \<times> bytes" where
  "wn_manifest_write self origin revision issued expires port store cap =
     wn_manifest_app_write self origin revision issued expires port 0 store cap"

definition wn_manifest_wire_write ::
  "bytes option \<Rightarrow> bytes option \<Rightarrow> nat \<Rightarrow> bytes option \<Rightarrow> nat \<Rightarrow> bool \<Rightarrow> nat \<Rightarrow> int \<times> bytes" where
  "wn_manifest_wire_write prin body body_size signature signature_size store cap =
     (if (case prin of None \<Rightarrow> True | Some p \<Rightarrow> length p \<noteq> 105) \<or> body = None \<or> body_size = 0 \<or>
         WN_MANIFEST_BODY_MAX < body_size \<or> signature = None \<or> signature_size < 8 \<or>
         WN_ORIGIN_SIGNATURE_MAX < signature_size
      then (- 1, [])
      else finish_calls store cap WN_MANIFEST_WIRE_MAX
        [Map_head 3,
         Key (ascii ''body''), Raw body body_size,
         Key (ascii ''principal''), Text prin,
         Key (ascii ''signature''), Bytes signature signature_size])"

text \<open>The directory messages share a shape; they need a buffer.\<close>

definition kind_principal_write :: "string \<Rightarrow> bytes option \<Rightarrow> bool \<Rightarrow> nat \<Rightarrow> int \<times> bytes" where
  "kind_principal_write kind prin store cap =
     (if prin = None \<or> \<not> store then (- 1, [])
      else finish_calls store cap WN_CONTROL_MAX
        [Map_head 2,
         Key (ascii ''kind''), Text (Some (ascii kind)),
         Key (ascii ''principal''), Text prin])"

definition wn_identity_request_write :: "bytes option \<Rightarrow> bool \<Rightarrow> nat \<Rightarrow> int \<times> bytes" where
  "wn_identity_request_write prin store cap = kind_principal_write ''identity-request'' prin store cap"

definition wn_manifest_request_write :: "bytes option \<Rightarrow> bool \<Rightarrow> nat \<Rightarrow> int \<times> bytes" where
  "wn_manifest_request_write prin store cap = kind_principal_write ''manifest-request'' prin store cap"

definition wn_directory_missing_write :: "bytes option \<Rightarrow> bool \<Rightarrow> bool \<Rightarrow> nat \<Rightarrow> int \<times> bytes" where
  "wn_directory_missing_write prin manifest store cap =
     kind_principal_write (if manifest then ''manifest-missing'' else ''identity-missing'') prin store cap"

section \<open>The structural gate for packets\<close>

definition mesh_source :: "bytes \<Rightarrow> nat \<Rightarrow> bool" where
  "mesh_source p i \<longleftrightarrow> take 5 (drop i p) = [0xfd, 0x45, 0xb8, 0x91, 0x56] \<and> (p ! (i + 5) = 0x7f \<or> p ! (i + 5) = 0x80)"

definition wn_ip_admits :: "bytes option \<Rightarrow> bytes option \<Rightarrow> bool \<Rightarrow> bool" where
  "wn_ip_admits self data incoming =
     (case (self, data) of
        (Some self, Some p) \<Rightarrow>
          if length p < 40 \<or> WN_MTU < length p \<or> drop_bit 4 (p ! 0) \<noteq> 6 \<or>
             unat (wn_get16 (drop 4 p)) \<noteq> length p - 40 \<or> \<not> mesh_source p 8 \<or> \<not> mesh_source p 24
          then False
          else take 16 (drop (if incoming then 24 else 8) p) = wn_address self
      | _ \<Rightarrow> False)"

section \<open>UUIDs are read back\<close>

lemma hex_digits_nth: "n < 16 \<Longrightarrow> hex_digits ! n = (if n < 10 then word_of_nat (48 + n) else word_of_nat (87 + n))"
proof -
  have "list_all (\<lambda>n. hex_digits ! n = (if n < 10 then word_of_nat (48 + n) else word_of_nat (87 + n))) [0..<16]"
    by code_simp
  then show "n < 16 \<Longrightarrow> ?thesis" by (simp add: list_all_iff)
qed

lemma hex_digit_of: "n < 16 \<Longrightarrow> hex (hex_digits ! n) = int n"
proof -
  have "list_all (\<lambda>n. hex (hex_digits ! n) = int n) [0..<16]" by code_simp
  then show "n < 16 \<Longrightarrow> ?thesis" by (simp add: list_all_iff)
qed

lemma hex_inverse:
  assumes "0 \<le> hex c"
  shows "hex_digits ! nat (hex c) = c" "nat (hex c) < 16"
proof -
  consider "48 \<le> unat c" "unat c \<le> 57" "nat (hex c) = unat c - 48"
    | "97 \<le> unat c" "unat c \<le> 102" "nat (hex c) = unat c - 87"
    using assms by (auto simp: hex_def word_le_nat_alt nat_diff_distrib split: if_splits)
  then have "nat (hex c) < 16 \<and> hex_digits ! nat (hex c) = c"
  proof cases
    case 1
    then show ?thesis using hex_digits_nth [of "unat c - 48"] by auto
  next
    case 2
    then show ?thesis using hex_digits_nth [of "unat c - 87"] by auto
  qed
  then show "hex_digits ! nat (hex c) = c" "nat (hex c) < 16" by auto
qed

lemma nibbles: "unat (drop_bit 4 (b :: u8)) = unat b div 16" "unat (and b 15) = unat b mod 16"
proof -
  have "unat b < 256" using unsigned_less [of b] by simp
  then show "unat (drop_bit 4 b) = unat b div 16"
    by (simp add: unsigned_drop_bit_eq drop_bit_nat_def take_bit_nat_eq_self)
  have "and b 15 = take_bit 4 b" by (simp add: take_bit_eq_mask mask_eq_exp_minus_1)
  then show "unat (and b 15) = unat b mod 16" by (simp add: unsigned_take_bit_eq take_bit_nat_def)
qed

lemma hex02_read:
  "0 \<le> hex (hex02 b ! 0)" "0 \<le> hex (hex02 b ! 1)" "word_of_int (hex (hex02 b ! 0) * 16 + hex (hex02 b ! 1)) = b"
proof -
  have "unat b < 2 ^ LENGTH(8)" by (rule unsigned_less)
  then have lt: "unat b div 16 < 16" "unat b mod 16 < 16" by auto
  have h: "hex (hex02 b ! 0) = int (unat b div 16)" "hex (hex02 b ! 1) = int (unat b mod 16)"
    using hex_digit_of [OF lt(1)] hex_digit_of [OF lt(2)] by (simp_all add: hex02_def nibbles)
  then show "0 \<le> hex (hex02 b ! 0)" "0 \<le> hex (hex02 b ! 1)" by simp_all
  have "hex (hex02 b ! 0) * 16 + hex (hex02 b ! 1) = int (unat b)"
    using arg_cong [OF div_mult_mod_eq [of "unat b" 16], of int]
    unfolding h by (simp only: of_nat_mult of_nat_add of_nat_numeral)
  then show "word_of_int (hex (hex02 b ! 0) * 16 + hex (hex02 b ! 1)) = b" by simp
qed

lemma hex02_inj: "hex02 a = hex02 b \<longleftrightarrow> a = b"
  by (metis hex02_read(3))

lemma hex02_written:
  assumes "0 \<le> hex a" "0 \<le> hex b"
  shows "hex02 (word_of_int (hex a * 16 + hex b)) = [a, b]"
proof -
  let ?n = "nat (hex a) * 16 + nat (hex b)"
  have lt: "nat (hex a) < 16" "nat (hex b) < 16" using hex_inverse [OF assms(1)] hex_inverse [OF assms(2)] by auto
  have "word_of_int (hex a * 16 + hex b) = (word_of_nat ?n :: u8)" using assms by simp
  moreover have "unat (word_of_nat ?n :: u8) = ?n" using lt by (simp add: unat_of_nat del: of_nat_add of_nat_mult)
  ultimately show ?thesis
    using lt hex_inverse(1) [OF assms(1)] hex_inverse(1) [OF assms(2)] by (simp add: hex02_def nibbles)
qed

lemma length_hex02 [simp]: "length (hex02 b) = 2"
  by (simp add: hex02_def)

text \<open>The text of the bytes \<open>bs\<close> from position \<open>i\<close> on, in the layout of the parser's loop.\<close>

primrec uuid_tail :: "nat \<Rightarrow> bytes \<Rightarrow> bytes" where
  "uuid_tail i [] = []"
| "uuid_tail i (b # bs) =
     (if uuid_dash i then 45 # hex02 b @ uuid_tail (i + 3) bs else hex02 b @ uuid_tail (i + 2) bs)"

definition uuid_stops :: "(nat \<times> nat) list" where
  "uuid_stops = [(0, 0), (2, 1), (4, 2), (6, 3), (8, 4), (9, 4), (11, 5), (13, 6), (14, 6), (16, 7), (18, 8), (19, 8),
     (21, 9), (23, 10), (24, 10), (26, 11), (28, 12), (30, 13), (32, 14), (34, 15), (36, 16)]"

lemma uuid_stops_step:
  assumes "(i, n) \<in> set uuid_stops" "i < 36"
  shows "if uuid_dash i then (i + 1, n) \<in> set uuid_stops \<and> \<not> uuid_dash (i + 1) \<and> i + 1 < 36
    else (i + 2, n + 1) \<in> set uuid_stops \<and> n < 16"
proof -
  have "list_all (\<lambda>(i, n). i < 36 \<longrightarrow>
      (if uuid_dash i then (i + 1, n) \<in> set uuid_stops \<and> \<not> uuid_dash (i + 1) \<and> i + 1 < 36
       else (i + 2, n + 1) \<in> set uuid_stops \<and> n < 16)) uuid_stops"
    by code_simp
  with assms show ?thesis unfolding list_all_iff by blast
qed

lemma uuid_stops_end: "(i, n) \<in> set uuid_stops \<Longrightarrow> i < 36 \<or> i = 36 \<and> n = 16"
proof -
  have "list_all (\<lambda>(i, n). i < 36 \<or> i = 36 \<and> n = 16) uuid_stops" by code_simp
  then show "(i, n) \<in> set uuid_stops \<Longrightarrow> ?thesis" unfolding list_all_iff by blast
qed

lemma uuid_tail_format:
  assumes "length u = 16"
  shows "wn_uuid_format u = uuid_tail 0 u" "length (wn_uuid_format u) = 36"
proof -
  have "u = map ((!) u) [0..<16]" using assms map_nth [of u] by simp
  then have u: "u = [u ! 0, u ! 1, u ! 2, u ! 3, u ! 4, u ! 5, u ! 6, u ! 7, u ! 8, u ! 9, u ! 10, u ! 11, u ! 12,
      u ! 13, u ! 14, u ! 15]"
    by (simp add: upt_rec eval_nat_numeral)
  show "length (wn_uuid_format u) = 36" by (simp add: wn_uuid_format_def snprintf_def)
  show "wn_uuid_format u = uuid_tail 0 u"
    by (subst u) (simp add: wn_uuid_format_def snprintf_def)
qed


text \<open>The parser's loop, from a position where \<open>n\<close> bytes are known.\<close>

lemma uuid_from_exact:
  assumes "(i, n) \<in> set uuid_stops" "length s = 36" "length out = 16"
  shows "uuid_from s i n out = (0, u) \<longleftrightarrow> length u = 16 \<and> take n u = take n out \<and> drop i s = uuid_tail i (drop n u)"
  using assms
proof (induction s i n out rule: uuid_from.induct)
  case (1 s i n out)
  note unfold = uuid_from.simps [of s i n out]
  consider "i = 36" "n = 16" | "i < 36" "uuid_dash i" | "i < 36" "\<not> uuid_dash i"
    using uuid_stops_end [OF 1(3)] by blast
  then show ?case
  proof cases
    case 1
    then have "uuid_from s i n out = (0, out)" using unfold by simp
    with 1 \<open>length s = 36\<close> \<open>length out = 16\<close> show ?thesis by auto
  next
    case 2
    have stop: "(i + 1, n) \<in> set uuid_stops" "\<not> uuid_dash (i + 1)" "i + 1 < 36"
      using uuid_stops_step [OF 1(3) 2(1)] 2(2) by auto
    have n: "n < 16" using uuid_stops_step [OF stop(1,3)] stop(2) by presburger
    have d: "drop i s = s ! i # drop (i + 1) s" using 2(1) 1(4) by (simp add: Cons_nth_drop_Suc)
    have tail: "uuid_tail i (drop n u) = 45 # uuid_tail (i + 1) (drop n u)" if "length u = 16"
      using n that 2(2) stop(2) by (cases "drop n u") auto
    show ?thesis
    proof (cases "s ! i = 45")
      case True
      with unfold 2 have "uuid_from s i n out = uuid_from s (i + 1) n out" by simp
      with 1(1) [OF 2] True stop(1) 1(4,5) d tail show ?thesis by auto
    next
      case False
      with unfold 2 have "uuid_from s i n out = (- 1, out)" by simp
      with False d tail show ?thesis by auto
    qed
  next
    case 3
    have stop: "(i + 2, n + 1) \<in> set uuid_stops" "n < 16"
      using uuid_stops_step [OF 1(3) 3(1)] 3(2) by auto
    have i1: "i + 1 < 36" using uuid_stops_end [OF stop(1)] by auto
    have d: "drop i s = s ! i # s ! (i + 1) # drop (i + 2) s"
      using i1 1(4) by (simp add: Cons_nth_drop_Suc)
    have tail: "uuid_tail i (drop n u) = hex02 (u ! n) @ uuid_tail (i + 2) (drop (n + 1) u)" if "length u = 16"
      using stop(2) that 3(2) by (simp flip: Cons_nth_drop_Suc)
    show ?thesis
    proof (cases "hex (s ! i) < 0 \<or> hex (s ! (i + 1)) < 0")
      case True
      then have "[s ! i, s ! (i + 1)] \<noteq> hex02 b" for b
        using hex02_read(1,2) [of b] by (auto simp: hex02_def)
      with True unfold 3 d tail show ?thesis by (auto simp: hex02_def Let_def)
    next
      case False
      let ?v = "word_of_int (hex (s ! i) * 16 + hex (s ! (i + 1))) :: u8"
      have v: "hex02 ?v = [s ! i, s ! (i + 1)]" using False by (intro hex02_written) auto
      have next_from: "uuid_from s i n out = uuid_from s (i + 2) (n + 1) (out[n := ?v])"
        using unfold 3 False by (simp add: Let_def)
      have IH: "uuid_from s (i + 2) (n + 1) (out[n := ?v]) = (0, u) \<longleftrightarrow> length u = 16 \<and>
          take (n + 1) u = take (n + 1) (out[n := ?v]) \<and> drop (i + 2) s = uuid_tail (i + 2) (drop (n + 1) u)"
        using 1(2) [OF 3 refl refl False stop(1) 1(4)] 1(5) by simp
      show ?thesis
      proof (cases "length u = 16")
        case len: True
        have head: "take (n + 1) u = take (n + 1) (out[n := ?v]) \<longleftrightarrow> take n u = take n out \<and> u ! n = ?v"
          using stop(2) 1(5) len by (simp add: take_Suc_conv_app_nth)
        have "drop i s = hex02 ?v @ drop (i + 2) s" unfolding d v by simp
        then have "drop i s = uuid_tail i (drop n u) \<longleftrightarrow> ?v = u ! n \<and> drop (i + 2) s = uuid_tail (i + 2) (drop (n + 1) u)"
          unfolding tail [OF len] by (simp add: hex02_inj)
        with head len show ?thesis unfolding next_from IH by argo
      qed (use next_from IH in argo)
    qed
  qed
qed

lemma wn_uuid_parse_exact:
  assumes "length out = 16"
  shows "wn_uuid_parse (Some s) out = (0, u) \<longleftrightarrow> length u = 16 \<and> s = wn_uuid_format u"
proof (cases "length s = 36")
  case True
  have "(0, 0) \<in> set uuid_stops" by (simp add: uuid_stops_def)
  from uuid_from_exact [OF this True assms, of u] True show ?thesis
    by (auto simp: wn_uuid_parse_def uuid_tail_format)
qed (auto simp: wn_uuid_parse_def uuid_tail_format(2))


lemma wn_uuid_parse_code: "fst (wn_uuid_parse s out) = 0 \<or> fst (wn_uuid_parse s out) = - 1"
proof -
  have "fst (uuid_from s i n out) = 0 \<or> fst (uuid_from s i n out) = - 1" for s i n out
    by (induction s i n out rule: uuid_from.induct) (subst (1 2) uuid_from.simps, auto simp: Let_def)
  then show ?thesis by (auto simp: wn_uuid_parse_def split: option.split)
qed

definition is_uuid :: "bytes \<Rightarrow> bool" where
  "is_uuid s \<longleftrightarrow> (\<exists>u. length u = 16 \<and> s = wn_uuid_format u)"

lemma wn_uuid_parse_accepts: "length out = 16 \<Longrightarrow> fst (wn_uuid_parse (Some s) out) = 0 \<longleftrightarrow> is_uuid s"
proof -
  assume out: "length out = 16"
  obtain r v where parsed: "wn_uuid_parse (Some s) out = (r, v)" by (cases "wn_uuid_parse (Some s) out")
  have "r = 0 \<longleftrightarrow> (\<exists>u. wn_uuid_parse (Some s) out = (0, u))" using parsed by auto
  also have "\<dots> \<longleftrightarrow> is_uuid s" unfolding wn_uuid_parse_exact [OF out] is_uuid_def ..
  finally show ?thesis unfolding parsed by simp
qed

lemma uuid_tail_chars: "x \<in> set (uuid_tail i bs) \<Longrightarrow> x = 45 \<or> x \<in> set hex_digits"
proof -
  have digit: "n < 16 \<Longrightarrow> hex_digits ! n \<in> set hex_digits" for n
    by (rule nth_mem) (simp add: hex_digits_def ascii_def)
  have "set (hex02 b) \<subseteq> set hex_digits" for b
  proof -
    have "unat b < 2 ^ LENGTH(8)" by (rule unsigned_less)
    then show ?thesis by (auto simp: hex02_def nibbles intro!: digit)
  qed
  then show "x \<in> set (uuid_tail i bs) \<Longrightarrow> ?thesis" by (induction bs arbitrary: i) (auto split: if_splits)
qed

lemma format_chars: "length u = 16 \<Longrightarrow> x \<in> set (wn_uuid_format u) \<Longrightarrow> x = 45 \<or> x \<in> set hex_digits"
  by (auto simp: uuid_tail_format dest: uuid_tail_chars)

lemma hex_digit_range: "x \<in> set hex_digits \<Longrightarrow> (48 \<le> unat x \<and> unat x \<le> 57) \<or> (97 \<le> unat x \<and> unat x \<le> 102)"
proof -
  have "list_all (\<lambda>x. (48 \<le> unat x \<and> unat x \<le> 57) \<or> (97 \<le> unat x \<and> unat x \<le> 102)) hex_digits" by code_simp
  then show "x \<in> set hex_digits \<Longrightarrow> ?thesis" by (simp add: list_all_iff)
qed

section \<open>Host names\<close>

lemma tolower_unat: "unat (tolower c) = (if 65 \<le> unat c \<and> unat c \<le> 90 then unat c + 32 else unat c)"
  by (auto simp: tolower_def word_le_nat_alt unat_word_ariths)

lemma strncasecmp_0:
  "no_nul b \<Longrightarrow> j + n \<le> length b \<Longrightarrow> strncasecmp_at a i b j n = 0 \<longleftrightarrow>
     map tolower (take n (drop i a)) = map tolower (take n (drop j b))"
proof (induction a i b j n rule: strncasecmp_at.induct)
  case (2 a i b j n)
  have b: "drop j b = b ! j # drop (j + 1) b" "j < length b" using 2(3) by (simp_all add: Cons_nth_drop_Suc)
  have "b ! j \<noteq> 0" using 2(2) nth_mem [OF b(2)] by (auto simp: no_nul_def)
  then have y: "tolower (b ! j) \<noteq> 0" using tolower_unat [of "b ! j"] by (auto simp: unat_eq_0 split: if_splits)
  show ?case
  proof (cases "i < length a")
    case True
    then have "drop i a = a ! i # drop (i + 1) a" by (simp add: Cons_nth_drop_Suc)
    with True b y 2 show ?thesis by (auto simp: char_at_def Let_def dest: word_uint_eqI)
  next
    case False
    have "tolower 0 = 0" by (simp add: tolower_def)
    with False b y show ?thesis by (auto simp: char_at_def Let_def uint_0_iff)
  qed
qed simp

definition strip_dot :: "bytes \<Rightarrow> bytes" where
  "strip_dot host = (if host \<noteq> [] \<and> host ! (length host - 1) = 46 then butlast host else host)"

lemma strip_dot_take: "strip_dot host = take (length (strip_dot host)) host"
  by (auto simp: strip_dot_def butlast_conv_take)

lemma host_matches_shape:
  assumes "no_nul suffix"
  shows "host_matches host (length (strip_dot host)) suffix \<longleftrightarrow> length (strip_dot host) = 43 + length suffix \<and>
    map tolower (strip_dot host) =
      map tolower (ascii ''device-'') @ map tolower (take 36 (drop 7 host)) @ map tolower suffix"
proof (cases "length (strip_dot host) = 43 + length suffix")
  case True
  have "strip_dot host = take 7 host @ take 36 (drop 7 host) @ take (length suffix) (drop 43 host)"
    using strip_dot_take [of host] take_add [of 7 36 host] unfolding True by (simp add: take_add)
  moreover have "7 \<le> length host" "length (ascii ''device-'') = 7"
    using True by (auto simp: strip_dot_def ascii_def split: if_splits)
  ultimately have "map tolower (strip_dot host) =
      map tolower (ascii ''device-'') @ map tolower (take 36 (drop 7 host)) @ map tolower suffix \<longleftrightarrow>
    map tolower (take 7 host) = map tolower (ascii ''device-'') \<and>
    map tolower (take (length suffix) (drop 43 host)) = map tolower suffix"
    by simp
  moreover have "strncasecmp_at host 0 (ascii ''device-'') 0 7 = 0 \<longleftrightarrow>
      map tolower (take 7 host) = map tolower (ascii ''device-'')"
    using strncasecmp_0 [of "ascii ''device-''" 0 7 host 0] by (simp add: no_nul_def ascii_def)
  moreover have "strncasecmp_at host 43 suffix 0 (length suffix) = 0 \<longleftrightarrow>
      map tolower (take (length suffix) (drop 43 host)) = map tolower suffix"
    using strncasecmp_0 [OF assms, of 0 "length suffix" host 43] by simp
  ultimately show ?thesis using True by (simp add: host_matches_def)
qed (simp add: host_matches_def)


lemma host_try_any:
  "host_try host sz xs device =
    (if \<exists>x \<in> set xs. host_matches host sz x
     then case wn_uuid_parse (Some (host_uuid host)) device of (r, device) \<Rightarrow> (if r \<noteq> 0 then - 1 else 1, device)
     else (0, device))"
  by (induction xs) simp_all

definition host_lower :: "u8 \<Rightarrow> u8" where
  "host_lower c = (if 65 \<le> c \<and> c \<le> 70 then c + 97 - 65 else c)"

lemma host_uuid_map: "43 \<le> length host \<Longrightarrow> host_uuid host = map host_lower (take 36 (drop 7 host))"
  by (rule nth_equalityI) (simp_all add: host_uuid_def host_lower_def Let_def)

text \<open>On the characters of a UUID, folding \<open>A\<close> to \<open>F\<close> is folding every letter.\<close>

lemma host_lower_iff:
  assumes "x = 45 \<or> x \<in> set hex_digits"
  shows "host_lower c = x \<longleftrightarrow> tolower c = x"
proof -
  have l: "unat (host_lower c) = (if 65 \<le> unat c \<and> unat c \<le> 70 then unat c + 32 else unat c)"
    by (auto simp: host_lower_def word_le_nat_alt unat_word_ariths)
  have x: "unat x = 45 \<or> (48 \<le> unat x \<and> unat x \<le> 57) \<or> (97 \<le> unat x \<and> unat x \<le> 102)"
    using assms hex_digit_range [of x] by auto
  then have "unat (host_lower c) = unat x \<longleftrightarrow> unat (tolower c) = unat x"
    unfolding l tolower_unat by auto
  then show ?thesis by (simp add: word_unat_eq_iff)
qed

lemma map_lower_iff:
  "(\<And>x. x \<in> set xs \<Longrightarrow> x = 45 \<or> x \<in> set hex_digits) \<Longrightarrow> map host_lower cs = xs \<longleftrightarrow> map tolower cs = xs"
proof (induction cs arbitrary: xs)
  case (Cons c cs)
  then show ?case by (cases xs) (auto simp: host_lower_iff)
qed auto

lemma suffixes_lower: "x \<in> set host_suffixes \<Longrightarrow> map tolower x = x \<and> no_nul x" "map tolower (ascii ''device-'') = ascii ''device-''"
proof -
  have "list_all (\<lambda>x. map tolower x = x \<and> no_nul x) host_suffixes" by code_simp
  then show "x \<in> set host_suffixes \<Longrightarrow> map tolower x = x \<and> no_nul x" by (simp add: list_all_iff)
  show "map tolower (ascii ''device-'') = ascii ''device-''" by code_simp
qed

text \<open>The name, folded and without the final dot, is \<open>device-\<close>, 36 characters and a known suffix.\<close>

definition host_shape :: "bytes \<Rightarrow> bytes \<Rightarrow> bool" where
  "host_shape host mid \<longleftrightarrow> length mid = 36 \<and>
     (\<exists>x \<in> set host_suffixes. map tolower (strip_dot host) = ascii ''device-'' @ mid @ x)"

lemma host_matches_any:
  "(\<exists>x \<in> set host_suffixes. host_matches host (length (strip_dot host)) x) \<longleftrightarrow>
     host_shape host (map tolower (take 36 (drop 7 host)))"
  "host_shape host mid \<Longrightarrow> mid = map tolower (take 36 (drop 7 host)) \<and> 43 \<le> length host"
proof -
  have le: "length (strip_dot host) \<le> length host" by (simp add: strip_dot_def)
  have m: "host_matches host (length (strip_dot host)) x \<longleftrightarrow> length (map tolower (take 36 (drop 7 host))) = 36 \<and>
      map tolower (strip_dot host) = ascii ''device-'' @ map tolower (take 36 (drop 7 host)) @ x"
    if "x \<in> set host_suffixes" for x
  proof -
    note h = host_matches_shape [of x host] suffixes_lower(1) [OF that] suffixes_lower(2)
    have "length (strip_dot host) = 43 + length x" if "map tolower (strip_dot host) =
        ascii ''device-'' @ map tolower (take 36 (drop 7 host)) @ x" "length (map tolower (take 36 (drop 7 host))) = 36"
      using arg_cong [OF that(1), of length] that(2) by (simp add: ascii_def)
    then show ?thesis using h le by auto
  qed
  then show "(\<exists>x \<in> set host_suffixes. host_matches host (length (strip_dot host)) x) \<longleftrightarrow>
     host_shape host (map tolower (take 36 (drop 7 host)))"
    by (auto simp: host_shape_def)
  show "mid = map tolower (take 36 (drop 7 host)) \<and> 43 \<le> length host" if shape: "host_shape host mid"
  proof -
    from shape obtain x where x: "length mid = 36" "map tolower (strip_dot host) = ascii ''device-'' @ mid @ x"
      by (auto simp: host_shape_def)
    have len: "length (strip_dot host) = 43 + length x" using arg_cong [OF x(2), of length] x(1) by (simp add: ascii_def)
    have "take 36 (drop 7 (map tolower (strip_dot host))) = mid" using x by (simp add: ascii_def)
    moreover have "take 36 (drop 7 (strip_dot host)) = take 36 (drop 7 host)"
      by (subst strip_dot_take) (simp add: len take_drop min_def)
    ultimately show ?thesis using len le by (simp add: drop_map take_map)
  qed
qed

lemma wn_device_hostname_parse_exact:
  assumes "length out = 16"
  shows "wn_device_hostname_parse (Some host) (Some out) = (1, Some d) \<longleftrightarrow> length d = 16 \<and> host_shape host (wn_uuid_format d)"
    and "fst (wn_device_hostname_parse (Some host) (Some out)) = 0 \<longleftrightarrow> \<not> (\<exists>mid. host_shape host mid)"
    and "fst (wn_device_hostname_parse (Some host) (Some out)) \<in> {- 1, 0, 1}"
proof -
  let ?mid = "map tolower (take 36 (drop 7 host))"
  have sz: "(let sz = length host in if sz \<noteq> 0 \<and> host ! (sz - 1) = 46 then sz - 1 else sz) = length (strip_dot host)"
    by (auto simp: strip_dot_def Let_def)
  obtain r v where p: "wn_uuid_parse (Some (host_uuid host)) out = (r, v)" by (cases "wn_uuid_parse (Some (host_uuid host)) out")
  have parsed: "wn_device_hostname_parse (Some host) (Some out) =
      (if host_shape host ?mid then (if r \<noteq> 0 then - 1 else 1, Some v) else (0, Some out))"
    using sz host_matches_any(1) [of host] by (simp add: wn_device_hostname_parse_def host_try_any p Let_def)
  have uuid: "r = 0 \<and> v = d \<longleftrightarrow> length d = 16 \<and> ?mid = wn_uuid_format d" if "host_shape host ?mid" for d
  proof -
    have "43 \<le> length host" using host_matches_any(2) [OF that] by blast
    then have "host_uuid host = map host_lower (take 36 (drop 7 host))" by (rule host_uuid_map)
    then show ?thesis
      using wn_uuid_parse_exact [OF assms, of "host_uuid host" d] format_chars [of d]
        map_lower_iff [of "wn_uuid_format d" "take 36 (drop 7 host)"] p by auto
  qed
  show "wn_device_hostname_parse (Some host) (Some out) = (1, Some d) \<longleftrightarrow> length d = 16 \<and> host_shape host (wn_uuid_format d)"
  proof
    assume "wn_device_hostname_parse (Some host) (Some out) = (1, Some d)"
    then have "host_shape host ?mid" "r = 0 \<and> v = d" by (auto simp: parsed split: if_splits)
    with uuid show "length d = 16 \<and> host_shape host (wn_uuid_format d)" by metis
  next
    assume a: "length d = 16 \<and> host_shape host (wn_uuid_format d)"
    then have "wn_uuid_format d = ?mid" using host_matches_any(2) by blast
    with a have "host_shape host ?mid" "r = 0 \<and> v = d" using uuid [of d] by auto
    then show "wn_device_hostname_parse (Some host) (Some out) = (1, Some d)" by (simp add: parsed)
  qed
  show "fst (wn_device_hostname_parse (Some host) (Some out)) = 0 \<longleftrightarrow> \<not> (\<exists>mid. host_shape host mid)"
    using host_matches_any(2) by (auto simp: parsed)
  show "fst (wn_device_hostname_parse (Some host) (Some out)) \<in> {- 1, 0, 1}" by (simp add: parsed)
qed


section \<open>Principals\<close>

definition spiffe :: "bytes \<Rightarrow> bytes \<Rightarrow> bytes" where
  "spiffe tenant device = ascii ''spiffe://wendy.sh/tenant/'' @ tenant @ ascii ''/device/'' @ device"

lemma is_uuid_length: "is_uuid s \<Longrightarrow> length s = 36"
  by (auto simp: is_uuid_def uuid_tail_format(2))

lemma is_uuid_no_nul: "is_uuid s \<Longrightarrow> no_nul s"
proof -
  assume "is_uuid s"
  then obtain u where u: "length u = 16" "s = wn_uuid_format u" by (auto simp: is_uuid_def)
  show "no_nul s"
    unfolding no_nul_def
  proof
    assume "0 \<in> set s"
    with format_chars [OF u(1), of 0] hex_digit_range [of 0] show False by (auto simp: u(2))
  qed
qed

lemma wn_principal_exact:
  "wn_principal (Some t) (Some d) out = (if is_uuid t \<and> is_uuid d then (105, spiffe t d) else (- 1, out))"
proof (cases "is_uuid t \<and> is_uuid d")
  case True
  then have "length (spiffe t d) = 105" by (simp add: spiffe_def is_uuid_length ascii_def)
  with True show ?thesis
    by (simp add: wn_principal_def wn_uuid_parse_accepts snprintf_def flip: spiffe_def)
next
  case False
  then show ?thesis by (auto simp: wn_principal_def wn_uuid_parse_accepts)
qed

lemma spiffe_no_nul: "no_nul t \<Longrightarrow> no_nul d \<Longrightarrow> no_nul (spiffe t d)"
proof -
  have "no_nul (ascii ''spiffe://wendy.sh/tenant/'')" "no_nul (ascii ''/device/'')" by code_simp+
  then show "no_nul t \<Longrightarrow> no_nul d \<Longrightarrow> no_nul (spiffe t d)" by (simp add: spiffe_def no_nul_def)
qed

lemma drop_spiffe: "length t = 36 \<Longrightarrow> drop 69 (spiffe t d) = d" "length t = 36 \<Longrightarrow> length (spiffe t d) = 69 + length d"
  by (simp_all add: spiffe_def ascii_def)

lemma wn_principal_device_exact:
  assumes "length device = 16" "no_nul s"
  shows "wn_principal_device (Some s) tenant device = (0, u) \<longleftrightarrow>
    length u = 16 \<and> (\<exists>t. tenant = Some t \<and> is_uuid t \<and> s = spiffe t (wn_uuid_format u))"
proof
  assume r: "wn_principal_device (Some s) tenant device = (0, u)"
  obtain r v where p: "wn_uuid_parse (Some (drop 69 s)) device = (r, v)" by fastforce
  from r p have ok: "r = 0" "v = u" by (auto simp: wn_principal_device_def split: if_splits prod.splits)
  with p have "wn_uuid_parse (Some (drop 69 s)) device = (0, u)" by simp
  then have u: "length u = 16" "drop 69 s = wn_uuid_format u" by (simp_all add: wn_uuid_parse_exact [OF assms(1)])
  then have du: "is_uuid (drop 69 s)" by (auto simp: is_uuid_def)
  obtain n e where pr: "wn_principal tenant (Some (drop 69 s)) [] = (n, e)" by fastforce
  from r p ok pr have n: "\<not> n < 0" "strcmp s e = 0"
    by (auto simp: wn_principal_device_def split: if_splits)
  show "length u = 16 \<and> (\<exists>t. tenant = Some t \<and> is_uuid t \<and> s = spiffe t (wn_uuid_format u))"
  proof (cases tenant)
    case None
    with pr n show ?thesis by (auto simp: wn_principal_def)
  next
    case (Some t)
    with pr n have t: "is_uuid t" "e = spiffe t (drop 69 s)" by (auto simp: wn_principal_exact split: if_splits)
    have "no_nul e" unfolding t(2) by (intro spiffe_no_nul is_uuid_no_nul t(1) du)
    with n(2) assms(2) have "s = e" by (simp add: strcmp_0)
    with t Some u show ?thesis by auto
  qed
next
  assume a: "length u = 16 \<and> (\<exists>t. tenant = Some t \<and> is_uuid t \<and> s = spiffe t (wn_uuid_format u))"
  then obtain t where t: "tenant = Some t" "is_uuid t" "s = spiffe t (wn_uuid_format u)" by blast
  have u: "length u = 16" "is_uuid (wn_uuid_format u)" using a by (auto simp: is_uuid_def)
  have d: "drop 69 s = wn_uuid_format u" "length s = 105"
    using t is_uuid_length [OF t(2)] drop_spiffe [of t "wn_uuid_format u"] u by (simp_all add: uuid_tail_format(2))
  have "wn_uuid_parse (Some (drop 69 s)) device = (0, u)" by (simp add: wn_uuid_parse_exact [OF assms(1)] d u)
  moreover have "strcmp s s = 0" by (rule strcmp_0 [THEN iffD2, OF assms(2) assms(2) refl])
  ultimately show "wn_principal_device (Some s) tenant device = (0, u)"
    using d t u by (simp add: wn_principal_device_def wn_principal_exact)
qed

section \<open>What the writers write\<close>

lemma finish_calls_result:
  fixes store cap maximum cs
  defines "bs \<equiv> concat (map call_bytes cs)"
  assumes "\<forall>c \<in> set cs. call_wf c"
  shows "fst (finish_calls store cap maximum cs) =
    (if (\<forall>c \<in> set cs. call_ok c) \<and> fits store cap maximum (length bs) \<and> bs \<noteq> [] \<and> length bs \<le> 2147483647
     then int (length bs) else - 1)"
    and "0 \<le> fst (finish_calls True cap maximum cs) \<Longrightarrow> take (length bs) (snd (finish_calls True cap maximum cs)) = bs"
proof -
  have w: "if (\<forall>c \<in> set cs. call_ok c) \<and> fits store cap maximum (length bs)
    then fold do_call cs (fresh_writer store cap maximum) = wrote store cap maximum bs
    else w_failed (fold do_call cs (fresh_writer store cap maximum))" for store
    using wn_calls_wrote [OF _ assms(2), where acc = "[]" and store = store and capacity = cap and maximum = maximum]
    by (simp add: bs_def fresh_writer_wrote fits_def)
  show "fst (finish_calls store cap maximum cs) =
    (if (\<forall>c \<in> set cs. call_ok c) \<and> fits store cap maximum (length bs) \<and> bs \<noteq> [] \<and> length bs \<le> 2147483647
     then int (length bs) else - 1)"
    using w [of store] by (auto simp: finish_calls_def wn_finish_def wrote_def split: if_splits)
  assume "0 \<le> fst (finish_calls True cap maximum cs)"
  then show "take (length bs) (snd (finish_calls True cap maximum cs)) = bs"
    using w [of True] by (auto simp: finish_calls_def wn_finish_def wrote_def split: if_splits)
qed


text \<open>The value a manifest is the encoding of.\<close>

definition field :: "string \<Rightarrow> cbor \<Rightarrow> bytes \<times> cbor" where
  "field k v = (wn_key_name (ascii k), v)"

definition manifest_name :: "bytes \<Rightarrow> bytes option \<Rightarrow> bytes" where
  "manifest_name self display_name =
     (case display_name of Some (c # cs) \<Rightarrow> c # cs | _ \<Rightarrow> ascii ''esp32-'' @ take 8 (wn_uuid_format self))"

definition endpoint_values :: "u16 \<Rightarrow> cbor list" where
  "endpoint_values app_port =
     (if app_port \<noteq> 0
      then [CMap [field ''port'' (CUint (ucast app_port)), field ''transport'' (CText (ascii ''tls-v1''))]] else [])"

definition route_value :: "bytes \<Rightarrow> wn_origin \<Rightarrow> cbor" where
  "route_value self origin = CMap [field ''prefix'' (CText (wn_prefix self)),
     field ''routerId'' (CUint (or_router_id origin)), field ''seqno'' (CUint (ucast (or_seqno origin)))]"

definition manifest_fields ::
  "bytes \<Rightarrow> wn_origin \<Rightarrow> u64 \<Rightarrow> int \<Rightarrow> int \<Rightarrow> u16 \<Rightarrow> u16 \<Rightarrow> bytes option \<Rightarrow> bool \<Rightarrow> cbor list \<Rightarrow> (bytes \<times> cbor) list" where
  "manifest_fields self origin revision issued expires port app_port display_name sensors services =
     [field ''agentPort'' (CUint (ucast port)), field ''revision'' (CUint revision),
      field ''agentTransport'' (CText (ascii ''mtls-v1'')), field ''appEndpoints'' (CArray (endpoint_values app_port)),
      field ''caps'' (CArray (if sensors then [CText (ascii ''sensors'')] else [])),
      field ''device'' (CText (wn_uuid_format self)), field ''Expires'' (CUint (word_of_int expires)),
      field ''Issued'' (CUint (word_of_int issued)), field ''platform'' (CText (ascii ''Lite'')),
      field ''name'' (CText (manifest_name self display_name)), field ''route'' (route_value self origin),
      field ''services'' (CArray services), field ''version'' (CUint 4)]"

definition wire_value :: "bytes \<Rightarrow> cbor \<Rightarrow> bytes \<Rightarrow> cbor" where
  "wire_value prin body signature =
     CMap [field ''body'' body, field ''principal'' (CText prin), field ''signature'' (CBytes signature)]"

definition kind_value :: "string \<Rightarrow> bytes \<Rightarrow> cbor" where
  "kind_value kind prin = CMap [field ''kind'' (CText (ascii kind)), field ''principal'' (CText prin)]"

text \<open>What the caller passes for the services: nothing, or the encoding of an array of them.\<close>

definition services_given :: "cbor list \<Rightarrow> bytes option \<Rightarrow> nat \<Rightarrow> bool" where
  "services_given services bs n \<longleftrightarrow>
     (case bs of None \<Rightarrow> services = [] | Some b \<Rightarrow> b = encode (CArray services) \<and> n = length b)"

lemma finish_calls_take:
  assumes "finish_calls True cap maximum cs = (r, out)" "0 \<le> r" "\<forall>c \<in> set cs. call_wf c"
  shows "take (nat r) out = concat (map call_bytes cs)" "nat r \<le> maximum" "nat r = length (concat (map call_bytes cs))"
  using finish_calls_result(1) [OF assms(3), where store = True and cap = cap and maximum = maximum]
    finish_calls_result(2) [OF assms(3), where cap = cap and maximum = maximum] assms(1,2)
  by (auto simp: fits_def split: if_splits)

lemma manifest_calls_wf: "services_given services sv n \<Longrightarrow>
  \<forall>c \<in> set (manifest_calls device prefix name origin revision issued expires port app_port display_name sensors sv n). call_wf c"
  by (cases sv) (auto simp: manifest_calls_def services_given_def)

lemma manifest_calls_bytes:
  assumes "length self = 16" "services_given services sv n"
  shows "concat (map call_bytes (manifest_calls (wn_uuid_format self) (wn_prefix self)
      (snd (snprintf 16 (ascii ''esp32-'' @ take 8 (wn_uuid_format self)))) origin revision issued expires port app_port
      display_name sensors sv n)) =
    encode (CMap (manifest_fields self origin revision issued expires port app_port display_name sensors services))"
proof -
  have name: "snd (snprintf 16 (ascii ''esp32-'' @ take 8 (wn_uuid_format self))) =
      ascii ''esp32-'' @ take 8 (wn_uuid_format self)"
    by (simp add: snprintf_def ascii_def)
  have shown: "(case display_name of Some (c # cs) \<Rightarrow> Some (c # cs) | _ \<Rightarrow> Some (ascii ''esp32-'' @ take 8 (wn_uuid_format self))) =
      Some (manifest_name self display_name)"
    by (simp add: manifest_name_def split: option.split list.split)
  have given: "concat (map call_bytes (case sv of Some d \<Rightarrow> [Raw (Some d) n] | None \<Rightarrow> [Array_head 0])) =
      encode (CArray services)"
    using assms(2) by (cases sv) (simp_all add: services_given_def given_def)
  show ?thesis
    unfolding manifest_calls_def map_append concat_append name shown given
    by (simp add: manifest_fields_def field_def text_bytes_def route_value_def endpoint_values_def)
qed

lemma manifest_written:
  assumes "length self = 16" "services_given services sv n"
    and "wn_manifest_services_write (Some self) (Some origin) revision issued expires port app_port display_name sensors
      sv n True cap = (r, out)" "0 \<le> r"
  shows "take (nat r) out =
      encode (CMap (manifest_fields self origin revision issued expires port app_port display_name sensors services))"
    and "revision \<noteq> 0" "or_router_id origin \<noteq> 0" "or_router_id origin \<noteq> UINT64_MAX" "0 < issued" "issued < expires"
    and "expires - issued \<le> 900000" "port \<noteq> 0" "length (manifest_name self display_name) \<le> 255" "nat r \<le> WN_MANIFEST_BODY_MAX"
proof -
  let ?calls = "manifest_calls (wn_uuid_format self) (wn_prefix self)
      (snd (snprintf 16 (ascii ''esp32-'' @ take 8 (wn_uuid_format self)))) origin revision issued expires port app_port
      display_name sensors sv n"
  have guards: "revision \<noteq> 0 \<and> or_router_id origin \<noteq> 0 \<and> or_router_id origin \<noteq> UINT64_MAX \<and> 0 < issued \<and> issued < expires \<and>
      expires - issued \<le> 900000 \<and> port \<noteq> 0 \<and> \<not> (case display_name of None \<Rightarrow> False | Some s \<Rightarrow> 255 < length s)"
    and w: "finish_calls True cap WN_MANIFEST_BODY_MAX ?calls = (r, out)"
    using assms(3,4) by (auto simp: wn_manifest_services_write_def Let_def split: if_splits)
  from guards show "revision \<noteq> 0" "or_router_id origin \<noteq> 0" "or_router_id origin \<noteq> UINT64_MAX" "0 < issued" "issued < expires"
    "expires - issued \<le> 900000" "port \<noteq> 0" by auto
  from guards show "length (manifest_name self display_name) \<le> 255"
    by (auto simp: manifest_name_def ascii_def split: option.splits list.splits)
  note f = finish_calls_take [OF w assms(4) manifest_calls_wf [OF assms(2)]]
  from f(2) show "nat r \<le> WN_MANIFEST_BODY_MAX" .
  from f(1) show "take (nat r) out =
      encode (CMap (manifest_fields self origin revision issued expires port app_port display_name sensors services))"
    unfolding manifest_calls_bytes [OF assms(1,2)] .
qed

lemma wire_written:
  assumes "wn_manifest_wire_write (Some prin) (Some (encode body)) (length (encode body)) (Some signature) (length signature)
      True cap = (r, out)" "0 \<le> r"
  shows "take (nat r) out = encode (wire_value prin body signature)" "nat r \<le> WN_MANIFEST_WIRE_MAX"
    and "length prin = 105" "8 \<le> length signature" "length signature \<le> WN_ORIGIN_SIGNATURE_MAX"
    and "length (encode body) \<le> WN_MANIFEST_BODY_MAX"
proof -
  let ?calls = "[Map_head 3, Key (ascii ''body''), Raw (Some (encode body)) (length (encode body)),
    Key (ascii ''principal''), Text (Some prin), Key (ascii ''signature''), Bytes (Some signature) (length signature)]"
  have w: "finish_calls True cap WN_MANIFEST_WIRE_MAX ?calls = (r, out)"
    and guards: "length prin = 105 \<and> 8 \<le> length signature \<and> length signature \<le> WN_ORIGIN_SIGNATURE_MAX \<and>
      length (encode body) \<le> WN_MANIFEST_BODY_MAX"
    using assms by (auto simp: wn_manifest_wire_write_def split: if_splits)
  from guards show "length prin = 105" "8 \<le> length signature" "length signature \<le> WN_ORIGIN_SIGNATURE_MAX"
    "length (encode body) \<le> WN_MANIFEST_BODY_MAX" by auto
  have wf: "\<forall>c \<in> set ?calls. call_wf c" by simp
  note f = finish_calls_take [OF w assms(2) wf]
  from f(2) show "nat r \<le> WN_MANIFEST_WIRE_MAX" .
  have "concat (map call_bytes ?calls) = encode (wire_value prin body signature)"
    by (simp add: wire_value_def field_def text_bytes_def given_def)
  with f(1) show "take (nat r) out = encode (wire_value prin body signature)" by simp
qed

lemma kind_written:
  assumes "kind_principal_write kind (Some prin) True cap = (r, out)" "0 \<le> r"
  shows "take (nat r) out = encode (kind_value kind prin)" "nat r \<le> WN_CONTROL_MAX"
proof -
  let ?calls = "[Map_head 2, Key (ascii ''kind''), Text (Some (ascii kind)), Key (ascii ''principal''), Text (Some prin)]"
  have w: "finish_calls True cap WN_CONTROL_MAX ?calls = (r, out)"
    using assms by (simp add: kind_principal_write_def)
  have wf: "\<forall>c \<in> set ?calls. call_wf c" by simp
  note f = finish_calls_take [OF w assms(2) wf]
  from f(2) show "nat r \<le> WN_CONTROL_MAX" .
  have "concat (map call_bytes ?calls) = encode (kind_value kind prin)"
    by (simp add: kind_value_def field_def text_bytes_def)
  with f(1) show "take (nat r) out = encode (kind_value kind prin)" by simp
qed


section \<open>Properties\<close>

text \<open>C31: the host name parser returns the device \<open>d\<close> exactly for the names that are, up to letter case
  and a final dot, \<open>device-\<close>, the text of \<open>d\<close> and a mesh suffix; it reports an ordinary name exactly when
  the name has no such shape, whatever its middle part; and it returns nothing but the three codes.\<close>

theorem hostname_exact:
  assumes "length out = 16"
  shows "(wn_device_hostname_parse (Some host) (Some out) = (1, Some d) \<longleftrightarrow>
      length d = 16 \<and> host_shape host (wn_uuid_format d)) \<and>
    (fst (wn_device_hostname_parse (Some host) (Some out)) = 0 \<longleftrightarrow> (\<nexists>mid. host_shape host mid)) \<and>
    fst (wn_device_hostname_parse (Some host) (Some out)) \<in> {- 1, 0, 1}"
  by (intro conjI wn_device_hostname_parse_exact [OF assms])

text \<open>C32: a principal is accepted for a tenant with the device \<open>u\<close> exactly when the tenant is a canonical
  UUID and the principal is the identifier of that tenant and that device, so the identifier that
  \<open>wn_principal\<close> composes is read back and no other text is.\<close>

theorem principal_exact:
  assumes "length device = 16" "no_nul s"
  shows "wn_principal_device (Some s) tenant device = (0, u) \<longleftrightarrow>
    length u = 16 \<and>
    (\<exists>t. tenant = Some t \<and> is_uuid t \<and> wn_principal tenant (Some (wn_uuid_format u)) [] = (105, s))"
proof -
  have "length u = 16 \<Longrightarrow> is_uuid (wn_uuid_format u)" by (auto simp: is_uuid_def)
  then show ?thesis using wn_principal_device_exact [OF assms] by (auto simp: wn_principal_exact)
qed

definition example_uuid :: bytes where
  "example_uuid = [1, 35, 69, 103, 137, 171, 205, 239, 1, 35, 69, 103, 137, 171, 205, 239]"

lemma example_text: "wn_uuid_format example_uuid = ascii ''01234567-89ab-cdef-0123-456789abcdef''" "length example_uuid = 16"
  by (simp_all add: wn_uuid_format_def snprintf_def hex02_def hex_digits_def ascii_def example_uuid_def)

theorem hostname_exact_witness:
  "wn_device_hostname_parse (Some (ascii ''Device-01234567-89AB-cdef-0123-456789abcDEF.mesh.LOCAL.''))
     (Some (replicate 16 0)) = (1, Some example_uuid) \<and>
   fst (wn_device_hostname_parse (Some (ascii ''device-x.mesh.local'')) (Some (replicate 16 0))) \<in> {- 1, 0, 1}"
proof -
  let ?host = "ascii ''Device-01234567-89AB-cdef-0123-456789abcDEF.mesh.LOCAL.''"
  have out: "length (replicate 16 (0 :: u8)) = 16" by simp
  have "map tolower (strip_dot ?host) = ascii ''device-'' @ wn_uuid_format example_uuid @ ascii ''.mesh.local''"
    by (simp add: example_text strip_dot_def ascii_def tolower_def)
  moreover have "length (wn_uuid_format example_uuid) = 36" by (simp add: example_text ascii_def)
  ultimately have "host_shape ?host (wn_uuid_format example_uuid)" by (auto simp: host_shape_def host_suffixes_def)
  with hostname_exact [OF out, of ?host example_uuid] example_text(2)
    hostname_exact [OF out, of "ascii ''device-x.mesh.local''"]
  show ?thesis by blast
qed

theorem principal_exact_witness:
  "wn_principal_device (Some (spiffe (wn_uuid_format example_uuid) (wn_uuid_format example_uuid)))
     (Some (wn_uuid_format example_uuid)) (replicate 16 0) = (0, example_uuid)"
proof -
  let ?t = "wn_uuid_format example_uuid"
  note len = example_text(2)
  then have u: "is_uuid ?t" by (auto simp: is_uuid_def)
  have "no_nul (spiffe ?t ?t)" by (intro spiffe_no_nul is_uuid_no_nul u)
  from principal_exact [OF _ this, of "replicate 16 0" "Some ?t" example_uuid] u len show ?thesis
    by (simp add: wn_principal_exact)
qed

end
