(* ===== verification/Peer_Selection.thy ===== *)
theory Peer_Selection
  imports Peer_Protocol "HOL-Library.Option_ord"
begin

text \<open>
  The table of link candidates of \<open>components/wendy_net_peer/src/selection.c\<close>: discovery hints, the
  dialling order, failures, holds and the commitment of a verified link. A \<open>char\<close> array that holds a C
  string is its bytes before the terminator; one that fills its array has none. The table has
  \<open>WN_CANDIDATES\<close> rows, which a build configures: it is the length of the list. \<open>ble\<close> says whether
  the build keeps the flag \<open>authenticated\<close>.
\<close>

unbundle bit_operations_syntax

section \<open>The table\<close>

record wn_candidate =
  ca_address :: bytes
  ca_device :: bytes
  ca_medium :: nat
  ca_port :: u16
  ca_cost :: u16
  ca_seen_ms :: int
  ca_retry_ms :: int
  ca_failed_ms :: int
  ca_failures :: nat
  ca_passive :: bool
  ca_ble_capabilities :: u8
  ca_holds :: u16
  ca_authenticated :: bool

record wn_selection =
  se_candidates :: "wn_candidate list"
  se_active :: int

definition zero_candidate_row :: wn_candidate where
  "zero_candidate_row = \<lparr>ca_address = [], ca_device = [], ca_medium = 0, ca_port = 0, ca_cost = 0, ca_seen_ms = 0,
     ca_retry_ms = 0, ca_failed_ms = 0, ca_failures = 0, ca_passive = False, ca_ble_capabilities = 0, ca_holds = 0,
     ca_authenticated = False\<rparr>"

abbreviation WN_LAN :: nat where "WN_LAN \<equiv> 1"
abbreviation WN_BLE :: nat where "WN_BLE \<equiv> 2"
abbreviation WN_NAN :: nat where "WN_NAN \<equiv> 3"
abbreviation WN_BLE_NATIVE_ACCEPTING :: u8 where "WN_BLE_NATIVE_ACCEPTING \<equiv> 1"
abbreviation WN_BLE_TIME_RELAY :: u8 where "WN_BLE_TIME_RELAY \<equiv> 2"
abbreviation (input) INT64_MAX :: int where "INT64_MAX \<equiv> 9223372036854775807"

definition wn_link_replaces :: "bytes \<Rightarrow> bytes \<Rightarrow> bool \<Rightarrow> bool \<Rightarrow> bool" where
  "wn_link_replaces self peer incumbent_incoming replacement_incoming =
     (incumbent_incoming \<noteq> replacement_incoming \<and> replacement_incoming = (0 < strcmp self peer))"

definition wn_selection_init :: "nat \<Rightarrow> wn_selection" where
  "wn_selection_init rows = \<lparr>se_candidates = replicate rows zero_candidate_row, se_active = - 1\<rparr>"

definition cand_live :: "wn_candidate \<Rightarrow> int \<Rightarrow> bool" where
  "cand_live c now \<longleftrightarrow> ca_address c \<noteq> [] \<and> ca_seen_ms c \<le> now \<and> now - ca_seen_ms c < 30000"

definition recent_failure :: "wn_candidate \<Rightarrow> int \<Rightarrow> bool" where
  "recent_failure c now \<longleftrightarrow> ca_failures c \<noteq> 0 \<and> ca_failed_ms c \<le> now \<and> now - ca_failed_ms c < 30000"

definition replaceable :: "wn_selection \<Rightarrow> nat \<Rightarrow> int \<Rightarrow> bool" where
  "replaceable s i now \<longleftrightarrow>
     (let c = se_candidates s ! i
      in int i \<noteq> se_active s \<and> ca_holds c = 0 \<and> ca_retry_ms c \<le> now \<and> \<not> recent_failure c now)"

section \<open>Discovery\<close>

definition same_endpoint :: "wn_candidate \<Rightarrow> wn_candidate \<Rightarrow> bool" where
  "same_endpoint c h \<longleftrightarrow> ca_medium c = ca_medium h \<and> ca_port c = ca_port h \<and> ca_address c = ca_address h"

definition hint_valid :: "wn_candidate \<Rightarrow> int \<Rightarrow> bool" where
  "hint_valid h now \<longleftrightarrow>
     \<not> (now < 0 \<or> INT64_MAX - 120000 < now \<or> ca_address h = [] \<or> 64 \<le> length (ca_address h) \<or>
        37 \<le> length (ca_device h) \<or> ca_port h = 0 \<or> ca_cost h = 0 \<or> ca_cost h = 65535 \<or>
        (ca_medium h \<noteq> WN_LAN \<and> ca_medium h \<noteq> WN_BLE \<and> ca_medium h \<noteq> WN_NAN)) \<and>
     \<not> (ca_device h \<noteq> [] \<and> fst (wn_uuid_parse (Some (ca_device h)) (replicate 16 0)) \<noteq> 0)"

text \<open>A repeated report of a known endpoint.\<close>

definition refresh_row :: "bool \<Rightarrow> bool \<Rightarrow> wn_candidate \<Rightarrow> wn_candidate \<Rightarrow> int \<Rightarrow> wn_candidate" where
  "refresh_row ble active c h now =
     (let c = c\<lparr>ca_seen_ms := now, ca_ble_capabilities := ca_ble_capabilities h\<rparr>
      in if \<not> active \<and> ca_holds c = 0 then
           let c = (if ca_device h \<noteq> [] then
                      c\<lparr>ca_authenticated := (if ble \<and> ca_device c \<noteq> ca_device h then False else ca_authenticated c),
                        ca_device := ca_device h\<rparr>
                    else c)
           in c\<lparr>ca_cost := ca_cost h, ca_passive := ca_passive h\<rparr>
         else c)"

text \<open>The scan: the row of the same endpoint, or the best expired and the best replaceable row, \<open>- 1\<close> for none.\<close>

fun seen_scan :: "wn_selection \<Rightarrow> wn_candidate \<Rightarrow> int \<Rightarrow> nat list \<Rightarrow> int \<Rightarrow> int \<Rightarrow> nat + int \<times> int" where
  "seen_scan s h now [] slot fifo = Inr (slot, fifo)"
| "seen_scan s h now (i # is) slot fifo =
     (let c = se_candidates s ! i
      in if same_endpoint c h then Inl i
         else if replaceable s i now then
           seen_scan s h now is
             (if \<not> cand_live c now \<and> (slot < 0 \<or> ca_seen_ms c < ca_seen_ms (se_candidates s ! nat slot)) then int i else slot)
             (if fifo < 0 \<or> ca_seen_ms c < ca_seen_ms (se_candidates s ! nat fifo) then int i else fifo)
         else seen_scan s h now is slot fifo)"

definition fresh_row :: "bool \<Rightarrow> wn_candidate \<Rightarrow> int \<Rightarrow> wn_candidate" where
  "fresh_row ble h now = h\<lparr>ca_seen_ms := now, ca_retry_ms := 0, ca_failed_ms := 0, ca_failures := 0, ca_holds := 0,
     ca_authenticated := (if ble then False else ca_authenticated h)\<rparr>"

definition wn_candidate_seen ::
  "bool \<Rightarrow> wn_selection \<Rightarrow> wn_candidate option \<Rightarrow> int \<Rightarrow> int \<times> wn_selection" where
  "wn_candidate_seen ble s hint now =
     (case hint of
        None \<Rightarrow> (- 1, s)
      | Some h \<Rightarrow>
          if \<not> hint_valid h now then (- 1, s)
          else case seen_scan s h now [0..<length (se_candidates s)] (- 1) (- 1) of
            Inl i \<Rightarrow> (int i, s\<lparr>se_candidates := (se_candidates s)[i :=
              refresh_row ble (int i = se_active s) (se_candidates s ! i) h now]\<rparr>)
          | Inr (slot, fifo) \<Rightarrow>
              let slot = (if slot < 0 then fifo else slot)
              in if slot < 0 then (- 1, s)
                 else (slot, s\<lparr>se_candidates := (se_candidates s)[nat slot := fresh_row ble h now]\<rparr>))"

section \<open>The dialling order\<close>

definition shuffle_random :: "u32 \<Rightarrow> u32" where
  "shuffle_random x =
     (let x = x XOR push_bit 13 x; x = x XOR drop_bit 17 x in x XOR push_bit 5 x)"

definition failure_after :: "wn_candidate \<Rightarrow> wn_candidate \<Rightarrow> int \<Rightarrow> bool" where
  "failure_after a b now =
     (let af = recent_failure a now; bf = recent_failure b now
      in if af \<noteq> bf then af else af \<and> ca_failed_ms b < ca_failed_ms a)"

definition dialable :: "wn_selection \<Rightarrow> int \<Rightarrow> nat \<Rightarrow> bool" where
  "dialable s now i \<longleftrightarrow>
     (let c = se_candidates s ! i
      in int i \<noteq> se_active s \<and> ca_holds c = 0 \<and> \<not> ca_passive c \<and>
         (ca_medium c \<noteq> WN_BLE \<or> ca_ble_capabilities c AND WN_BLE_NATIVE_ACCEPTING \<noteq> 0) \<and> cand_live c now \<and> ca_retry_ms c \<le> now)"

fun shuffle :: "u32 \<Rightarrow> nat \<Rightarrow> nat list \<Rightarrow> nat list" where
  "shuffle state 0 out = out"
| "shuffle state (Suc 0) out = out"
| "shuffle state (Suc (Suc m)) out =
     (let state = shuffle_random state; at = unat state mod Suc (Suc m); v = out ! Suc m
      in shuffle state (Suc m) (out[Suc m := out ! at, at := v]))"

primrec sift :: "wn_selection \<Rightarrow> int \<Rightarrow> nat \<Rightarrow> nat \<Rightarrow> nat list \<Rightarrow> nat list" where
  "sift s now v 0 out = out[0 := v]"
| "sift s now v (Suc at) out =
     (if failure_after (se_candidates s ! (out ! at)) (se_candidates s ! v) now
      then sift s now v at (out[Suc at := out ! at]) else out[Suc at := v])"

definition wn_candidate_order :: "wn_selection \<Rightarrow> int \<Rightarrow> u32 \<Rightarrow> nat list" where
  "wn_candidate_order s now random =
     (if now < 0 then []
      else
        let out = filter (dialable s now) [0..<length (se_candidates s)];
            out = shuffle (if random \<noteq> 0 then random else 0x6d2b79f5) (length out) out
        in fold (\<lambda>i out. sift s now (out ! i) i out) [1..<length out] out)"

fun next_best :: "wn_selection \<Rightarrow> nat list \<Rightarrow> int \<Rightarrow> int" where
  "next_best s [] best = best"
| "next_best s (i # is) best =
     (let c = se_candidates s ! i
      in if 0 \<le> se_active s \<and> ca_cost (se_candidates s ! nat (se_active s)) \<le> ca_cost c then next_best s is best
         else next_best s is (if best < 0 \<or> ca_cost c < ca_cost (se_candidates s ! nat best) then int i else best))"

definition wn_candidate_next :: "wn_selection \<Rightarrow> int \<Rightarrow> int" where
  "wn_candidate_next s now = next_best s (wn_candidate_order s now 0) (- 1)"

definition wn_candidate_time :: "wn_selection \<Rightarrow> int \<Rightarrow> nat \<Rightarrow> int" where
  "wn_candidate_time s now cursor =
     (let n = length (se_candidates s);
          relay = (\<lambda>i. let c = se_candidates s ! i
                       in ca_medium c = WN_BLE \<and> ca_ble_capabilities c AND WN_BLE_TIME_RELAY \<noteq> 0 \<and> cand_live c now)
      in if now < 0 then - 1
         else case List.find relay (map (\<lambda>step. (cursor + step) mod 4294967296 mod n) [0..<n]) of None \<Rightarrow> - 1 | Some i \<Rightarrow> int i)"


section \<open>Failures, verified links and holds\<close>

abbreviation used_slot :: "wn_selection \<Rightarrow> nat \<Rightarrow> bool" where
  "used_slot s slot \<equiv> slot < length (se_candidates s) \<and> ca_address (se_candidates s ! slot) \<noteq> []"

abbreviation with_row :: "wn_selection \<Rightarrow> nat \<Rightarrow> wn_candidate \<Rightarrow> wn_selection" where
  "with_row s slot c \<equiv> s\<lparr>se_candidates := (se_candidates s)[slot := c]\<rparr>"

definition wn_candidate_failed :: "wn_selection \<Rightarrow> nat \<Rightarrow> int \<Rightarrow> wn_selection" where
  "wn_candidate_failed s slot now =
     (if length (se_candidates s) \<le> slot \<or> now < 0 \<or> INT64_MAX - 5000 < now then s
      else
        let c = se_candidates s ! slot
        in if ca_address c = [] then s
           else
             let s = with_row s slot (c\<lparr>ca_failures := (if ca_failures c < 7 then ca_failures c + 1 else ca_failures c),
                       ca_failed_ms := now, ca_retry_ms := now + 5000\<rparr>)
             in if se_active s = int slot then s\<lparr>se_active := - 1\<rparr> else s)"

definition wn_candidate_authenticated :: "bool \<Rightarrow> wn_selection \<Rightarrow> nat \<Rightarrow> bytes option \<Rightarrow> int \<times> wn_selection" where
  "wn_candidate_authenticated ble s slot peer =
     (case peer of
        None \<Rightarrow> (- 1, s)
      | Some p \<Rightarrow>
          if \<not> used_slot s slot \<or> fst (wn_uuid_parse (Some p) (replicate 16 0)) \<noteq> 0 then (- 1, s)
          else
            let c = se_candidates s ! slot
            in if ca_device c \<noteq> [] \<and> ca_device c \<noteq> p then (- 1, s)
               else (0, with_row s slot (c\<lparr>ca_device := p, ca_authenticated := (if ble then True else ca_authenticated c)\<rparr>)))"

definition wn_candidate_commit :: "bool \<Rightarrow> wn_selection \<Rightarrow> nat \<Rightarrow> bytes option \<Rightarrow> int \<times> wn_selection" where
  "wn_candidate_commit ble s slot peer =
     (case wn_candidate_authenticated ble s slot peer of
        (r, s) \<Rightarrow>
          if r \<noteq> 0 then (- 1, s)
          else
            let c = se_candidates s ! slot
            in (0, (with_row s slot (c\<lparr>ca_failures := 0, ca_failed_ms := 0, ca_retry_ms := 0\<rparr>))\<lparr>se_active := int slot\<rparr>))"

definition wn_candidate_hold :: "wn_selection \<Rightarrow> nat \<Rightarrow> int \<times> wn_selection" where
  "wn_candidate_hold s slot =
     (if \<not> used_slot s slot \<or> ca_holds (se_candidates s ! slot) = 65535 then (- 1, s)
      else let c = se_candidates s ! slot in (0, with_row s slot (c\<lparr>ca_holds := ca_holds c + 1\<rparr>)))"

definition wn_candidate_release :: "wn_selection \<Rightarrow> nat \<Rightarrow> wn_selection" where
  "wn_candidate_release s slot =
     (if slot < length (se_candidates s) \<and> ca_holds (se_candidates s ! slot) \<noteq> 0
      then let c = se_candidates s ! slot in with_row s slot (c\<lparr>ca_holds := ca_holds c - 1\<rparr>) else s)"

section \<open>The order is a permutation, healthy rows first\<close>

definition rank :: "wn_selection \<Rightarrow> int \<Rightarrow> nat \<Rightarrow> int option" where
  "rank s now i = (let c = se_candidates s ! i in if recent_failure c now then Some (ca_failed_ms c) else None)"

lemma failure_after_rank: "failure_after (se_candidates s ! a) (se_candidates s ! b) now \<longleftrightarrow> rank s now b < rank s now a"
  by (simp add: failure_after_def rank_def Let_def)

lemma mset_swap_update:
  assumes "i < length xs" "j < length xs"
  shows "mset (xs[i := xs ! j, j := xs ! i]) = mset xs"
  using mset_swap [OF assms(2,1)] by simp

lemma mset_shuffle: "n \<le> length out \<Longrightarrow> mset (shuffle state n out) = mset out"
proof (induction state n out rule: shuffle.induct)
  case (3 state m out)
  let ?at = "unat (shuffle_random state) mod Suc (Suc m)"
  have "?at < Suc (Suc m)" by simp
  with 3(2) have at: "?at < length out" "Suc m < length out" by linarith+
  with 3(1) [OF refl refl refl] 3(2) mset_swap_update [OF at(2,1)] show ?case by (simp add: Let_def)
qed auto

lemma sift_shape:
  assumes "at < length out"
  obtains k where "k \<le> at" "sift s now v at out = take k out @ v # drop k (take at out) @ drop (at + 1) out"
    "\<forall>x \<in> set (drop k (take at out)). rank s now v < rank s now x"
    "k = 0 \<or> rank s now (out ! (k - 1)) \<le> rank s now v"
  using assms
proof (induction at arbitrary: out thesis)
  case 0
  then have "sift s now v 0 out = v # drop 1 out" by (cases out) auto
  then show ?case using 0(1) [of 0] by simp
next
  case (Suc at)
  show ?case
  proof (cases "rank s now v < rank s now (out ! at)")
    case True
    let ?out = "out[Suc at := out ! at]"
    from Suc.prems(2) have "at < length ?out" by simp
    then obtain k where k: "k \<le> at" "sift s now v at ?out = take k ?out @ v # drop k (take at ?out) @ drop (at + 1) ?out"
      "\<forall>x \<in> set (drop k (take at ?out)). rank s now v < rank s now x" "k = 0 \<or> rank s now (?out ! (k - 1)) \<le> rank s now v"
      using Suc.IH by blast
    have "drop (Suc at) ?out = out ! at # drop (Suc (Suc at)) out"
      using Suc.prems(2) by (simp add: drop_update_swap Cons_nth_drop_Suc [symmetric])
    moreover have "take at ?out = take at out" "take k ?out = take k out" using k(1) by auto
    moreover have "drop k (take (Suc at) out) = drop k (take at out) @ [out ! at]"
      using k(1) Suc.prems(2) by (simp add: take_Suc_conv_app_nth)
    ultimately have "sift s now v (Suc at) out = take k out @ v # drop k (take (Suc at) out) @ drop (Suc at + 1) out"
      using True k(2) by (simp add: failure_after_rank)
    moreover have "\<forall>x \<in> set (drop k (take (Suc at) out)). rank s now v < rank s now x"
      using k(3) True \<open>take at ?out = take at out\<close> \<open>drop k (take (Suc at) out) = drop k (take at out) @ [out ! at]\<close> by auto
    moreover have "k = 0 \<or> rank s now (out ! (k - 1)) \<le> rank s now v" using k(1,4) by auto
    ultimately show ?thesis using Suc.prems(1) [of k] k(1) by simp
  next
    case False
    then have "sift s now v (Suc at) out = take (Suc at) out @ v # drop (Suc (Suc at)) out"
      using Suc.prems(2) by (simp add: failure_after_rank upd_conv_take_nth_drop)
    moreover have "rank s now (out ! (Suc at - 1)) \<le> rank s now v" using False by simp
    ultimately show ?thesis using Suc.prems(1) [of "Suc at"] by simp
  qed
qed

lemma sift_sorts:
  assumes "i < length out" "sorted (map (rank s now) (take i out))"
  shows "mset (sift s now (out ! i) i out) = mset out" "sorted (map (rank s now) (take (Suc i) (sift s now (out ! i) i out)))"
    "length (sift s now (out ! i) i out) = length out"
proof -
  let ?v = "out ! i" and ?r = "sift s now (out ! i) i out"
  obtain k where k: "k \<le> i" "?r = take k out @ ?v # drop k (take i out) @ drop (i + 1) out"
    "\<forall>x \<in> set (drop k (take i out)). rank s now ?v < rank s now x" "k = 0 \<or> rank s now (out ! (k - 1)) \<le> rank s now ?v"
    by (rule sift_shape [OF assms(1)])
  have split: "out = take k out @ drop k (take i out) @ ?v # drop (i + 1) out"
  proof -
    have "take i out = take k out @ drop k (take i out)" using k(1) by (metis append_take_drop_id min.absorb1 take_take)
    moreover have "out = take i out @ ?v # drop (i + 1) out" using assms(1) by (simp add: id_take_nth_drop)
    ultimately show ?thesis by (metis append.assoc)
  qed
  show m: "mset ?r = mset out" unfolding k(2) by (subst (5) split) simp
  then show "length ?r = length out" by (metis size_mset)
  have "length (take k out @ ?v # drop k (take i out)) = Suc i" using k(1) assms(1) by simp
  then have t: "take (Suc i) ?r = take k out @ ?v # drop k (take i out)" unfolding k(2)
    by (metis append.assoc append_Cons append_eq_conv_conj)
  have sk: "sorted (map (rank s now) (take k out))" "sorted (map (rank s now) (drop k (take i out)))"
    using assms(2) k(1) by (metis min.absorb1 sorted_wrt_take take_map take_take, metis drop_map sorted_wrt_drop)
  have below: "rank s now x \<le> rank s now ?v" if "x \<in> set (take k out)" for x
  proof -
    from that obtain j where j: "j < k" "x = out ! j" using k(1) assms(1) by (auto simp: in_set_conv_nth)
    then have "rank s now (out ! j) \<le> rank s now (out ! (k - 1))"
      using sorted_nth_mono [OF sk(1), of j "k - 1"] k(1) assms(1) by simp
    with j k(4) show ?thesis by auto
  qed
  show "sorted (map (rank s now) (take (Suc i) ?r))"
  proof -
    have "rank s now x \<le> rank s now y" if "x \<in> set (take k out)" "y \<in> set (drop k (take i out))" for x y
      using below [OF that(1)] k(3) that(2) by (blast intro: order_trans less_imp_le)
    then show ?thesis unfolding t using sk below k(3) by (auto simp: sorted_append intro: less_imp_le)
  qed
qed


lemma sift_fold:
  "n \<le> length out \<Longrightarrow>
    mset (fold (\<lambda>i out. sift s now (out ! i) i out) [1..<n] out) = mset out \<and>
    sorted (map (rank s now) (take n (fold (\<lambda>i out. sift s now (out ! i) i out) [1..<n] out)))"
proof (induction n)
  case (Suc n)
  show ?case
  proof (cases "n = 0")
    case True
    then show ?thesis by (cases out) auto
  next
    case False
    let ?r = "fold (\<lambda>i out. sift s now (out ! i) i out) [1..<n] out"
    from Suc have IH: "mset ?r = mset out" "sorted (map (rank s now) (take n ?r))" by auto
    have "n < length ?r" using Suc.prems mset_eq_length [OF IH(1)] by simp
    note sorts = sift_sorts [OF this IH(2)]
    have "fold (\<lambda>i out. sift s now (out ! i) i out) [1..<Suc n] out = sift s now (?r ! n) n ?r" using False by simp
    then show ?thesis using sorts IH(1) by (simp only:)
  qed
qed simp

lemma wn_candidate_order_spec:
  assumes "0 \<le> now"
  shows "mset (wn_candidate_order s now random) = mset (filter (dialable s now) [0..<length (se_candidates s)])"
    and "sorted (map (rank s now) (wn_candidate_order s now random))"
proof -
  let ?f = "filter (dialable s now) [0..<length (se_candidates s)]"
  let ?out = "shuffle (if random \<noteq> 0 then random else 0x6d2b79f5) (length ?f) ?f"
  have m: "mset ?out = mset ?f" by (rule mset_shuffle) simp
  note f = sift_fold [of "length ?out" ?out s now, OF order_refl]
  have eq: "wn_candidate_order s now random = fold (\<lambda>i out. sift s now (out ! i) i out) [1..<length ?out] ?out"
    using assms by (simp add: wn_candidate_order_def Let_def)
  have r: "mset (wn_candidate_order s now random) = mset ?out" unfolding eq using f by (rule conjunct1)
  then show "mset (wn_candidate_order s now random) = mset ?f" using m by (rule trans)
  have "take (length ?out) (wn_candidate_order s now random) = wn_candidate_order s now random"
    using mset_eq_length [OF r] by (intro take_all) (rule eq_imp_le)
  then show "sorted (map (rank s now) (wn_candidate_order s now random))"
    using conjunct2 [OF f, folded eq] by (simp only:)
qed

section \<open>The rows stay well formed\<close>

definition row_ok :: "wn_candidate \<Rightarrow> bool" where
  "row_ok c \<longleftrightarrow> ca_failures c \<le> 7 \<and>
     (if ca_address c = [] then ca_holds c = 0
      else length (ca_address c) < 64 \<and> ca_port c \<noteq> 0 \<and> ca_cost c \<noteq> 0 \<and> ca_cost c \<noteq> 65535 \<and>
        ca_medium c \<in> {WN_LAN, WN_BLE, WN_NAN} \<and> (ca_device c = [] \<or> is_uuid (ca_device c)))"

definition table_ok :: "wn_selection \<Rightarrow> bool" where
  "table_ok s \<longleftrightarrow> (\<forall>c \<in> set (se_candidates s). row_ok c) \<and>
     (\<forall>i j. used_slot s i \<longrightarrow> j < length (se_candidates s) \<longrightarrow>
        same_endpoint (se_candidates s ! i) (se_candidates s ! j) \<longrightarrow> i = j) \<and>
     (se_active s = - 1 \<or>
      0 \<le> se_active s \<and> used_slot s (nat (se_active s)) \<and> is_uuid (ca_device (se_candidates s ! nat (se_active s))))"

text \<open>One call of the interface, with any arguments.\<close>

datatype sel_call =
    Sel_seen "wn_candidate option" int | Sel_failed nat int
  | Sel_authenticated nat "bytes option" | Sel_commit nat "bytes option"
  | Sel_hold nat | Sel_release nat

fun sel_apply :: "bool \<Rightarrow> wn_selection \<Rightarrow> sel_call \<Rightarrow> wn_selection" where
  "sel_apply ble s (Sel_seen hint now) = snd (wn_candidate_seen ble s hint now)"
| "sel_apply ble s (Sel_failed slot now) = wn_candidate_failed s slot now"
| "sel_apply ble s (Sel_authenticated slot peer) = snd (wn_candidate_authenticated ble s slot peer)"
| "sel_apply ble s (Sel_commit slot peer) = snd (wn_candidate_commit ble s slot peer)"
| "sel_apply ble s (Sel_hold slot) = snd (wn_candidate_hold s slot)"
| "sel_apply ble s (Sel_release slot) = wn_candidate_release s slot"

text \<open>
  The identity a call presents for a row: the caller verified it on a link to the row's endpoint. All
  identities presented so far, with the endpoint each was verified on, are recorded beside the table.
\<close>

fun presents :: "sel_call \<Rightarrow> nat \<Rightarrow> bytes option" where
  "presents (Sel_authenticated slot peer) i = (if i = slot then peer else None)"
| "presents (Sel_commit slot peer) i = (if i = slot then peer else None)"
| "presents _ i = None"

fun discovery :: "sel_call \<Rightarrow> bool" where
  "discovery (Sel_seen _ _) = True"
| "discovery _ = False"

definition link_of :: "wn_candidate \<Rightarrow> nat \<times> u16 \<times> bytes" where
  "link_of c = (ca_medium c, ca_port c, ca_address c)"

definition presented :: "wn_selection \<Rightarrow> sel_call \<Rightarrow> ((nat \<times> u16 \<times> bytes) \<times> bytes) set" where
  "presented s call = {(link_of (se_candidates s ! i), p) | i p. i < length (se_candidates s) \<and> presents call i = Some p}"

inductive sel_reachable :: "bool \<Rightarrow> nat \<Rightarrow> ((nat \<times> u16 \<times> bytes) \<times> bytes) set \<Rightarrow> wn_selection \<Rightarrow> bool" for ble rows where
  init: "sel_reachable ble rows {} (wn_selection_init rows)"
| step: "sel_reachable ble rows V s \<Longrightarrow> sel_reachable ble rows (V \<union> presented s call) (sel_apply ble s call)"

text \<open>A row whose device is relied on as verified: the active one, and those that carry the flag.\<close>

definition trusted :: "bool \<Rightarrow> wn_selection \<Rightarrow> nat \<Rightarrow> bool" where
  "trusted ble s i \<longleftrightarrow> i < length (se_candidates s) \<and>
     (se_active s = int i \<or> ble \<and> ca_authenticated (se_candidates s ! i))"

definition backed :: "((nat \<times> u16 \<times> bytes) \<times> bytes) set \<Rightarrow> bool \<Rightarrow> wn_selection \<Rightarrow> bool" where
  "backed V ble s \<longleftrightarrow> (\<forall>i. trusted ble s i \<longrightarrow>
     (link_of (se_candidates s ! i), ca_device (se_candidates s ! i)) \<in> V)"

text \<open>A row whose endpoint an owner relies on.\<close>

definition row_owned :: "wn_selection \<Rightarrow> nat \<Rightarrow> bool" where
  "row_owned s i \<longleftrightarrow> i < length (se_candidates s) \<and> (ca_holds (se_candidates s ! i) \<noteq> 0 \<or> se_active s = int i)"

text \<open>A row keeps its endpoint, its cost and its device, which may become known when a call presents it.\<close>

definition kept_row :: "bytes option \<Rightarrow> wn_candidate \<Rightarrow> wn_candidate \<Rightarrow> bool" where
  "kept_row peer c c' \<longleftrightarrow> same_endpoint c' c \<and> ca_cost c' = ca_cost c \<and>
     (ca_device c' = ca_device c \<or> ca_device c = [] \<and> peer = Some (ca_device c'))"

lemma backed_row:
  assumes "backed V ble s" "V \<subseteq> V'" "a = se_active s \<or> a = int i \<or> a = - 1"
    and "a = int i \<or> ble \<and> ca_authenticated c \<Longrightarrow> i < length (se_candidates s) \<Longrightarrow> (link_of c, ca_device c) \<in> V'"
  shows "backed V' ble (s\<lparr>se_candidates := (se_candidates s)[i := c], se_active := a\<rparr>)"
proof -
  let ?t = "s\<lparr>se_candidates := (se_candidates s)[i := c], se_active := a\<rparr>"
  have "(link_of (se_candidates ?t ! j), ca_device (se_candidates ?t ! j)) \<in> V'" if j: "trusted ble ?t j" for j
  proof (cases "j = i")
    case True
    with j assms(4) show ?thesis by (auto simp: trusted_def)
  next
    case False
    with j assms(3) have "trusted ble s j" by (auto simp: trusted_def)
    with assms(1,2) False show ?thesis by (auto simp: backed_def)
  qed
  then show ?thesis by (auto simp: backed_def)
qed

lemma backed_with_row:
  assumes "backed V ble s" "V \<subseteq> V'"
    and "se_active s = int i \<or> ble \<and> ca_authenticated c \<Longrightarrow> i < length (se_candidates s) \<Longrightarrow> (link_of c, ca_device c) \<in> V'"
  shows "backed V' ble (with_row s i c)"
  using backed_row [OF assms(1,2), of "se_active s" i c] assms(3) by simp

lemma backed_same_row:
  assumes "backed V ble s" "V \<subseteq> V'" "link_of c = link_of (se_candidates s ! i)"
    "ca_device c = ca_device (se_candidates s ! i)" "ca_authenticated c = ca_authenticated (se_candidates s ! i)"
  shows "backed V' ble (with_row s i c)"
  by (rule backed_with_row [OF assms(1,2)]) (use assms in \<open>auto simp: backed_def trusted_def\<close>)

lemma backed_mono: "backed V ble s \<Longrightarrow> V \<subseteq> V' \<Longrightarrow> backed V' ble s"
  by (auto simp: backed_def)

text \<open>Updating one row of a well-formed table.\<close>

lemma table_ok_update:
  assumes ok: "table_ok s" and i: "i < length (se_candidates s)" and row: "row_ok c"
    and unique_end: "\<And>j. j < length (se_candidates s) \<Longrightarrow> same_endpoint (se_candidates s ! j) c \<Longrightarrow> ca_address c \<noteq> [] \<Longrightarrow> j = i"
    and active: "a = - 1 \<or> 0 \<le> a \<and> nat a \<noteq> i \<and> a = se_active s \<or> a = int i \<and> ca_address c \<noteq> [] \<and> is_uuid (ca_device c)"
  shows "table_ok (s\<lparr>se_candidates := (se_candidates s)[i := c], se_active := a\<rparr>)"
proof -
  let ?t = "s\<lparr>se_candidates := (se_candidates s)[i := c], se_active := a\<rparr>"
  have rows: "\<forall>c \<in> set (se_candidates ?t). row_ok c"
    using ok row set_update_subset_insert [of "se_candidates s" i c] by (fastforce simp: table_ok_def)
  have unique: "k = j" if "used_slot ?t k" "j < length (se_candidates ?t)"
      "same_endpoint (se_candidates ?t ! k) (se_candidates ?t ! j)" for k j
  proof -
    consider "k = i" "j = i" | "k = i" "j \<noteq> i" | "k \<noteq> i" "j = i" | "k \<noteq> i" "j \<noteq> i" by blast
    then show ?thesis
    proof cases
      case 2
      with that i have "same_endpoint (se_candidates s ! j) c" "ca_address c \<noteq> []" by (auto simp: same_endpoint_def)
      with unique_end [of j] that 2 show ?thesis by auto
    next
      case 3
      with that i have "same_endpoint (se_candidates s ! k) c" "ca_address c \<noteq> []" by (auto simp: same_endpoint_def)
      with unique_end [of k] that 3 show ?thesis by auto
    next
      case 4
      with that ok show ?thesis by (auto simp: table_ok_def)
    qed simp
  qed
  have "a = - 1 \<or> 0 \<le> a \<and> used_slot ?t (nat a) \<and> is_uuid (ca_device (se_candidates ?t ! nat a))"
    using active i ok by (auto simp: table_ok_def)
  with rows unique show ?thesis by (auto simp: table_ok_def)
qed


lemma kept_row_refl [simp]: "kept_row peer c c"
  by (simp add: kept_row_def same_endpoint_def)

lemma seen_scan_Cons:
  "seen_scan s h now (i # is) slot fifo =
    (if same_endpoint (se_candidates s ! i) h then Inl i
     else if replaceable s i now then
       seen_scan s h now is
         (if \<not> cand_live (se_candidates s ! i) now \<and>
             (slot < 0 \<or> ca_seen_ms (se_candidates s ! i) < ca_seen_ms (se_candidates s ! nat slot)) then int i else slot)
         (if fifo < 0 \<or> ca_seen_ms (se_candidates s ! i) < ca_seen_ms (se_candidates s ! nat fifo) then int i else fifo)
     else seen_scan s h now is slot fifo)"
  by (simp add: Let_def)

declare seen_scan.simps(2) [simp del]

lemma seen_scan_Inl: "seen_scan s h now is slot fifo = Inl i \<Longrightarrow> i \<in> set is \<and> same_endpoint (se_candidates s ! i) h"
proof (induction "is" arbitrary: slot fifo)
  case (Cons j "is")
  show ?case
  proof (cases "same_endpoint (se_candidates s ! j) h")
    case True
    with Cons.prems show ?thesis by (simp add: seen_scan_Cons)
  next
    case False
    with Cons.prems have "\<exists>slot' fifo'. seen_scan s h now is slot' fifo' = Inl i"
      by (cases "replaceable s j now") (simp_all only: seen_scan_Cons if_True if_False, blast+)
    with Cons.IH show ?thesis by auto
  qed
qed simp

abbreviation no_or_replaceable :: "wn_selection \<Rightarrow> int \<Rightarrow> int \<Rightarrow> bool" where
  "no_or_replaceable s now k \<equiv> k < 0 \<or> nat k < length (se_candidates s) \<and> replaceable s (nat k) now"

lemma seen_scan_Inr:
  "seen_scan s h now is slot fifo = Inr (a, b) \<Longrightarrow> \<forall>i \<in> set is. i < length (se_candidates s) \<Longrightarrow>
    no_or_replaceable s now slot \<Longrightarrow> no_or_replaceable s now fifo \<Longrightarrow>
    (\<forall>i \<in> set is. \<not> same_endpoint (se_candidates s ! i) h) \<and> no_or_replaceable s now a \<and> no_or_replaceable s now b"
proof (induction "is" arbitrary: slot fifo)
  case (Cons i "is")
  show ?case
  proof (cases "same_endpoint (se_candidates s ! i) h \<or> \<not> replaceable s i now")
    case True
    with Cons.prems have "\<not> same_endpoint (se_candidates s ! i) h" "seen_scan s h now is slot fifo = Inr (a, b)"
      unfolding seen_scan_Cons by (auto split: if_splits)
    with Cons show ?thesis by simp
  next
    case False
    let ?c = "se_candidates s ! i"
    let ?slot = "if \<not> cand_live ?c now \<and> (slot < 0 \<or> ca_seen_ms ?c < ca_seen_ms (se_candidates s ! nat slot)) then int i else slot"
    let ?fifo = "if fifo < 0 \<or> ca_seen_ms ?c < ca_seen_ms (se_candidates s ! nat fifo) then int i else fifo"
    have "no_or_replaceable s now ?slot" "no_or_replaceable s now ?fifo"
      using Cons.prems(2-4) False by auto
    moreover have "seen_scan s h now is ?slot ?fifo = Inr (a, b)" using Cons.prems(1) False unfolding seen_scan_Cons by simp
    ultimately show ?thesis using Cons.IH [of ?slot ?fifo] Cons.prems(2) False by simp
  qed
qed simp

lemma hint_valid_row:
  assumes "hint_valid h now"
  shows "ca_address h \<noteq> []" "length (ca_address h) < 64" "ca_port h \<noteq> 0" "ca_cost h \<noteq> 0" "ca_cost h \<noteq> 65535"
    "ca_medium h \<in> {WN_LAN, WN_BLE, WN_NAN}" "ca_device h = [] \<or> is_uuid (ca_device h)"
  using assms wn_uuid_parse_accepts [of "replicate 16 0" "ca_device h"] by (auto simp: hint_valid_def)

lemma refresh_row_facts:
  "same_endpoint (refresh_row ble active c h now) c" "ca_failures (refresh_row ble active c h now) = ca_failures c"
  "ca_holds (refresh_row ble active c h now) = ca_holds c"
  "ca_cost (refresh_row ble active c h now) = (if \<not> active \<and> ca_holds c = 0 then ca_cost h else ca_cost c)"
  "ca_device (refresh_row ble active c h now) =
    (if \<not> active \<and> ca_holds c = 0 \<and> ca_device h \<noteq> [] then ca_device h else ca_device c)"
  by (auto simp: refresh_row_def Let_def same_endpoint_def)

lemma active_cases:
  "table_ok s \<Longrightarrow> i < length (se_candidates s) \<Longrightarrow>
    se_active s = - 1 \<or> 0 \<le> se_active s \<and> nat (se_active s) \<noteq> i \<or>
    se_active s = int i \<and> ca_address (se_candidates s ! i) \<noteq> [] \<and> is_uuid (ca_device (se_candidates s ! i))"
  by (auto simp: table_ok_def)

text \<open>A row replaced by one of the same endpoint keeps the table well formed, if the row itself is.\<close>

lemma table_ok_same:
  assumes "table_ok s" "i < length (se_candidates s)" "row_ok c" "same_endpoint c (se_candidates s ! i)"
    and "se_active s = int i \<Longrightarrow> ca_device c = ca_device (se_candidates s ! i)"
  shows "table_ok (with_row s i c)"
proof -
  have "table_ok (s\<lparr>se_candidates := (se_candidates s)[i := c], se_active := se_active s\<rparr>)"
  proof (rule table_ok_update [OF assms(1-3)])
    fix j assume j: "j < length (se_candidates s)" "same_endpoint (se_candidates s ! j) c" "ca_address c \<noteq> []"
    then have "same_endpoint (se_candidates s ! j) (se_candidates s ! i)" "ca_address (se_candidates s ! j) \<noteq> []"
      using assms(4) by (auto simp: same_endpoint_def)
    with assms(1,2) j(1) show "j = i" unfolding table_ok_def by blast
  qed (use active_cases [OF assms(1,2)] assms(4,5) in \<open>auto simp: same_endpoint_def\<close>)
  then show ?thesis by simp
qed

lemma row_ok_nth: "table_ok s \<Longrightarrow> i < length (se_candidates s) \<Longrightarrow> row_ok (se_candidates s ! i)"
  by (auto simp: table_ok_def)

text \<open>The rows \<open>G\<close> are kept, up to the identities \<open>P\<close> presents.\<close>

definition keeps :: "(nat \<Rightarrow> bool) \<Rightarrow> (nat \<Rightarrow> bytes option) \<Rightarrow> wn_selection \<Rightarrow> wn_selection \<Rightarrow> bool" where
  "keeps G P s t \<longleftrightarrow> length (se_candidates t) = length (se_candidates s) \<and>
     (\<forall>i < length (se_candidates s). G i \<longrightarrow> kept_row (P i) (se_candidates s ! i) (se_candidates t ! i))"

lemma keeps_refl [simp]: "keeps G P s s"
  by (simp add: keeps_def)

lemma keeps_row:
  assumes "i < length (se_candidates s) \<Longrightarrow> G i \<Longrightarrow> kept_row (P i) (se_candidates s ! i) c"
  shows "keeps G P s (with_row s i c)"
proof -
  have "kept_row (P j) (se_candidates s ! j) ((se_candidates s)[i := c] ! j)" if "j < length (se_candidates s)" "G j" for j
    using assms that by (cases "j = i") simp_all
  then show ?thesis by (simp add: keeps_def)
qed

abbreviation every :: "nat \<Rightarrow> bool" where
  "every i \<equiv> True"

lemma seen_ok:
  assumes "table_ok s"
  shows "table_ok (snd (wn_candidate_seen ble s hint now)) \<and>
    keeps (row_owned s) (\<lambda>_. None) s (snd (wn_candidate_seen ble s hint now)) \<and>
    (backed V ble s \<longrightarrow> backed V ble (snd (wn_candidate_seen ble s hint now)))"
proof (cases hint)
  case None
  with assms show ?thesis by (simp add: wn_candidate_seen_def)
next
  case (Some h)
  show ?thesis
  proof (cases "hint_valid h now")
    case False
    with assms Some show ?thesis by (simp add: wn_candidate_seen_def)
  next
    case True
    note h = hint_valid_row [OF True]
    show ?thesis
    proof (cases "seen_scan s h now [0..<length (se_candidates s)] (- 1) (- 1)")
      case (Inl i)
      let ?c = "se_candidates s ! i"
      let ?r = "refresh_row ble (int i = se_active s) ?c h now"
      from seen_scan_Inl [OF Inl] have i: "i < length (se_candidates s)" "same_endpoint ?c h" by auto
      have "snd (wn_candidate_seen ble s hint now) = with_row s i ?r" using Some True Inl by (simp add: wn_candidate_seen_def)
      moreover have "row_ok ?r"
        using row_ok_nth [OF assms i(1)] h i(2) refresh_row_facts [of ble "int i = se_active s" ?c h now]
        by (auto simp: row_ok_def same_endpoint_def)
      then have "table_ok (with_row s i ?r)"
        using refresh_row_facts [of ble "int i = se_active s" ?c h now] by (intro table_ok_same [OF assms i(1)]) auto
      moreover have "keeps (row_owned s) (\<lambda>_. None) s (with_row s i ?r)"
        by (rule keeps_row) (auto simp: row_owned_def kept_row_def refresh_row_facts)
      moreover have "backed V ble (with_row s i ?r)" if "backed V ble s"
      proof (rule backed_with_row [OF that order_refl])
        assume "se_active s = int i \<or> ble \<and> ca_authenticated ?r"
        then have t: "trusted ble s i" "ca_device ?r = ca_device ?c"
          using i(1) by (auto simp: trusted_def refresh_row_def Let_def split: if_splits)
        have "link_of ?r = link_of ?c" using refresh_row_facts(1) [of ble "int i = se_active s" ?c h now]
          by (simp add: link_of_def same_endpoint_def)
        with that t show "(link_of ?r, ca_device ?r) \<in> V" by (simp add: backed_def)
      qed
      ultimately show ?thesis by simp
    next
      case (Inr ab)
      obtain a b where ab: "ab = (a, b)" by fastforce
      let ?slot = "if a < 0 then b else a"
      from seen_scan_Inr [OF Inr [unfolded ab]]
      have none: "\<forall>i < length (se_candidates s). \<not> same_endpoint (se_candidates s ! i) h" and rep: "no_or_replaceable s now ?slot"
        by auto
      show ?thesis
      proof (cases "?slot < 0")
        case True
        with assms Some \<open>hint_valid h now\<close> Inr ab show ?thesis by (simp add: wn_candidate_seen_def Let_def)
      next
        case False
        let ?r = "fresh_row ble h now"
        have "snd (wn_candidate_seen ble s hint now) = with_row s (nat ?slot) ?r"
          using Some \<open>hint_valid h now\<close> Inr ab False by (simp add: wn_candidate_seen_def Let_def)
        moreover from rep False have slot: "nat ?slot < length (se_candidates s)" "int (nat ?slot) \<noteq> se_active s"
          "ca_holds (se_candidates s ! nat ?slot) = 0"
          by (auto simp: replaceable_def Let_def)
        have "table_ok (s\<lparr>se_candidates := (se_candidates s)[nat ?slot := ?r], se_active := se_active s\<rparr>)"
        proof (rule table_ok_update [OF assms slot(1)])
          show "row_ok ?r" using h by (auto simp: row_ok_def fresh_row_def)
          show "j = nat ?slot" if "j < length (se_candidates s)" "same_endpoint (se_candidates s ! j) ?r" for j
            using that none by (auto simp: same_endpoint_def fresh_row_def)
        qed (use active_cases [OF assms slot(1)] slot(2) in auto)
        moreover have "keeps (row_owned s) (\<lambda>_. None) s (with_row s (nat ?slot) ?r)" using slot by (intro keeps_row) (auto simp: row_owned_def)
        moreover have "backed V ble (with_row s (nat ?slot) ?r)" if "backed V ble s"
          by (rule backed_with_row [OF that order_refl]) (use slot(2) in \<open>auto simp: fresh_row_def\<close>)
        ultimately show ?thesis by simp
      qed
    qed
  qed
qed


text \<open>The other calls touch at most one row and leave its endpoint and cost.\<close>

lemma same_row_ok:
  assumes "table_ok s" "i < length (se_candidates s)" "same_endpoint c (se_candidates s ! i)"
    and "ca_cost c = ca_cost (se_candidates s ! i)" "ca_failures c \<le> 7"
    and "ca_address c = [] \<Longrightarrow> ca_holds c = 0"
    and "ca_device c = ca_device (se_candidates s ! i) \<or>
      ca_device (se_candidates s ! i) = [] \<and> is_uuid (ca_device c) \<and> P i = Some (ca_device c)"
  shows "table_ok (with_row s i c) \<and> keeps every P s (with_row s i c)"
proof
  have "se_active s = int i \<Longrightarrow> ca_device c = ca_device (se_candidates s ! i)"
    using assms(7) active_cases [OF assms(1,2)] is_uuid_length [of "[]"] by auto
  moreover have "row_ok c"
    using row_ok_nth [OF assms(1,2)] assms(3-7) by (auto simp: row_ok_def same_endpoint_def)
  ultimately show "table_ok (with_row s i c)" using assms(3) by (intro table_ok_same [OF assms(1,2)]) auto
  show "keeps every P s (with_row s i c)" using assms(3,4,7) by (intro keeps_row) (auto simp: kept_row_def)
qed

lemma table_ok_inactive: "table_ok s \<Longrightarrow> table_ok (s\<lparr>se_active := - 1\<rparr>)"
  by (simp add: table_ok_def)

lemma failed_ok:
  assumes "table_ok s"
  shows "table_ok (wn_candidate_failed s slot now) \<and> keeps every P s (wn_candidate_failed s slot now) \<and>
    (backed V ble s \<longrightarrow> backed V ble (wn_candidate_failed s slot now))"
proof (cases "length (se_candidates s) \<le> slot \<or> now < 0 \<or> INT64_MAX - 5000 < now \<or> ca_address (se_candidates s ! slot) = []")
  case True
  with assms show ?thesis by (auto simp: wn_candidate_failed_def Let_def)
next
  case False
  let ?c = "se_candidates s ! slot"
  let ?r = "?c\<lparr>ca_failures := (if ca_failures ?c < 7 then ca_failures ?c + 1 else ca_failures ?c), ca_failed_ms := now,
    ca_retry_ms := now + 5000\<rparr>"
  have "ca_failures ?c \<le> 7" using row_ok_nth [OF assms, of slot] False by (auto simp: row_ok_def)
  then have t: "table_ok (with_row s slot ?r) \<and> keeps every P s (with_row s slot ?r)"
    using False by (intro same_row_ok [OF assms]) (auto simp: same_endpoint_def)
  have b: "backed V ble (with_row s slot ?r)" if "backed V ble s"
    by (rule backed_same_row [OF that order_refl]) (simp_all add: link_of_def)
  have "backed V ble ((with_row s slot ?r)\<lparr>se_active := - 1\<rparr>)" if "backed V ble s"
    using b [OF that] by (auto simp: backed_def trusted_def)
  moreover have "wn_candidate_failed s slot now =
      (if se_active s = int slot then (with_row s slot ?r)\<lparr>se_active := - 1\<rparr> else with_row s slot ?r)"
    using False by (simp add: wn_candidate_failed_def Let_def)
  ultimately show ?thesis using t b table_ok_inactive [of "with_row s slot ?r"] by (auto simp: keeps_def)
qed

lemma authenticated_cases:
  assumes "wn_candidate_authenticated ble s slot peer = (r, t)"
  obtains (refused) "r = - 1" "t = s"
  | (verified) p where "r = 0" "peer = Some p" "used_slot s slot" "is_uuid p"
      "ca_device (se_candidates s ! slot) = [] \<or> ca_device (se_candidates s ! slot) = p"
      "t = with_row s slot ((se_candidates s ! slot)\<lparr>ca_device := p,
        ca_authenticated := (if ble then True else ca_authenticated (se_candidates s ! slot))\<rparr>)"
proof (cases peer)
  case None
  with assms refused show thesis by (simp add: wn_candidate_authenticated_def)
next
  case (Some p)
  let ?c = "se_candidates s ! slot"
  show thesis
  proof (cases "used_slot s slot \<and> fst (wn_uuid_parse (Some p) (replicate 16 0)) = 0 \<and>
      (ca_device ?c = [] \<or> ca_device ?c = p)")
    case True
    then have "is_uuid p" by (simp add: wn_uuid_parse_accepts)
    with True assms Some show thesis by (intro verified [of p]) (auto simp: wn_candidate_authenticated_def Let_def)
  next
    case False
    then have "wn_candidate_authenticated ble s slot peer = (- 1, s)"
      using Some by (auto simp: wn_candidate_authenticated_def Let_def)
    with assms refused show thesis by simp
  qed
qed

lemma authenticated_ok:
  assumes "table_ok s" "wn_candidate_authenticated ble s slot peer = (r, t)"
    and P: "P slot = peer" and V': "V \<union> {(link_of (se_candidates s ! slot), p) | p. peer = Some p \<and> slot < length (se_candidates s)} \<subseteq> V'"
  shows "table_ok t" "keeps every P s t" "se_active t = se_active s"
    and "backed V ble s \<Longrightarrow> backed V' ble t"
    and "r = 0 \<Longrightarrow> used_slot t slot \<and> is_uuid (ca_device (se_candidates t ! slot)) \<and>
      (link_of (se_candidates t ! slot), ca_device (se_candidates t ! slot)) \<in> V'"
proof -
  have "table_ok t \<and> keeps every P s t \<and> se_active t = se_active s \<and> (backed V ble s \<longrightarrow> backed V' ble t) \<and>
    (r = 0 \<longrightarrow> used_slot t slot \<and> is_uuid (ca_device (se_candidates t ! slot)) \<and>
      (link_of (se_candidates t ! slot), ca_device (se_candidates t ! slot)) \<in> V')"
    using assms(2)
  proof (cases rule: authenticated_cases)
    case refused
    with assms V' backed_mono [of V ble s V'] show ?thesis by auto
  next
    case (verified p)
    let ?c = "se_candidates s ! slot"
    let ?r = "?c\<lparr>ca_device := p, ca_authenticated := (if ble then True else ca_authenticated ?c)\<rparr>"
    have "ca_failures ?c \<le> 7" using row_ok_nth [OF assms(1), of slot] verified(3) by (auto simp: row_ok_def)
    then have "table_ok t \<and> keeps every P s t"
      unfolding verified(6) using verified(2-5) P by (intro same_row_ok [OF assms(1)]) (auto simp: same_endpoint_def)
    moreover have new: "(link_of ?r, ca_device ?r) \<in> V'" using V' verified(2,3) by (auto simp: link_of_def)
    then have "backed V' ble t" if "backed V ble s"
      unfolding verified(6) using V' by (intro backed_with_row [OF that]) auto
    ultimately show ?thesis using verified new by auto
  qed
  then show "table_ok t" "keeps every P s t" "se_active t = se_active s" "backed V ble s \<Longrightarrow> backed V' ble t"
    "r = 0 \<Longrightarrow> used_slot t slot \<and> is_uuid (ca_device (se_candidates t ! slot)) \<and>
      (link_of (se_candidates t ! slot), ca_device (se_candidates t ! slot)) \<in> V'" by auto
qed

lemma commit_ok:
  assumes "table_ok s" "P slot = peer"
    and "V \<union> {(link_of (se_candidates s ! slot), p) | p. peer = Some p \<and> slot < length (se_candidates s)} \<subseteq> V'"
  shows "table_ok (snd (wn_candidate_commit ble s slot peer)) \<and> keeps every P s (snd (wn_candidate_commit ble s slot peer)) \<and>
    (backed V ble s \<longrightarrow> backed V' ble (snd (wn_candidate_commit ble s slot peer)))"
proof -
  obtain r t where a: "wn_candidate_authenticated ble s slot peer = (r, t)" by fastforce
  note t = authenticated_ok [where P = P and V = V and V' = V', OF assms(1) a assms(2,3)]
  show ?thesis
  proof (cases "r = 0")
    case False
    with a t show ?thesis by (simp add: wn_candidate_commit_def)
  next
    case True
    let ?c = "se_candidates t ! slot"
    let ?r = "?c\<lparr>ca_failures := 0, ca_failed_ms := 0, ca_retry_ms := 0\<rparr>"
    let ?u = "t\<lparr>se_candidates := (se_candidates t)[slot := ?r], se_active := int slot\<rparr>"
    from t(5) [OF True] have c: "used_slot t slot" "is_uuid (ca_device ?c)" "(link_of ?c, ca_device ?c) \<in> V'" by auto
    have "row_ok ?r" using row_ok_nth [OF t(1), of slot] c by (auto simp: row_ok_def)
    moreover have "j = slot" if "j < length (se_candidates t)" "same_endpoint (se_candidates t ! j) ?r" for j
    proof -
      have "same_endpoint ?c (se_candidates t ! j)" using that(2) by (auto simp: same_endpoint_def)
      with t(1) c(1) that(1) show ?thesis unfolding table_ok_def by blast
    qed
    ultimately have "table_ok ?u" using c by (intro table_ok_update [OF t(1)]) auto
    moreover have "keeps every P s ?u"
    proof -
      have "kept_row (P i) (se_candidates s ! i) ((se_candidates t)[slot := ?r] ! i)" if "i < length (se_candidates s)" for i
      proof -
        have "kept_row (P i) (se_candidates s ! i) (se_candidates t ! i)" using t(2) that by (simp add: keeps_def)
        then show ?thesis using c(1) by (cases "i = slot") (auto simp: kept_row_def same_endpoint_def)
      qed
      with t(2) show ?thesis by (simp add: keeps_def)
    qed
    moreover have "backed V' ble ?u" if "backed V ble s"
      by (rule backed_row [OF t(4) [OF that] order_refl]) (use c(3) in \<open>auto simp: link_of_def\<close>)
    ultimately show ?thesis using True a by (simp add: wn_candidate_commit_def Let_def)
  qed
qed

lemma hold_ok:
  assumes "table_ok s"
  shows "table_ok (snd (wn_candidate_hold s slot)) \<and> keeps every P s (snd (wn_candidate_hold s slot)) \<and>
      (backed V ble s \<longrightarrow> backed V ble (snd (wn_candidate_hold s slot)))"
    and "table_ok (wn_candidate_release s slot) \<and> keeps every P s (wn_candidate_release s slot) \<and>
      (backed V ble s \<longrightarrow> backed V ble (wn_candidate_release s slot))"
proof -
  let ?c = "se_candidates s ! slot"
  have f: "slot < length (se_candidates s) \<Longrightarrow> row_ok ?c" by (rule row_ok_nth [OF assms])
  have b: "backed V ble s \<Longrightarrow> backed V ble (with_row s slot (?c\<lparr>ca_holds := n\<rparr>))" for n
    by (rule backed_same_row [OF _ order_refl]) (simp_all add: link_of_def)
  show "table_ok (snd (wn_candidate_hold s slot)) \<and> keeps every P s (snd (wn_candidate_hold s slot)) \<and>
      (backed V ble s \<longrightarrow> backed V ble (snd (wn_candidate_hold s slot)))"
    using same_row_ok [OF assms, of slot "?c\<lparr>ca_holds := ca_holds ?c + 1\<rparr>" P] assms f b
    by (auto simp: wn_candidate_hold_def same_endpoint_def row_ok_def Let_def)
  show "table_ok (wn_candidate_release s slot) \<and> keeps every P s (wn_candidate_release s slot) \<and>
      (backed V ble s \<longrightarrow> backed V ble (wn_candidate_release s slot))"
    using same_row_ok [OF assms, of slot "?c\<lparr>ca_holds := ca_holds ?c - 1\<rparr>" P] assms f b
    by (auto simp: wn_candidate_release_def same_endpoint_def row_ok_def Let_def split: if_splits)
qed

lemma keeps_mono: "keeps G P s t \<Longrightarrow> (\<And>i. i < length (se_candidates s) \<Longrightarrow> H i \<Longrightarrow> G i) \<Longrightarrow> keeps H P s t"
  by (auto simp: keeps_def)

lemma sel_apply_ok:
  assumes "table_ok s" "backed V ble s"
  shows "table_ok (sel_apply ble s call) \<and> backed (V \<union> presented s call) ble (sel_apply ble s call) \<and>
    keeps (\<lambda>i. row_owned s i \<or> \<not> discovery call) (presents call) s (sel_apply ble s call)"
proof (cases call)
  case (Sel_seen hint now)
  have "presents call = (\<lambda>_. None)" by (rule ext) (simp add: Sel_seen)
  with seen_ok [OF assms(1), of ble hint now V] assms(2) show ?thesis
    by (auto simp: Sel_seen presented_def)
next
  case (Sel_authenticated slot peer)
  obtain r t where a: "wn_candidate_authenticated ble s slot peer = (r, t)" by fastforce
  have P: "presents call slot = peer" by (simp add: Sel_authenticated)
  have V': "V \<union> {(link_of (se_candidates s ! slot), p) | p. peer = Some p \<and> slot < length (se_candidates s)} \<subseteq> V \<union> presented s call"
    by (auto simp: presented_def Sel_authenticated)
  note ok = authenticated_ok [where P = "presents call" and V = V, OF assms(1) a P V']
  from ok(1,2) ok(4) [OF assms(2)] show ?thesis by (simp add: Sel_authenticated a)
next
  case (Sel_commit slot peer)
  have P: "presents call slot = peer" by (simp add: Sel_commit)
  have V': "V \<union> {(link_of (se_candidates s ! slot), p) | p. peer = Some p \<and> slot < length (se_candidates s)} \<subseteq> V \<union> presented s call"
    by (auto simp: presented_def Sel_commit)
  from commit_ok [where P = "presents call" and V = V, OF assms(1) P V', of ble] assms(2) show ?thesis by (simp add: Sel_commit)
qed (use failed_ok [OF assms(1)] hold_ok [OF assms(1)] assms(2) in \<open>simp_all add: presented_def\<close>)

lemma sel_reachable_ok:
  "sel_reachable ble rows V s \<Longrightarrow> table_ok s \<and> length (se_candidates s) = rows \<and> backed V ble s"
proof (induction rule: sel_reachable.induct)
  case init
  then show ?case
    by (auto simp: wn_selection_init_def table_ok_def row_ok_def zero_candidate_row_def backed_def trusted_def)
next
  case (step V s call)
  with sel_apply_ok [of s V ble call] show ?case by (auto simp: keeps_def)
qed

section \<open>Properties\<close>

text \<open>C33: in every table reached by calls of the interface the rows are well formed and no two rows name
  the same endpoint; and the device of the active row, and of every row marked authenticated, is an
  identity that a caller presented as verified on a link to that very endpoint. No call changes the
  endpoint, the cost or the known device of a row that is active or held, and of any other row only a
  discovery report does: a row with a known device never takes another from a verified link.\<close>

theorem selection_typed:
  assumes "sel_reachable ble rows V s"
  shows "table_ok s \<and> length (se_candidates s) = rows \<and>
    (\<forall>i. trusted ble s i \<longrightarrow> (link_of (se_candidates s ! i), ca_device (se_candidates s ! i)) \<in> V) \<and>
    (\<forall>call i. row_owned s i \<or> i < rows \<and> \<not> discovery call \<longrightarrow>
      kept_row (presents call i) (se_candidates s ! i) (se_candidates (sel_apply ble s call) ! i))"
proof -
  from sel_reachable_ok [OF assms] have s: "table_ok s" "length (se_candidates s) = rows" "backed V ble s" by blast+
  have "kept_row (presents call i) (se_candidates s ! i) (se_candidates (sel_apply ble s call) ! i)"
    if "row_owned s i \<or> i < rows \<and> \<not> discovery call" for call i
    using sel_apply_ok [OF s(1,3), of call] that s(2) by (auto simp: keeps_def row_owned_def)
  with s show ?thesis by (simp add: backed_def)
qed

text \<open>C34: whatever the seed, the dialling order lists each dialable row once and no other row, healthy rows
  before recently failed ones and those by the age of their failure.\<close>

theorem order_permutes:
  assumes "0 \<le> now"
  shows "mset (wn_candidate_order s now random) = mset (filter (dialable s now) [0..<length (se_candidates s)]) \<and>
    sorted (map (rank s now) (wn_candidate_order s now random))"
  using wn_candidate_order_spec [OF assms] by blast

definition example_hint :: "bytes \<Rightarrow> wn_candidate" where
  "example_hint a = zero_candidate_row\<lparr>ca_address := a, ca_medium := WN_LAN, ca_port := 7000, ca_cost := 10\<rparr>"

definition example_selection :: wn_selection where
  "example_selection =
     sel_apply True (sel_apply True (wn_selection_init 2) (Sel_seen (Some (example_hint (ascii ''a''))) 1000))
       (Sel_commit 0 (Some (ascii ''12345678-1234-1234-1234-123456789abc'')))"

theorem selection_typed_witness:
  "se_active example_selection = 0 \<and> ca_device (se_candidates example_selection ! 0) = ascii ''12345678-1234-1234-1234-123456789abc'' \<and>
   table_ok example_selection \<and> row_owned example_selection 0 \<and>
   kept_row None (se_candidates example_selection ! 0)
     (se_candidates (snd (wn_candidate_seen True example_selection (Some (example_hint (ascii ''b''))) 90000)) ! 0)"
proof -
  obtain V where r: "sel_reachable True 2 V example_selection"
    unfolding example_selection_def by (meson sel_reachable.intros)
  have ex: "se_active example_selection = 0" "row_owned example_selection 0"
    "ca_device (se_candidates example_selection ! 0) = ascii ''12345678-1234-1234-1234-123456789abc''"
    by code_simp+
  note typed = selection_typed [OF r]
  from typed have "table_ok example_selection" by blast
  moreover have "kept_row None (se_candidates example_selection ! 0)
     (se_candidates (snd (wn_candidate_seen True example_selection (Some (example_hint (ascii ''b''))) 90000)) ! 0)"
    using typed ex(2) by (metis presents.simps(3) sel_apply.simps(1))
  ultimately show ?thesis using ex by blast
qed

theorem order_permutes_witness:
  "mset (wn_candidate_order (snd (wn_candidate_seen True (wn_selection_init 2) (Some (example_hint (ascii ''a''))) 1000)) 2000 7) = {#0#}"
proof -
  have "filter (dialable (snd (wn_candidate_seen True (wn_selection_init 2) (Some (example_hint (ascii ''a''))) 1000)) 2000)
      [0..<length (se_candidates (snd (wn_candidate_seen True (wn_selection_init 2) (Some (example_hint (ascii ''a''))) 1000)))] = [0]"
    by code_simp
  with order_permutes [of 2000 "snd (wn_candidate_seen True (wn_selection_init 2) (Some (example_hint (ascii ''a''))) 1000)" 7]
  show ?thesis by simp
qed

end
