(* ===== verification/Peer_Carrier.thy ===== *)
theory Peer_Carrier
  imports Peer_Packet
begin

text \<open>
  The stream framing of \<open>components/wendy_net_peer/src/carrier.c\<close>: bounded queues of frames, the two
  schedulers, and the pump that writes one frame and reads one frame at a time. The doubly linked chain of
  frames is a list, the queue of a class is the list of the identities of its frames, and the size of the
  frame header is a field, because it depends on the build. What the transport accepts or supplies, whether
  an allocation succeeds and what the receiver of a frame answers are arguments. A carrier that reported an
  error is closed by its owner and not pumped again: the model says nothing of a read into the body whose
  allocation failed.
\<close>

section \<open>State\<close>

abbreviation (input) WNC_ROUTE :: nat where "WNC_ROUTE \<equiv> 0"
abbreviation (input) WNC_METADATA :: nat where "WNC_METADATA \<equiv> 1"
abbreviation (input) WNC_IP :: nat where "WNC_IP \<equiv> 2"
abbreviation (input) WNC_CLASSES :: nat where "WNC_CLASSES \<equiv> 3"
abbreviation (input) WNC_CLASS_RESERVE :: nat where "WNC_CLASS_RESERVE \<equiv> 1536"

abbreviation (input) WNC_INVALID :: int where "WNC_INVALID \<equiv> - 1"
abbreviation (input) WNC_LIMIT :: int where "WNC_LIMIT \<equiv> - 2"
abbreviation (input) WNC_IO :: int where "WNC_IO \<equiv> - 3"
abbreviation (input) WNC_TIMEOUT :: int where "WNC_TIMEOUT \<equiv> - 4"
abbreviation (input) WNC_CLOSED :: int where "WNC_CLOSED \<equiv> - 5"
abbreviation (input) WNC_NOMEM :: int where "WNC_NOMEM \<equiv> - 6"

record wnc_frame =
  fr_id :: nat
  fr_data :: bytes
  fr_offset :: nat
  fr_started :: int
  fr_progress :: int
  fr_begun :: bool
  fr_priority :: bool
  fr_category :: nat

record wnc_carrier =
  cr_open :: bool
  cr_sizeof_frame :: nat
  cr_next_id :: nat
  cr_frames :: "wnc_frame list"
  cr_class :: "nat list list"
  cr_class_bytes :: "nat list"
  cr_class_frames :: "nat list"
  cr_routing_limit :: nat
  cr_fair :: bool
  cr_last_routing :: bool
  cr_last_metadata :: bool
  cr_operator_router :: bool
  cr_small_size :: nat
  cr_limit :: nat
  cr_control_limit :: nat
  cr_priority_reserve :: nat
  cr_queued :: nat
  cr_header :: bytes
  cr_body :: "bytes option"
  cr_body_size :: nat
  cr_body_have :: nat
  cr_rx_paused :: bool
  cr_rx_discard :: bool
  cr_rx_started :: int
  cr_rx_progress :: int
  cr_stall_timeout_us :: int
  cr_frame_timeout_us :: int

definition zero_carrier :: "nat \<Rightarrow> wnc_carrier" where
  "zero_carrier header_size = \<lparr>cr_open = False, cr_sizeof_frame = header_size, cr_next_id = 0, cr_frames = [],
     cr_class = [[], [], []], cr_class_bytes = [0, 0, 0], cr_class_frames = [0, 0, 0], cr_routing_limit = 0,
     cr_fair = False, cr_last_routing = False, cr_last_metadata = False, cr_operator_router = False,
     cr_small_size = 0, cr_limit = 0, cr_control_limit = 0, cr_priority_reserve = 0, cr_queued = 0, cr_header = [],
     cr_body = None, cr_body_size = 0, cr_body_have = 0, cr_rx_paused = False, cr_rx_discard = False,
     cr_rx_started = 0, cr_rx_progress = 0, cr_stall_timeout_us = 0, cr_frame_timeout_us = 0\<rparr>"

text \<open>The two static assertions on the size of a frame header.\<close>

definition header_fits :: "nat \<Rightarrow> bool" where
  "header_fits n \<longleftrightarrow> n + 5 + WN_DATAGRAM_MAX \<le> WNC_CLASS_RESERVE \<and> WN_MTU + 2 * (n + 5 + 9) \<le> WNC_CLASS_RESERVE"

definition wnc_init :: "nat \<Rightarrow> bool \<Rightarrow> nat \<Rightarrow> nat \<Rightarrow> nat \<Rightarrow> wnc_carrier \<Rightarrow> int \<times> wnc_carrier" where
  "wnc_init header_size given small_size limit control_limit c =
     (if \<not> given \<or> small_size < WN_DATAGRAM_MAX \<or> limit < 2048 \<or> 65536 < limit \<or> control_limit = 0 \<or> 65536 < control_limit
      then (WNC_INVALID, c)
      else (0, (zero_carrier header_size)\<lparr>cr_open := True, cr_small_size := small_size, cr_limit := limit,
                 cr_control_limit := control_limit, cr_stall_timeout_us := 5000000, cr_frame_timeout_us := 30000000\<rparr>))"

definition wnc_fair_scheduler :: "wnc_carrier \<Rightarrow> nat \<Rightarrow> int \<times> wnc_carrier" where
  "wnc_fair_scheduler c frames =
     (if \<not> cr_open c \<or> cr_frames c \<noteq> [] \<or> cr_queued c \<noteq> 0 \<or> frames = 0 \<or> 32 < frames \<or> cr_limit c < 3 * WNC_CLASS_RESERVE
      then (WNC_INVALID, c) else (0, c\<lparr>cr_fair := True, cr_routing_limit := frames\<rparr>))"

definition wnc_operator_router :: "wnc_carrier \<Rightarrow> int \<times> wnc_carrier" where
  "wnc_operator_router c =
     (if \<not> cr_open c \<or> cr_frames c \<noteq> [] \<or> cr_header c \<noteq> [] \<or> cr_body c \<noteq> None
      then (WNC_INVALID, c) else (0, c\<lparr>cr_operator_router := True\<rparr>))"

section \<open>Scheduling\<close>

abbreviation waiting :: "wnc_carrier \<Rightarrow> nat \<Rightarrow> bool" where
  "waiting c k \<equiv> cr_class c ! k \<noteq> []"

definition pick_class :: "wnc_carrier \<Rightarrow> nat" where
  "pick_class c =
     (if \<not> cr_last_routing c \<and> waiting c WNC_ROUTE then WNC_ROUTE
      else if \<not> cr_last_metadata c \<and> waiting c WNC_METADATA then WNC_METADATA
      else if waiting c WNC_IP then WNC_IP
      else if waiting c WNC_METADATA then WNC_METADATA
      else if waiting c WNC_ROUTE then WNC_ROUTE
      else WNC_CLASSES)"

definition choose_frame :: "wnc_carrier \<Rightarrow> wnc_carrier" where
  "choose_frame c =
     (if \<not> cr_fair c \<or> cr_frames c = [] \<or> fr_begun (cr_frames c ! 0) then c
      else
        let k = pick_class c
        in if k = WNC_CLASSES then c
           else
             let i = cr_class c ! k ! 0
             in if fr_id (cr_frames c ! 0) = i then c
                else c\<lparr>cr_frames := filter (\<lambda>f. fr_id f = i) (cr_frames c) @ filter (\<lambda>f. fr_id f \<noteq> i) (cr_frames c)\<rparr>)"

definition class_drop :: "wnc_carrier \<Rightarrow> wnc_frame \<Rightarrow> nat \<Rightarrow> wnc_carrier" where
  "class_drop c f n =
     (if \<not> cr_fair c then c
      else let k = fr_category f
           in c\<lparr>cr_class_bytes := (cr_class_bytes c)[k := cr_class_bytes c ! k - n],
                cr_class_frames := (cr_class_frames c)[k := cr_class_frames c ! k - 1]\<rparr>)"

definition reset_rx :: "wnc_carrier \<Rightarrow> wnc_carrier" where
  "reset_rx c = c\<lparr>cr_body := None, cr_body_have := 0, cr_body_size := 0, cr_header := [], cr_rx_started := 0,
     cr_rx_progress := 0, cr_rx_paused := False, cr_rx_discard := False\<rparr>"

definition wnc_deinit :: "wnc_carrier \<Rightarrow> wnc_carrier" where
  "wnc_deinit c = zero_carrier (cr_sizeof_frame c)"

section \<open>Queueing\<close>

definition frame_cost :: "wnc_carrier \<Rightarrow> wnc_frame \<Rightarrow> nat" where
  "frame_cost c f = cr_sizeof_frame c + length (fr_data f)"

definition frame_bytes :: "bool \<Rightarrow> bool \<Rightarrow> bytes \<Rightarrow> bytes" where
  "frame_bytes operator control p =
     (if operator then (if control then 5 else 4) else (if control then 1 else 2)) #
     wn_put32 (of_nat (length p + (if control then 4 else 0))) @
     (if control then wn_put32 (of_nat (length p)) else []) @ p"

definition class_reserve :: "wnc_carrier \<Rightarrow> nat \<Rightarrow> nat" where
  "class_reserve c category =
     sum_list (map (\<lambda>k. if k \<noteq> category \<and> cr_class_bytes c ! k < WNC_CLASS_RESERVE
                         then WNC_CLASS_RESERVE - cr_class_bytes c ! k else 0) [0..<WNC_CLASSES])"

text \<open>The insertion of the legacy scheduler: behind a begun head and behind the priority frames there.\<close>

fun insert_priority :: "wnc_frame \<Rightarrow> wnc_frame list \<Rightarrow> wnc_frame list" where
  "insert_priority f [] = [f]"
| "insert_priority f (g # gs) = (if fr_priority g then g # insert_priority f gs else f # g # gs)"

definition insert_legacy :: "wnc_frame \<Rightarrow> wnc_frame list \<Rightarrow> wnc_frame list" where
  "insert_legacy f fs =
     (case fs of
        g # gs \<Rightarrow> if fr_begun g then g # insert_priority f gs else insert_priority f fs
      | [] \<Rightarrow> [f])"

definition enqueue_bound :: "wnc_carrier \<Rightarrow> nat \<Rightarrow> bool \<Rightarrow> bool \<Rightarrow> int + nat" where
  "enqueue_bound c category control priority =
     (if cr_fair c then
        if category = WNC_ROUTE \<and> cr_routing_limit c \<le> cr_class_frames c ! WNC_ROUTE then Inl WNC_LIMIT
        else if cr_limit c < class_reserve c category then Inl WNC_INVALID
        else Inr (cr_limit c - class_reserve c category)
      else if \<not> control \<and> \<not> priority then
        if cr_limit c < cr_priority_reserve c then Inl WNC_INVALID else Inr (cr_limit c - cr_priority_reserve c)
      else Inr (cr_limit c))"

definition category_of :: "bool \<Rightarrow> bool \<Rightarrow> nat" where
  "category_of control priority = (if control then WNC_METADATA else if priority then WNC_ROUTE else WNC_IP)"

definition new_frame :: "wnc_carrier \<Rightarrow> bytes \<Rightarrow> bool \<Rightarrow> bool \<Rightarrow> wnc_frame" where
  "new_frame c p control priority =
     \<lparr>fr_id = cr_next_id c, fr_data = frame_bytes (cr_operator_router c) control p, fr_offset = 0, fr_started = 0,
      fr_progress = 0, fr_begun = False, fr_priority = priority, fr_category = category_of control priority\<rparr>"

definition append_frame :: "wnc_carrier \<Rightarrow> wnc_frame \<Rightarrow> wnc_carrier" where
  "append_frame c f =
     (let k = fr_category f; allocation = frame_cost c f;
          c = c\<lparr>cr_next_id := cr_next_id c + 1\<rparr>;
          c = (if cr_fair c then
                 c\<lparr>cr_frames := cr_frames c @ [f],
                   cr_class := (cr_class c)[k := cr_class c ! k @ [fr_id f]],
                   cr_class_bytes := (cr_class_bytes c)[k := cr_class_bytes c ! k + allocation],
                   cr_class_frames := (cr_class_frames c)[k := cr_class_frames c ! k + 1]\<rparr>
               else if fr_priority f then c\<lparr>cr_frames := insert_legacy f (cr_frames c)\<rparr>
               else c\<lparr>cr_frames := cr_frames c @ [f]\<rparr>)
      in c\<lparr>cr_queued := cr_queued c + allocation\<rparr>)"

definition enqueue :: "wnc_carrier \<Rightarrow> bytes option \<Rightarrow> bool \<Rightarrow> bool \<Rightarrow> bool \<Rightarrow> int \<times> wnc_carrier" where
  "enqueue c data control priority allocated =
     (case data of
        None \<Rightarrow> (WNC_INVALID, c)
      | Some p \<Rightarrow>
          if \<not> cr_open c \<or> p = [] \<or> (if control then cr_control_limit c else WN_DATAGRAM_MAX) < length p then (WNC_INVALID, c)
          else case enqueue_bound c (category_of control priority) control priority of
            Inl e \<Rightarrow> (e, c)
          | Inr bound \<Rightarrow>
              let allocation = cr_sizeof_frame c + (if control then 9 else 5) + length p
              in if bound < cr_queued c \<or> bound - cr_queued c < allocation then (WNC_LIMIT, c)
                 else if \<not> allocated then (WNC_NOMEM, c)
                 else (0, append_frame c (new_frame c p control priority)))"

definition wnc_enqueue :: "wnc_carrier \<Rightarrow> bytes option \<Rightarrow> bool \<Rightarrow> bool \<Rightarrow> int \<times> wnc_carrier" where
  "wnc_enqueue c data control allocated = enqueue c data control False allocated"

definition wnc_enqueue_priority :: "wnc_carrier \<Rightarrow> bytes option \<Rightarrow> bool \<Rightarrow> bool \<Rightarrow> int \<times> wnc_carrier" where
  "wnc_enqueue_priority c data control allocated = enqueue c data control True allocated"

text \<open>
  The fragments of a packet go in together or not at all: on a failure the frames behind the old tail, and the
  identities behind the old tail of the class, are dropped again.
\<close>

fun enqueue_fragments :: "wnc_carrier \<Rightarrow> bytes \<Rightarrow> u32 \<Rightarrow> nat list \<Rightarrow> bool list \<Rightarrow> int \<times> wnc_carrier" where
  "enqueue_fragments c p i [] oracle = (0, c)"
| "enqueue_fragments c p i (offset # rest) oracle =
     (let fragment = wn_fragment (Some p) i offset
      in if fragment = [] then (WNC_INVALID, c)
         else case wnc_enqueue c (Some fragment) False (oracle \<noteq> [] \<and> oracle ! 0) of
           (r, c) \<Rightarrow> if r \<noteq> 0 then (r, c) else enqueue_fragments c p i rest (drop 1 oracle))"

definition wnc_enqueue_packet :: "wnc_carrier \<Rightarrow> bytes option \<Rightarrow> u32 \<Rightarrow> bool list \<Rightarrow> int \<times> wnc_carrier" where
  "wnc_enqueue_packet c packet i oracle =
     (case packet of
        None \<Rightarrow> (WNC_INVALID, c)
      | Some p \<Rightarrow>
          if length p < 40 \<or> WN_MTU < length p then (WNC_INVALID, c)
          else
            let kept = length (cr_frames c); kept_class = length (cr_class c ! WNC_IP); queued = cr_queued c;
                offsets = filter (\<lambda>x. x < length p) [0, WN_DATAGRAM_MAX - 9]
            in case enqueue_fragments c p i offsets oracle of
              (r, c) \<Rightarrow>
                if r = 0 then (0, c)
                else
                  let dropped = drop kept (cr_frames c);
                      c = (if cr_fair c then c\<lparr>cr_class := (cr_class c)[WNC_IP := take kept_class (cr_class c ! WNC_IP)]\<rparr> else c);
                      c = fold (\<lambda>f c. class_drop c f (frame_cost c f)) dropped (c\<lparr>cr_frames := take kept (cr_frames c)\<rparr>)
                  in (r, c\<lparr>cr_queued := queued\<rparr>))"

section \<open>The pump\<close>

definition expired :: "wnc_carrier \<Rightarrow> int \<Rightarrow> int \<Rightarrow> int \<Rightarrow> bool" where
  "expired c now started progress \<longleftrightarrow> now < progress \<or> now < started \<or> cr_stall_timeout_us c \<le> now - progress \<or>
     cr_frame_timeout_us c \<le> now - started"

record wnc_timeout =
  to_writing :: bool
  to_offset :: nat
  to_size :: nat
  to_idle_us :: int
  to_age_us :: int

definition wnc_timeout_snapshot :: "wnc_carrier \<Rightarrow> int \<Rightarrow> wnc_timeout option" where
  "wnc_timeout_snapshot c now =
     (if (case cr_frames c of f # _ \<Rightarrow> fr_begun f \<and> expired c now (fr_started f) (fr_progress f) | [] \<Rightarrow> False) then
        let f = cr_frames c ! 0
        in Some \<lparr>to_writing = True, to_offset = fr_offset f, to_size = length (fr_data f), to_idle_us = now - fr_progress f,
                 to_age_us = now - fr_started f\<rparr>
      else if cr_header c \<noteq> [] \<and> expired c now (cr_rx_started c) (cr_rx_progress c) then
        Some \<lparr>to_writing = False, to_offset = length (cr_header c) + cr_body_have c, to_size = 5 + cr_body_size c,
              to_idle_us = now - cr_rx_progress c, to_age_us = now - cr_rx_started c\<rparr>
      else None)"

text \<open>What the completion of the head frame does.\<close>

definition finish_frame :: "wnc_carrier \<Rightarrow> wnc_frame \<Rightarrow> wnc_carrier" where
  "finish_frame c f =
     (let c = c\<lparr>cr_frames := drop 1 (cr_frames c)\<rparr>;
          c = (if cr_fair c then
                 let k = fr_category f;
                     c = class_drop (c\<lparr>cr_class := (cr_class c)[k := drop 1 (cr_class c ! k)]\<rparr>) f (frame_cost c f)
                 in c\<lparr>cr_last_routing := (k = WNC_ROUTE),
                      cr_last_metadata := (if k \<noteq> WNC_ROUTE then k = WNC_METADATA else cr_last_metadata c)\<rparr>
               else c)
      in c\<lparr>cr_queued := cr_queued c - frame_cost c f\<rparr>)"

text \<open>The result, the bytes the transport took, and the carrier. \<open>write\<close> is the transport's answer.\<close>

definition pump_write :: "wnc_carrier \<Rightarrow> int \<Rightarrow> (bytes \<Rightarrow> int) \<Rightarrow> int \<times> bytes \<times> wnc_carrier" where
  "pump_write c now write =
     (let c = choose_frame c
      in case cr_frames c of
        [] \<Rightarrow> (0, [], c)
      | f # fs \<Rightarrow>
          let f = (if \<not> fr_begun f then f\<lparr>fr_begun := True, fr_started := now, fr_progress := now\<rparr> else f);
              c = c\<lparr>cr_frames := f # fs\<rparr>
          in if expired c now (fr_started f) (fr_progress f) then (WNC_TIMEOUT, [], c)
             else
               let rest = drop (fr_offset f) (fr_data f); n = write rest
               in if n = - 2 \<or> n = - 3 then (0, [], c)
                  else if n \<le> 0 \<or> int (length rest) < n then (WNC_IO, [], c)
                  else
                    let f = f\<lparr>fr_offset := fr_offset f + nat n, fr_progress := now\<rparr>;
                        c = c\<lparr>cr_frames := f # fs\<rparr>
                    in (1, take (nat n) rest, if fr_offset f = length (fr_data f) then finish_frame c f else c))"

text \<open>
  \<open>receive\<close> is called with its context, a payload and whether it is control. It answers, may change its
  context, and may queue replies on the carrier.
\<close>

type_synonym 'x receiver = "'x \<Rightarrow> wnc_carrier \<Rightarrow> bytes \<Rightarrow> bool \<Rightarrow> int \<times> 'x \<times> wnc_carrier"

definition deliver_frame :: "wnc_carrier \<Rightarrow> 'x receiver \<Rightarrow> 'x \<Rightarrow> int \<times> 'x \<times> wnc_carrier" where
  "deliver_frame c receive ctx =
     (let control = (cr_header c ! 0 = (if cr_operator_router c then 5 else 1));
          body = (case cr_body c of None \<Rightarrow> [] | Some b \<Rightarrow> b)
      in if control \<and> unat (wn_get32 body) \<noteq> cr_body_size c - 4 then (WNC_INVALID, ctx, c)
         else case receive ctx c (drop (if control then 4 else 0) body) control of
           (r, ctx, c) \<Rightarrow>
             if 0 < r then (0, ctx, c\<lparr>cr_rx_paused := True\<rparr>)
             else if r < 0 then (WNC_INVALID, ctx, c)
             else (1, ctx, reset_rx c))"

text \<open>The fifth byte of a header.\<close>

definition open_body :: "wnc_carrier \<Rightarrow> bool \<Rightarrow> int \<times> wnc_carrier" where
  "open_body c allocated =
     (let sz = unat (wn_get32 (drop 1 (cr_header c)));
          kind = cr_header c ! 0;
          control = (if cr_operator_router c then 5 else 1);
          packet = (if cr_operator_router c then 4 else 2)
      in if (kind = control \<and> (sz < 5 \<or> cr_control_limit c + 4 < sz)) \<or> (kind = packet \<and> (sz = 0 \<or> WN_DATAGRAM_MAX < sz))
         then (WNC_INVALID, c)
         else
           let c = c\<lparr>cr_rx_discard := (kind \<noteq> control \<and> kind \<noteq> packet)\<rparr>
           in if cr_rx_discard c \<and> cr_control_limit c + 4 < sz then (WNC_INVALID, c)
              else if cr_rx_discard c \<and> sz = 0 then (1, reset_rx c)
              else
                let c = c\<lparr>cr_body_size := sz\<rparr>
                in if cr_rx_discard c \<or> sz \<le> cr_small_size c \<or> allocated then (1, c\<lparr>cr_body := Some []\<rparr>)
                   else (WNC_NOMEM, c))"

text \<open>\<open>read\<close> answers with a count and, when that is positive, as many bytes.\<close>

definition pump_read ::
  "wnc_carrier \<Rightarrow> int \<Rightarrow> (nat \<Rightarrow> int \<times> bytes) \<Rightarrow> bool \<Rightarrow> 'x receiver \<Rightarrow> 'x \<Rightarrow> int \<times> 'x \<times> wnc_carrier" where
  "pump_read c now read allocated receive ctx =
     (if cr_rx_paused c then deliver_frame c receive ctx
      else if cr_header c \<noteq> [] \<and> expired c now (cr_rx_started c) (cr_rx_progress c) then (WNC_TIMEOUT, ctx, c)
      else
        let left = (if length (cr_header c) < 5 then 5 - length (cr_header c) else cr_body_size c - cr_body_have c);
            left = (if cr_rx_discard c \<and> cr_small_size c < left then cr_small_size c else left);
            (n, bs) = read left
        in if n = - 2 \<or> n = - 3 then (0, ctx, c)
           else if n = 0 then (WNC_CLOSED, ctx, c)
           else if n < 0 \<or> int left < n then (WNC_IO, ctx, c)
           else
             let c = (if cr_header c = [] then c\<lparr>cr_rx_started := now\<rparr> else c);
                 c = c\<lparr>cr_rx_progress := now\<rparr>
             in if length (cr_header c) < 5 then
                  let c = c\<lparr>cr_header := cr_header c @ take (nat n) bs\<rparr>
                  in if length (cr_header c) = 5 then (case open_body c allocated of (r, c) \<Rightarrow> (r, ctx, c)) else (1, ctx, c)
                else
                  let c = c\<lparr>cr_body_have := cr_body_have c + nat n,
                            cr_body := (if cr_rx_discard c then cr_body c
                                        else map_option (\<lambda>b. b @ take (nat n) bs) (cr_body c))\<rparr>
                  in if cr_body_have c = cr_body_size c then
                       if cr_rx_discard c then (1, ctx, reset_rx c) else deliver_frame c receive ctx
                     else (1, ctx, c))"

definition wnc_pump ::
  "wnc_carrier \<Rightarrow> int \<Rightarrow> (bytes \<Rightarrow> int) \<Rightarrow> (nat \<Rightarrow> int \<times> bytes) \<Rightarrow> bool \<Rightarrow> 'x receiver option \<Rightarrow> 'x \<Rightarrow>
     int \<times> bytes \<times> 'x \<times> wnc_carrier" where
  "wnc_pump c now write read allocated receive ctx =
     (case receive of
        None \<Rightarrow> (WNC_INVALID, [], ctx, c)
      | Some receive \<Rightarrow>
          if \<not> cr_open c \<or> now < 0 then (WNC_INVALID, [], ctx, c)
          else case pump_write c now write of
            (written, sent, c) \<Rightarrow>
              if written < 0 then (written, sent, ctx, c)
              else case pump_read c now read allocated receive ctx of
                (r, ctx, c) \<Rightarrow> (if r < 0 then r else if r \<noteq> 0 \<or> written \<noteq> 0 then 1 else 0, sent, ctx, c))"


section \<open>The queues agree\<close>

abbreviation of_class :: "nat \<Rightarrow> wnc_frame list \<Rightarrow> wnc_frame list" where
  "of_class k fs \<equiv> filter (\<lambda>f. fr_category f = k) fs"

abbreviation costs :: "wnc_carrier \<Rightarrow> wnc_frame list \<Rightarrow> nat" where
  "costs c fs \<equiv> sum_list (map (\<lambda>f. cr_sizeof_frame c + length (fr_data f)) fs)"

declare frame_cost_def [simp]

definition missing_reserve :: "nat list \<Rightarrow> nat" where
  "missing_reserve bs = sum_list (map (\<lambda>b. WNC_CLASS_RESERVE - b) bs)"

text \<open>The frames by themselves: distinct, accounted for, and none begun but the first.\<close>

definition frames_ok :: "wnc_carrier \<Rightarrow> bool" where
  "frames_ok c \<longleftrightarrow> distinct (map fr_id (cr_frames c)) \<and>
     (\<forall>f \<in> set (cr_frames c). fr_id f < cr_next_id c \<and> fr_category f < WNC_CLASSES \<and>
        fr_offset f < length (fr_data f) \<and> (\<not> fr_begun f \<longrightarrow> fr_offset f = 0)) \<and>
     (\<forall>f \<in> set (drop 1 (cr_frames c)). \<not> fr_begun f) \<and>
     cr_queued c = costs c (cr_frames c) \<and> cr_queued c \<le> cr_limit c"

definition classes_ok :: "wnc_carrier \<Rightarrow> bool" where
  "classes_ok c \<longleftrightarrow>
     cr_class c = map (\<lambda>k. map fr_id (of_class k (cr_frames c))) [0..<WNC_CLASSES] \<and>
     cr_class_bytes c = map (\<lambda>k. costs c (of_class k (cr_frames c))) [0..<WNC_CLASSES] \<and>
     cr_class_frames c = map (\<lambda>k. length (of_class k (cr_frames c))) [0..<WNC_CLASSES] \<and>
     cr_queued c + missing_reserve (cr_class_bytes c) \<le> cr_limit c \<and>
     length (of_class WNC_ROUTE (cr_frames c)) \<le> cr_routing_limit c"

text \<open>The legacy scheduler keeps the priority frames in front, a begun frame excepted.\<close>

definition legacy_ok :: "wnc_carrier \<Rightarrow> bool" where
  "legacy_ok c \<longleftrightarrow>
     (let fs = cr_frames c; rest = (if fs \<noteq> [] \<and> fr_begun (fs ! 0) then drop 1 fs else fs)
      in sorted_wrt (\<lambda>f g. fr_priority g \<longrightarrow> fr_priority f) rest)"

definition carrier_ok :: "wnc_carrier \<Rightarrow> bool" where
  "carrier_ok c \<longleftrightarrow> frames_ok c \<and> (if cr_fair c then classes_ok c else legacy_ok c)"

lemma three_classes: "[0..<WNC_CLASSES] = [0, 1, 2]"
  by (simp add: upt_rec eval_nat_numeral)

text \<open>Changing the order of the frames, but not within a class, or their progress, keeps the class queues.\<close>

lemma classes_ok_cong:
  assumes "classes_ok c" "\<And>k. map fr_id (of_class k fs) = map fr_id (of_class k (cr_frames c))"
    and "\<And>k. costs c (of_class k fs) = costs c (of_class k (cr_frames c))"
  shows "classes_ok (c\<lparr>cr_frames := fs\<rparr>)"
proof -
  have "length (of_class k fs) = length (of_class k (cr_frames c))" for k
    using arg_cong [OF assms(2) [of k], of length] by simp
  with assms show ?thesis unfolding classes_ok_def by (elim conjE) simp
qed

lemma single_element: "set xs = {x} \<Longrightarrow> distinct xs \<Longrightarrow> xs = [x]"
  by (cases xs; cases "tl xs") auto

lemma choose_frame_frames:
  assumes "carrier_ok c"
  obtains fs where "choose_frame c = c\<lparr>cr_frames := fs\<rparr>" "mset fs = mset (cr_frames c)"
    "\<And>k. of_class k fs = of_class k (cr_frames c)"
    "\<not> cr_fair c \<or> (cr_frames c \<noteq> [] \<and> fr_begun (cr_frames c ! 0)) \<Longrightarrow> fs = cr_frames c"
    "cr_fair c \<Longrightarrow> fs \<noteq> [] \<Longrightarrow> \<not> fr_begun (cr_frames c ! 0) \<Longrightarrow> fr_category (fs ! 0) = pick_class c"
proof (cases "\<not> cr_fair c \<or> cr_frames c = [] \<or> fr_begun (cr_frames c ! 0)")
  case True
  then have "choose_frame c = c\<lparr>cr_frames := cr_frames c\<rparr>" by (auto simp: choose_frame_def)
  then show thesis using True by (intro that [of "cr_frames c"]) auto
next
  case False
  let ?k = "pick_class c" and ?fs = "cr_frames c"
  from assms False have f: "frames_ok c" and cl: "classes_ok c" by (auto simp: carrier_ok_def)
  have cq: "cr_class c ! k = map fr_id (of_class k ?fs)" if "k < 3" for k
    using cl that by (simp add: classes_ok_def)
  have "\<exists>k < 3. waiting c k"
  proof -
    from False obtain g gs where g: "?fs = g # gs" by (cases ?fs) auto
    then have "fr_category g < 3" using f by (simp add: frames_ok_def)
    then show ?thesis using cq [of "fr_category g"] g by auto
  qed
  then have "waiting c 0 \<or> waiting c 1 \<or> waiting c 2" by (auto simp: less_Suc_eq numeral_3_eq_3 numeral_2_eq_2)
  then have k: "?k < 3" "waiting c ?k" by (auto simp: pick_class_def)
  let ?i = "cr_class c ! ?k ! 0"
  from k cq obtain g gs where g: "of_class ?k ?fs = g # gs" by (cases "of_class ?k ?fs") auto
  then have "g \<in> set (of_class ?k ?fs)" by simp
  then have "fr_category g = ?k \<and> g \<in> set ?fs" by simp
  moreover have "?i = fr_id g" using cq [OF k(1)] g by simp
  ultimately have i: "?i = fr_id g" "fr_category g = ?k" "g \<in> set ?fs" by simp_all
  have dist: "distinct (map fr_id ?fs)" using f by (simp add: frames_ok_def)
  have uniq: "h = g" if "h \<in> set ?fs" "fr_id h = fr_id g" for h
    using dist that i(3) by (intro inj_onD [where f = fr_id and A = "set ?fs"]) (simp_all add: distinct_map)
  let ?new = "g # filter (\<lambda>f. fr_id f \<noteq> ?i) ?fs"
  have one: "filter (\<lambda>f. fr_id f = ?i) ?fs = [g]"
  proof -
    have "set (filter (\<lambda>f. fr_id f = ?i) ?fs) = {g}" unfolding i(1) using uniq i(3) by auto
    moreover have "distinct (filter (\<lambda>f. fr_id f = ?i) ?fs)" using dist by (simp add: distinct_map)
    ultimately show ?thesis by (rule single_element)
  qed
  have m: "mset ?new = mset ?fs"
    using multiset_partition [of "mset ?fs" "\<lambda>f. fr_id f = ?i"] one by (simp flip: mset_filter)
  have cls: "of_class k ?new = of_class k ?fs" for k
  proof (cases "k = ?k")
    case True
    have "distinct (map fr_id (g # gs))" using dist unfolding g [symmetric] by (rule distinct_map_filter)
    then have "filter (\<lambda>f. fr_id f \<noteq> ?i) (g # gs) = gs" using i(1) by (auto simp: filter_id_conv image_iff)
    moreover have "of_class k (filter (\<lambda>f. fr_id f \<noteq> ?i) ?fs) = filter (\<lambda>f. fr_id f \<noteq> ?i) (of_class k ?fs)"
      by (simp add: conj_commute)
    ultimately show ?thesis using g i(2) True by simp
  next
    case False
    have "of_class k (filter (\<lambda>f. fr_id f \<noteq> ?i) ?fs) = of_class k ?fs"
      using uniq i(1,2) False by (auto intro!: filter_cong)
    then show ?thesis using i(2) False by simp
  qed
  show thesis
  proof (cases "fr_id (?fs ! 0) = ?i")
    case True
    then have "?fs ! 0 = g" using uniq [of "?fs ! 0"] False i(1) by (cases ?fs) auto
    with True False i(2) k(1) show thesis
      by (intro that [of ?fs]) (auto simp: choose_frame_def Let_def)
  next
    case moved: False
    then have "choose_frame c = c\<lparr>cr_frames := ?new\<rparr>" using False k(1) one by (simp add: choose_frame_def Let_def)
    then show thesis using m cls i(2) False by (intro that [of ?new]) auto
  qed
qed


section \<open>Accepting a frame\<close>

lemma length_frame_bytes: "length (frame_bytes operator control p) = (if control then 9 else 5) + length p"
  by (simp add: frame_bytes_def)

lemma enqueue_refused: "enqueue c data control priority allocated = (r, c') \<Longrightarrow> r \<noteq> 0 \<Longrightarrow> c' = c"
  by (auto simp: enqueue_def Let_def split: option.splits if_splits sum.splits)

lemma enqueue_bound_error: "enqueue_bound c k control priority = Inl e \<Longrightarrow> e \<noteq> 0"
  by (auto simp: enqueue_bound_def split: if_splits)

text \<open>What a successful call found and did.\<close>

lemma enqueue_accepted:
  assumes "enqueue c data control priority allocated = (0, c')"
  obtains p bound where "data = Some p" "p \<noteq> []" "length p \<le> (if control then cr_control_limit c else WN_DATAGRAM_MAX)"
    "enqueue_bound c (category_of control priority) control priority = Inr bound"
    "cr_queued c + frame_cost c (new_frame c p control priority) \<le> bound"
    "c' = append_frame c (new_frame c p control priority)"
proof -
  from assms obtain p where p: "data = Some p" by (auto simp: enqueue_def split: option.splits)
  from assms p have guard: "p \<noteq> []" "length p \<le> (if control then cr_control_limit c else WN_DATAGRAM_MAX)" "cr_open c"
    by (auto simp: enqueue_def split: if_splits)
  show thesis
  proof (cases "enqueue_bound c (category_of control priority) control priority")
    case (Inl e)
    with assms p guard enqueue_bound_error [OF Inl] show thesis by (simp add: enqueue_def)
  next
    case (Inr bound)
    with assms p guard have "c' = append_frame c (new_frame c p control priority)"
      "cr_queued c + frame_cost c (new_frame c p control priority) \<le> bound"
      by (auto simp: enqueue_def Let_def new_frame_def length_frame_bytes split: if_splits)
    with that p guard Inr show thesis by blast
  qed
qed


abbreviation priority_first :: "wnc_frame list \<Rightarrow> bool" where
  "priority_first \<equiv> sorted_wrt (\<lambda>f g. fr_priority g \<longrightarrow> fr_priority f)"

lemma set_insert_priority [simp]: "set (insert_priority f gs) = insert f (set gs)"
  by (induction gs) auto

lemma insert_priority_Cons: obtains h hs where "insert_priority f gs = h # hs"
proof -
  have "insert_priority f gs \<noteq> []" by (cases gs) auto
  then show thesis using that by (cases "insert_priority f gs") auto
qed

lemma mset_insert_priority [simp]: "mset (insert_priority f gs) = add_mset f (mset gs)"
  by (induction gs) auto

lemma mset_insert_legacy [simp]: "mset (insert_legacy f fs) = add_mset f (mset fs)"
  by (auto simp: insert_legacy_def split: list.split)

lemma priority_first_none: "priority_first (g # gs) \<Longrightarrow> \<not> fr_priority g \<Longrightarrow> h \<in> set gs \<Longrightarrow> \<not> fr_priority h"
  by auto

lemma insert_priority_sorted: "priority_first gs \<Longrightarrow> fr_priority f \<Longrightarrow> priority_first (insert_priority f gs)"
  by (induction gs) auto

lemma insert_priority_order:
  "priority_first gs \<Longrightarrow> fr_priority f \<Longrightarrow> filter fr_priority (insert_priority f gs) = filter fr_priority gs @ [f]"
  "fr_priority f \<Longrightarrow> filter (\<lambda>g. \<not> fr_priority g) (insert_priority f gs) = filter (\<lambda>g. \<not> fr_priority g) gs"
  by (induction gs) (auto simp: filter_empty_conv)

text \<open>The behaviour of both insertions on the chain, given that only its head can have begun.\<close>

definition one_begun :: "wnc_frame list \<Rightarrow> bool" where
  "one_begun fs \<longleftrightarrow> (\<forall>f \<in> set (drop 1 fs). \<not> fr_begun f) \<and> (\<forall>f \<in> set fs. \<not> fr_begun f \<longrightarrow> fr_offset f = 0)"

definition partial :: "wnc_frame list \<Rightarrow> bytes" where
  "partial fs = (case fs of [] \<Rightarrow> [] | f # _ \<Rightarrow> take (fr_offset f) (fr_data f))"

lemma one_begun_append:
  assumes "one_begun fs" "\<not> fr_begun f" "fr_offset f = 0"
  shows "one_begun (fs @ [f])" "partial (fs @ [f]) = partial fs"
  using assms by (cases fs; auto simp: one_begun_def partial_def)+

lemma one_begun_insert:
  assumes "one_begun fs" "\<not> fr_begun f" "fr_offset f = 0"
  shows "one_begun (insert_legacy f fs)" "partial (insert_legacy f fs) = partial fs"
proof -
  have "one_begun (insert_legacy f fs) \<and> partial (insert_legacy f fs) = partial fs"
  proof (cases fs)
    case Nil
    with assms show ?thesis by (simp add: one_begun_def partial_def insert_legacy_def)
  next
    case (Cons g gs)
    show ?thesis
    proof (cases "fr_begun g")
      case True
      with Cons assms show ?thesis by (auto simp: one_begun_def partial_def insert_legacy_def)
    next
      case False
      then have none: "\<forall>h \<in> set (insert_priority f fs). \<not> fr_begun h \<and> fr_offset h = 0"
        using Cons assms by (auto simp: one_begun_def)
      obtain h hs where h: "insert_priority f fs = h # hs" by (rule insert_priority_Cons)
      have "insert_legacy f fs = h # hs" using Cons False h by (simp add: insert_legacy_def)
      with none h Cons False assms show ?thesis by (auto simp: one_begun_def partial_def)
    qed
  qed
  then show "one_begun (insert_legacy f fs)" "partial (insert_legacy f fs) = partial fs" by auto
qed

lemma legacy_ok_rest:
  "legacy_ok c \<longleftrightarrow> (case cr_frames c of [] \<Rightarrow> True | g # gs \<Rightarrow> if fr_begun g then priority_first gs else priority_first (g # gs))"
  by (cases "cr_frames c") (auto simp: legacy_ok_def)

lemma insert_legacy_order:
  assumes "legacy_ok c" "fr_priority f" "one_begun (cr_frames c)" "\<not> fr_begun f"
  shows "legacy_ok (c\<lparr>cr_frames := insert_legacy f (cr_frames c)\<rparr>)"
    and "filter fr_priority (insert_legacy f (cr_frames c)) = filter fr_priority (cr_frames c) @ [f]"
    and "filter (\<lambda>g. \<not> fr_priority g) (insert_legacy f (cr_frames c)) = filter (\<lambda>g. \<not> fr_priority g) (cr_frames c)"
proof -
  let ?fs = "cr_frames c"
  have "legacy_ok (c\<lparr>cr_frames := insert_legacy f ?fs\<rparr>) \<and>
    filter fr_priority (insert_legacy f ?fs) = filter fr_priority ?fs @ [f] \<and>
    filter (\<lambda>g. \<not> fr_priority g) (insert_legacy f ?fs) = filter (\<lambda>g. \<not> fr_priority g) ?fs"
  proof (cases ?fs)
    case Nil
    with assms show ?thesis by (simp add: insert_legacy_def legacy_ok_rest)
  next
    case (Cons g gs)
    show ?thesis
    proof (cases "fr_begun g")
      case True
      with Cons assms(1) have "priority_first gs" by (simp add: legacy_ok_rest)
      with Cons True assms(2) show ?thesis
        by (simp add: insert_legacy_def legacy_ok_rest insert_priority_sorted insert_priority_order)
    next
      case False
      with Cons assms(1) have p: "priority_first (g # gs)" by (simp add: legacy_ok_rest)
      have ins: "insert_legacy f ?fs = insert_priority f (g # gs)" using Cons False by (simp add: insert_legacy_def)
      obtain h hs where h: "insert_priority f (g # gs) = h # hs" by (rule insert_priority_Cons)
      have "priority_first (h # hs)" using insert_priority_sorted [OF p assms(2)] h by simp
      moreover have "\<not> fr_begun h" using h False assms(4) by (auto split: if_splits)
      ultimately have "legacy_ok (c\<lparr>cr_frames := insert_legacy f ?fs\<rparr>)" unfolding trans [OF ins h] by (simp add: legacy_ok_rest)
      then show ?thesis
        using ins [unfolded Cons] unfolding Cons using insert_priority_order(1) [OF p assms(2)] insert_priority_order(2) [OF assms(2), of "g # gs"]
        by (metis (no_types, lifting))
    qed
  qed
  then show "legacy_ok (c\<lparr>cr_frames := insert_legacy f ?fs\<rparr>)"
    "filter fr_priority (insert_legacy f ?fs) = filter fr_priority ?fs @ [f]"
    "filter (\<lambda>g. \<not> fr_priority g) (insert_legacy f ?fs) = filter (\<lambda>g. \<not> fr_priority g) ?fs" by auto
qed


lemma frames_ok_one_begun: "frames_ok c \<Longrightarrow> one_begun (cr_frames c)"
  by (auto simp: frames_ok_def one_begun_def)

lemma frames_ok_alt:
  "frames_ok c \<longleftrightarrow> distinct (map fr_id (cr_frames c)) \<and> one_begun (cr_frames c) \<and>
     (\<forall>f \<in> set (cr_frames c). fr_id f < cr_next_id c \<and> fr_category f < 3 \<and> fr_offset f < length (fr_data f)) \<and>
     cr_queued c = costs c (cr_frames c) \<and> cr_queued c \<le> cr_limit c"
  by (auto simp: frames_ok_def one_begun_def)

lemma new_frame_simps [simp]:
  "fr_id (new_frame c p control priority) = cr_next_id c" "fr_offset (new_frame c p control priority) = 0"
  "\<not> fr_begun (new_frame c p control priority)" "fr_priority (new_frame c p control priority) = priority"
  "fr_category (new_frame c p control priority) = category_of control priority" "fr_data (new_frame c p control priority) \<noteq> []"
  "fr_data (new_frame c p control priority) = frame_bytes (cr_operator_router c) control p"
  by (simp_all add: new_frame_def frame_bytes_def)

lemma category_less: "category_of control priority < 3"
  by (simp add: category_of_def)

lemma frame_bytes_ne [simp]: "frame_bytes operator control p \<noteq> []"
  by (simp add: frame_bytes_def)

lemma append_frame_fields [simp]:
  "cr_fair (append_frame c f) = cr_fair c" "cr_limit (append_frame c f) = cr_limit c"
  "cr_operator_router (append_frame c f) = cr_operator_router c" "cr_control_limit (append_frame c f) = cr_control_limit c"
  "cr_sizeof_frame (append_frame c f) = cr_sizeof_frame c" "cr_queued (append_frame c f) = cr_queued c + frame_cost c f"
  "cr_routing_limit (append_frame c f) = cr_routing_limit c" "cr_next_id (append_frame c f) = cr_next_id c + 1"
  "cr_frames (append_frame c f) =
    (if cr_fair c \<or> \<not> fr_priority f then cr_frames c @ [f] else insert_legacy f (cr_frames c))"
  by (simp_all add: append_frame_def Let_def)

lemma mset_chain: "mset (cr_frames (append_frame c f)) = add_mset f (mset (cr_frames c))"
  by simp

lemma costs_mset: "costs c fs = (\<Sum>f \<in># mset fs. cr_sizeof_frame c + length (fr_data f))"
  by (simp only: sum_mset_sum_list [symmetric] mset_map)

lemma append_frames_ok:
  assumes "frames_ok c" "cr_queued c + frame_cost c f \<le> cr_limit c" "f = new_frame c p control priority"
  shows "frames_ok (append_frame c f)" "partial (cr_frames (append_frame c f)) = partial (cr_frames c)"
proof -
  have begun: "one_begun (cr_frames c)" by (rule frames_ok_one_begun [OF assms(1)])
  have ob: "one_begun (cr_frames (append_frame c f)) \<and> partial (cr_frames (append_frame c f)) = partial (cr_frames c)"
    using one_begun_append [OF begun, of f] one_begun_insert [OF begun, of f] assms(3) by (cases priority) simp_all
  have m: "mset (map fr_id (cr_frames (append_frame c f))) = mset (fr_id f # map fr_id (cr_frames c))"
    by (simp only: mset_map mset_chain mset.simps image_mset_add_mset list.map)
  have "cr_next_id c \<notin> fr_id ` set (cr_frames c)" using assms(1) by (auto simp: frames_ok_def)
  then have "distinct (fr_id f # map fr_id (cr_frames c))" using assms(1,3) by (simp add: frames_ok_def)
  then have dist: "distinct (map fr_id (cr_frames (append_frame c f)))" using mset_eq_imp_distinct_iff [OF m] by blast
  have set: "set (cr_frames (append_frame c f)) = insert f (set (cr_frames c))"
    using arg_cong [OF mset_chain [of c f], of set_mset] by (simp only: set_mset_mset set_mset_add_mset_insert)
  have sum: "costs c (cr_frames (append_frame c f)) = frame_cost c f + costs c (cr_frames c)"
    unfolding costs_mset mset_chain by simp
  show "partial (cr_frames (append_frame c f)) = partial (cr_frames c)" using ob by simp
  show "frames_ok (append_frame c f)"
    unfolding frames_ok_alt set using dist ob sum assms category_less [of control priority]
    by (auto simp: frames_ok_def less_Suc_eq)
qed

lemma append_classes_ok:
  assumes "classes_ok c" "cr_fair c" "enqueue_bound c (fr_category f) control priority = Inr bound"
    and "cr_queued c + frame_cost c f \<le> bound" "fr_category f < 3"
  shows "classes_ok (append_frame c f)"
proof -
  define a b d where "a = of_class 0 (cr_frames c)" and "b = of_class 1 (cr_frames c)" and "d = of_class 2 (cr_frames c)"
  have names: "of_class 0 (cr_frames c) = a" "of_class (Suc 0) (cr_frames c) = b" "of_class 2 (cr_frames c) = d"
    by (simp_all add: a_def b_def d_def)
  have cls: "cr_class c = [map fr_id a, map fr_id b, map fr_id d]" "cr_class_bytes c = [costs c a, costs c b, costs c d]"
    "cr_class_frames c = [length a, length b, length d]" "length a \<le> cr_routing_limit c"
    "cr_queued c + missing_reserve (cr_class_bytes c) \<le> cr_limit c"
    using assms(1) unfolding classes_ok_def three_classes a_def b_def d_def by auto
  have bound: "bound = cr_limit c - class_reserve c (fr_category f)" "class_reserve c (fr_category f) \<le> cr_limit c"
    "fr_category f = 0 \<longrightarrow> length a < cr_routing_limit c"
    using assms(2,3) cls(3) by (auto simp: enqueue_bound_def split: if_splits)
  consider "fr_category f = 0" | "fr_category f = 1" | "fr_category f = 2" using assms(5) by linarith
  then show ?thesis
  proof cases
    case 1
    have "class_reserve c 0 = (1536 - costs c b) + (1536 - costs c d)"
      unfolding class_reserve_def three_classes cls(2) by simp
    then show ?thesis
      using cls bound assms(2,4) 1 unfolding classes_ok_def three_classes append_frame_fields
      by (simp add: append_frame_def Let_def missing_reserve_def names) linarith
  next
    case 2
    have "class_reserve c 1 = (1536 - costs c a) + (1536 - costs c d)"
      unfolding class_reserve_def three_classes cls(2) by simp
    then show ?thesis
      using cls bound assms(2,4) 2 unfolding classes_ok_def three_classes append_frame_fields
      by (simp add: append_frame_def Let_def missing_reserve_def names) linarith
  next
    case 3
    have "class_reserve c 2 = (1536 - costs c a) + (1536 - costs c b)"
      unfolding class_reserve_def three_classes cls(2) by simp
    then show ?thesis
      using cls bound assms(2,4) 3 unfolding classes_ok_def three_classes append_frame_fields
      by (simp add: append_frame_def Let_def missing_reserve_def names) linarith
  qed
qed


section \<open>Frames leave in order\<close>

type_synonym entry = "nat \<times> bool \<times> bytes"

definition st :: "wnc_frame \<Rightarrow> entry" where
  "st f = (fr_category f, fr_priority f, fr_data f)"

text \<open>Frames of one flow are never reordered: a class of the fair scheduler, a priority of the legacy one.\<close>

fun flow :: "bool \<Rightarrow> entry \<Rightarrow> nat" where
  "flow fair (k, priority, d) = (if fair then k else if priority then 0 else 1)"

abbreviation of_flow :: "bool \<Rightarrow> nat \<Rightarrow> entry list \<Rightarrow> entry list" where
  "of_flow fair k xs \<equiv> filter (\<lambda>x. flow fair x = k) xs"

lemma of_flow_fair: "of_flow True k (map st fs) = map st (of_class k fs)"
  by (induction fs) (auto simp: st_def)

lemma of_flow_legacy:
  "of_flow False k (map st fs) =
    (if k = 0 then map st (filter fr_priority fs) else if k = 1 then map st (filter (\<lambda>f. \<not> fr_priority f) fs) else [])"
  by (induction fs) (auto simp: st_def)

lemma append_flow:
  assumes "carrier_ok c" "\<not> fr_begun f"
  shows "of_flow (cr_fair c) k (map st (cr_frames (append_frame c f))) =
    of_flow (cr_fair c) k (map st (cr_frames c)) @ (if flow (cr_fair c) (st f) = k then [st f] else [])"
proof (cases "cr_fair c \<or> \<not> fr_priority f")
  case True
  then show ?thesis by auto
next
  case False
  then have "legacy_ok c" "one_begun (cr_frames c)" "fr_priority f" "\<not> cr_fair c"
    using assms frames_ok_one_begun by (auto simp: carrier_ok_def)
  then show ?thesis using insert_legacy_order [of c f] assms(2) by (simp add: of_flow_legacy st_def)
qed

lemma enqueue_ok:
  assumes "carrier_ok c" "enqueue c (Some p) control priority allocated = (0, c')"
  shows "carrier_ok c'" "partial (cr_frames c') = partial (cr_frames c)" "cr_fair c' = cr_fair c"
    "cr_operator_router c' = cr_operator_router c" "cr_control_limit c' = cr_control_limit c"
    and "of_flow (cr_fair c) k (map st (cr_frames c')) = of_flow (cr_fair c) k (map st (cr_frames c) @
      [(category_of control priority, priority, frame_bytes (cr_operator_router c) control p)])"
    and "p \<noteq> []" "length p \<le> (if control then cr_control_limit c else WN_DATAGRAM_MAX)"
    and "set (cr_frames c') = insert (new_frame c p control priority) (set (cr_frames c))"
proof -
  let ?f = "new_frame c p control priority"
  obtain bound where b: "p \<noteq> []" "length p \<le> (if control then cr_control_limit c else WN_DATAGRAM_MAX)"
    "enqueue_bound c (category_of control priority) control priority = Inr bound"
    "cr_queued c + frame_cost c ?f \<le> bound" "c' = append_frame c ?f"
    using enqueue_accepted [OF assms(2)] by (metis option.inject)
  have "bound \<le> cr_limit c" using b(3) by (auto simp: enqueue_bound_def split: if_splits)
  then have fits: "cr_queued c + frame_cost c ?f \<le> cr_limit c" using b(4) by linarith
  have fo: "frames_ok c" using assms(1) by (simp add: carrier_ok_def)
  note ok = append_frames_ok [OF fo fits refl]
  show "p \<noteq> []" "length p \<le> (if control then cr_control_limit c else WN_DATAGRAM_MAX)" by (fact b)+
  show "partial (cr_frames c') = partial (cr_frames c)" using ok(2) b(5) by simp
  show "cr_fair c' = cr_fair c" "cr_operator_router c' = cr_operator_router c" "cr_control_limit c' = cr_control_limit c"
    by (simp_all add: b(5))
  show "set (cr_frames c') = insert ?f (set (cr_frames c))"
    using arg_cong [OF mset_chain [of c ?f], of set_mset] b(5) by (simp only: set_mset_mset set_mset_add_mset_insert)
  show "of_flow (cr_fair c) k (map st (cr_frames c')) = of_flow (cr_fair c) k (map st (cr_frames c) @
      [(category_of control priority, priority, frame_bytes (cr_operator_router c) control p)])"
    using append_flow [OF assms(1), of ?f k] b(5) by (simp add: st_def del: append_frame_fields)
  show "carrier_ok c'"
  proof (cases "cr_fair c")
    case True
    with assms(1) have "classes_ok c" by (simp add: carrier_ok_def)
    from append_classes_ok [OF this True, of ?f control priority bound] b category_less [of control priority] ok(1) True
    show ?thesis by (simp add: carrier_ok_def)
  next
    case False
    with assms(1) have l: "legacy_ok c" by (simp add: carrier_ok_def)
    have "legacy_ok (append_frame c ?f)"
    proof (cases priority)
      case True
      have "legacy_ok (append_frame c ?f) = legacy_ok (c\<lparr>cr_frames := insert_legacy ?f (cr_frames c)\<rparr>)"
        using False True by (simp add: legacy_ok_def)
      with insert_legacy_order(1) [OF l, of ?f] frames_ok_one_begun [OF fo] True show ?thesis by simp
    next
      case low: False
      show ?thesis using l False low by (cases "cr_frames c") (auto simp: legacy_ok_rest sorted_wrt_append)
    qed
    with ok(1) False b(5) show ?thesis by (simp add: carrier_ok_def)
  qed
qed


lemma choose_ok:
  assumes "carrier_ok c"
  shows "carrier_ok (choose_frame c)" "partial (cr_frames (choose_frame c)) = partial (cr_frames c)"
    "of_flow (cr_fair c) k (map st (cr_frames (choose_frame c))) = of_flow (cr_fair c) k (map st (cr_frames c))"
    "set (cr_frames (choose_frame c)) = set (cr_frames c)" "\<exists>fs. choose_frame c = c\<lparr>cr_frames := fs\<rparr>"
    "length (cr_frames (choose_frame c)) = length (cr_frames c)"
proof -
  obtain fs where fs: "choose_frame c = c\<lparr>cr_frames := fs\<rparr>" "mset fs = mset (cr_frames c)"
    "\<And>k. of_class k fs = of_class k (cr_frames c)"
    "\<not> cr_fair c \<or> (cr_frames c \<noteq> [] \<and> fr_begun (cr_frames c ! 0)) \<Longrightarrow> fs = cr_frames c"
    using choose_frame_frames [OF assms] by metis
  have fo: "frames_ok c" using assms by (simp add: carrier_ok_def)
  show "\<exists>fs. choose_frame c = c\<lparr>cr_frames := fs\<rparr>" using fs(1) by blast
  show set: "set (cr_frames (choose_frame c)) = set (cr_frames c)" using mset_eq_setD [OF fs(2)] fs(1) by simp
  show "length (cr_frames (choose_frame c)) = length (cr_frames c)" using mset_eq_length [OF fs(2)] fs(1) by simp
  have "carrier_ok (choose_frame c) \<and> partial (cr_frames (choose_frame c)) = partial (cr_frames c) \<and>
    of_flow (cr_fair c) k (map st (cr_frames (choose_frame c))) = of_flow (cr_fair c) k (map st (cr_frames c))"
  proof (cases "\<not> cr_fair c \<or> (cr_frames c \<noteq> [] \<and> fr_begun (cr_frames c ! 0))")
    case True
    then have "choose_frame c = c" using fs(1,4) by simp
    with assms show ?thesis by simp
  next
    case False
    have none: "\<forall>f \<in> set (cr_frames c). \<not> fr_begun f \<and> fr_offset f = 0"
      using fo False by (cases "cr_frames c") (auto simp: frames_ok_def)
    have "distinct (map fr_id fs)"
      using fo mset_eq_imp_distinct_iff [of "map fr_id fs" "map fr_id (cr_frames c)"] fs(2) by (simp add: frames_ok_def)
    moreover have "costs c fs = costs c (cr_frames c)" unfolding costs_mset fs(2) ..
    ultimately have "frames_ok (c\<lparr>cr_frames := fs\<rparr>)"
      using fo none mset_eq_setD [OF fs(2)] by (auto simp: frames_ok_def dest: in_set_dropD)
    moreover have "classes_ok (c\<lparr>cr_frames := fs\<rparr>)"
      using assms False by (intro classes_ok_cong) (simp_all add: carrier_ok_def fs(3))
    ultimately have "carrier_ok (choose_frame c)" using False fs(1) by (simp add: carrier_ok_def)
    moreover have "partial xs = []" if "set xs = set (cr_frames c)" for xs
      using none that by (cases xs) (auto simp: partial_def)
    then have "partial fs = partial (cr_frames c)" using mset_eq_setD [OF fs(2)] by simp
    ultimately show ?thesis using False fs(1,3) by (simp add: of_flow_fair)
  qed
  then show "carrier_ok (choose_frame c)" "partial (cr_frames (choose_frame c)) = partial (cr_frames c)"
    "of_flow (cr_fair c) k (map st (cr_frames (choose_frame c))) = of_flow (cr_fair c) k (map st (cr_frames c))" by auto
qed

text \<open>Progress on the head frame.\<close>

lemma head_update:
  assumes "carrier_ok c" "cr_frames c = f # fs" "st g = st f" "fr_id g = fr_id f" "fr_begun g" "fr_offset g < length (fr_data g)"
  shows "carrier_ok (c\<lparr>cr_frames := g # fs\<rparr>)"
proof -
  have same: "fr_category g = fr_category f" "fr_priority g = fr_priority f" "fr_data g = fr_data f"
    using assms(3) by (simp_all add: st_def)
  have "frames_ok (c\<lparr>cr_frames := g # fs\<rparr>)"
    using assms same by (auto simp: carrier_ok_def frames_ok_def)
  moreover have "cr_fair c \<Longrightarrow> classes_ok (c\<lparr>cr_frames := g # fs\<rparr>)"
    using assms same by (intro classes_ok_cong) (simp_all add: carrier_ok_def)
  moreover have "\<not> cr_fair c \<Longrightarrow> legacy_ok (c\<lparr>cr_frames := g # fs\<rparr>)"
    using assms by (auto simp: carrier_ok_def legacy_ok_rest split: if_splits)
  ultimately show ?thesis by (simp add: carrier_ok_def)
qed

lemma finish_frame_fields [simp]:
  "cr_fair (finish_frame c f) = cr_fair c" "cr_limit (finish_frame c f) = cr_limit c"
  "cr_operator_router (finish_frame c f) = cr_operator_router c" "cr_control_limit (finish_frame c f) = cr_control_limit c"
  "cr_sizeof_frame (finish_frame c f) = cr_sizeof_frame c" "cr_queued (finish_frame c f) = cr_queued c - frame_cost c f"
  "cr_routing_limit (finish_frame c f) = cr_routing_limit c" "cr_next_id (finish_frame c f) = cr_next_id c"
  "cr_frames (finish_frame c f) = drop 1 (cr_frames c)"
  by (simp_all add: finish_frame_def class_drop_def Let_def)

lemma finish_ok:
  assumes "carrier_ok c" "cr_frames c = f # fs"
  shows "carrier_ok (finish_frame c f)"
proof -
  have fo: "frames_ok c" using assms by (simp add: carrier_ok_def)
  then have q: "cr_queued c = frame_cost c f + costs c fs" using assms(2) by (simp add: frames_ok_def)
  have none: "\<forall>g \<in> set fs. \<not> fr_begun g \<and> fr_offset g = 0" using fo assms(2) by (auto simp: frames_ok_def)
  have frames: "frames_ok (finish_frame c f)"
    using fo assms(2) q none by (auto simp: frames_ok_def dest: in_set_dropD)
  show ?thesis
  proof (cases "cr_fair c")
    case False
    then have "legacy_ok (finish_frame c f)"
      using assms none by (cases fs) (auto simp: carrier_ok_def legacy_ok_rest split: if_splits)
    with frames False show ?thesis by (simp add: carrier_ok_def)
  next
    case True
    define a b d where "a = of_class 0 fs" and "b = of_class 1 fs" and "d = of_class 2 fs"
    have names: "of_class 0 fs = a" "of_class (Suc 0) fs = b" "of_class 2 fs = d"
      by (simp_all add: a_def b_def d_def)
    have cl: "classes_ok c" using assms(1) True by (simp add: carrier_ok_def)
    have "fr_category f < 3" using fo assms(2) by (simp add: frames_ok_def)
    then consider "fr_category f = 0" | "fr_category f = 1" | "fr_category f = 2" by linarith
    then have "classes_ok (finish_frame c f)"
    proof cases
      case 1
      then show ?thesis
        using cl True q unfolding classes_ok_def three_classes assms(2)
        by (elim conjE) (simp add: finish_frame_def class_drop_def Let_def missing_reserve_def names assms(2))
    next
      case 2
      then show ?thesis
        using cl True q unfolding classes_ok_def three_classes assms(2)
        by (elim conjE) (simp add: finish_frame_def class_drop_def Let_def missing_reserve_def names assms(2))
    next
      case 3
      then show ?thesis
        using cl True q unfolding classes_ok_def three_classes assms(2)
        by (elim conjE) (simp add: finish_frame_def class_drop_def Let_def missing_reserve_def names assms(2))
    qed
    with frames True show ?thesis by (simp add: carrier_ok_def)
  qed
qed


text \<open>The outcome of one write, from what is in front after scheduling.\<close>

lemma pump_write_cases:
  assumes "carrier_ok c" "pump_write c now write = (r, bs, c')"
  obtains (same) fs where "bs = []" "c' = c\<lparr>cr_frames := fs\<rparr>" "carrier_ok c'" "partial fs = partial (cr_frames c)"
      "map st fs = map st (cr_frames (choose_frame c))"
    | (some) f fs n where "cr_frames (choose_frame c) = f # fs" "0 < n" "fr_offset f + n < length (fr_data f)"
      "bs = take n (drop (fr_offset f) (fr_data f))" "carrier_ok c'" "cr_frames c' = f\<lparr>fr_begun := True,
        fr_started := (if fr_begun f then fr_started f else now), fr_offset := fr_offset f + n, fr_progress := now\<rparr> # fs"
      "c' = c\<lparr>cr_frames := cr_frames c'\<rparr>"
    | (all) f fs where "cr_frames (choose_frame c) = f # fs" "bs = drop (fr_offset f) (fr_data f)"
      "carrier_ok c'" "cr_frames c' = fs" "c' = finish_frame (choose_frame c) f"
proof -
  let ?c = "choose_frame c"
  note ch = choose_ok [OF assms(1)]
  obtain ffs where ffs: "?c = c\<lparr>cr_frames := ffs\<rparr>" using ch(5) by blast
  show thesis
  proof (cases "cr_frames ?c")
    case Nil
    then have "bs = []" "c' = ?c" using assms(2) by (auto simp: pump_write_def Let_def)
    with ch ffs show thesis by (intro same [of ffs]) auto
  next
    case (Cons f fs)
    define g where "g = (if \<not> fr_begun f then f\<lparr>fr_begun := True, fr_started := now, fr_progress := now\<rparr> else f)"
    define rest where "rest = drop (fr_offset f) (fr_data f)"
    let ?c1 = "?c\<lparr>cr_frames := g # fs\<rparr>"
    have g: "st g = st f" "fr_id g = fr_id f" "fr_begun g" "fr_offset g = fr_offset f" "fr_data g = fr_data f"
      by (simp_all add: st_def g_def)
    have off: "fr_offset f < length (fr_data f)" using ch(1) Cons by (simp add: carrier_ok_def frames_ok_def)
    have ok1: "carrier_ok ?c1" using head_update [OF ch(1) Cons g(1,2,3)] g(4,5) off by simp
    have same1: thesis if "bs = []" "c' = ?c1"
    proof (rule same [of "g # fs"])
      show "partial (g # fs) = partial (cr_frames c)" using ch(2) Cons g by (simp add: partial_def)
      show "map st (g # fs) = map st (cr_frames ?c)" using Cons g(1) by simp
    qed (use that ok1 ffs in auto)
    have run: "(if expired ?c1 now (fr_started g) (fr_progress g) then (WNC_TIMEOUT, [], ?c1)
        else if write rest = - 2 \<or> write rest = - 3 then (0, [], ?c1)
        else if write rest \<le> 0 \<or> int (length rest) < write rest then (WNC_IO, [], ?c1)
        else let h = g\<lparr>fr_offset := fr_offset g + nat (write rest), fr_progress := now\<rparr>; c = ?c\<lparr>cr_frames := h # fs\<rparr>
          in (1, take (nat (write rest)) rest, if fr_offset h = length (fr_data h) then finish_frame c h else c)) = (r, bs, c')"
      using assms(2) Cons unfolding pump_write_def Let_def g_def [symmetric]
      by (simp add: g_def [symmetric] g(4,5) rest_def del: length_drop cong: if_cong)
    show thesis
    proof (cases "expired ?c1 now (fr_started g) (fr_progress g) \<or> write rest = - 2 \<or> write rest = - 3 \<or>
        write rest \<le> 0 \<or> int (length rest) < write rest")
      case True
      then have "bs = []" "c' = ?c1" using run by (auto split: if_splits)
      then show thesis by (rule same1)
    next
      case False
      define n where "n = nat (write rest)"
      have n: "0 < n" "fr_offset f + n \<le> length (fr_data f)" using False off by (auto simp: n_def rest_def)
      let ?h = "g\<lparr>fr_offset := fr_offset f + n, fr_progress := now\<rparr>"
      have res: "bs = take n (drop (fr_offset f) (fr_data f))"
        "c' = (if fr_offset f + n = length (fr_data f) then finish_frame (?c\<lparr>cr_frames := ?h # fs\<rparr>) ?h else ?c\<lparr>cr_frames := ?h # fs\<rparr>)"
        using run False g(4,5) by (simp_all add: Let_def n_def [symmetric] rest_def [symmetric] del: length_drop)
      show thesis
      proof (cases "fr_offset f + n = length (fr_data f)")
        case True
        have "finish_frame (?c\<lparr>cr_frames := ?h # fs\<rparr>) ?h = finish_frame ?c f"
          using Cons by (simp add: finish_frame_def class_drop_def Let_def g_def)
        then have c': "c' = finish_frame ?c f" using res(2) True by simp
        show thesis
          by (rule all [OF Cons]) (use res(1) True c' finish_ok [OF ch(1) Cons] Cons in auto)
      next
        case part: False
        then have "c' = ?c\<lparr>cr_frames := ?h # fs\<rparr>" using res(2) by simp
        moreover have "carrier_ok (?c\<lparr>cr_frames := ?h # fs\<rparr>)"
          using head_update [OF ch(1) Cons, of ?h] g n part by (simp add: st_def)
        ultimately show thesis using n part res(1) Cons ffs
          by (intro some [of f fs n]) (auto simp: st_def g_def)
      qed
    qed
  qed
qed

section \<open>A packet goes in whole or not at all\<close>

text \<open>The carrier after frames of the class of packets were put behind all others.\<close>

definition pushed :: "wnc_carrier \<Rightarrow> wnc_frame list \<Rightarrow> wnc_carrier" where
  "pushed c new =
     (let c = c\<lparr>cr_next_id := cr_next_id c + length new, cr_frames := cr_frames c @ new, cr_queued := cr_queued c + costs c new\<rparr>
      in if cr_fair c then
           c\<lparr>cr_class := (cr_class c)[2 := cr_class c ! 2 @ map fr_id new],
             cr_class_bytes := (cr_class_bytes c)[2 := cr_class_bytes c ! 2 + costs c new],
             cr_class_frames := (cr_class_frames c)[2 := cr_class_frames c ! 2 + length new]\<rparr>
         else c)"

abbreviation three :: "wnc_carrier \<Rightarrow> bool" where
  "three c \<equiv> length (cr_class c) = 3 \<and> length (cr_class_bytes c) = 3 \<and> length (cr_class_frames c) = 3"

lemma pushed_Nil: "pushed c [] = c"
  by (simp add: pushed_def Let_def)

lemma pushed_Cons:
  assumes "cr_fair c \<longrightarrow> three c" "fr_category f = 2" "\<not> fr_priority f"
  shows "pushed (append_frame c f) new = pushed c (f # new)"
  using assms by (simp add: pushed_def append_frame_def Let_def add.assoc)

lemma enqueue_fragments_pushed:
  assumes "cr_fair c \<longrightarrow> three c" "enqueue_fragments c p i offs oracle = (r, c')"
  obtains new where "c' = pushed c new" "\<And>f. f \<in> set new \<Longrightarrow> fr_category f = 2 \<and> \<not> fr_begun f"
proof -
  have "\<exists>new. c' = pushed c new \<and> (\<forall>f \<in> set new. fr_category f = 2 \<and> \<not> fr_begun f)"
    using assms
  proof (induction offs arbitrary: c "oracle")
    case Nil
    then show ?case using pushed_Nil [of c] by (intro exI [of _ "[]"]) simp
  next
    case (Cons offset offs)
    let ?d = "wn_fragment (Some p) i offset" and ?a = "oracle \<noteq> [] \<and> oracle ! 0"
    obtain r1 c1 where e: "enqueue c (Some ?d) False False ?a = (r1, c1)" by fastforce
    show ?case
    proof (cases "?d = [] \<or> r1 \<noteq> 0")
      case True
      then have "c' = c" using Cons.prems(2) e enqueue_refused [OF e] by (auto simp: Let_def wnc_enqueue_def split: if_splits)
      then show ?thesis using pushed_Nil [of c] by (intro exI [of _ "[]"]) simp
    next
      case False
      then have c1: "c1 = append_frame c (new_frame c ?d False False)" using enqueue_accepted [of c _ False False ?a c1] e
        by (metis option.inject)
      have rest: "enqueue_fragments c1 p i offs (drop 1 oracle) = (r, c')"
        using Cons.prems(2) e False by (auto simp: Let_def wnc_enqueue_def)
      have "cr_fair c1 \<longrightarrow> three c1" using Cons.prems(1) by (simp add: c1 append_frame_def Let_def)
      then obtain new where "c' = pushed c1 new" "\<forall>f \<in> set new. fr_category f = 2 \<and> \<not> fr_begun f" using Cons.IH [OF _ rest] by blast
      then show ?thesis using Cons.prems(1)
        by (intro exI [of _ "new_frame c ?d False False # new"]) (simp add: c1 pushed_Cons new_frame_def category_of_def)
    qed
  qed
  then show thesis using that by blast
qed

lemma fold_class_drop:
  assumes "\<forall>f \<in> set new. fr_category f = 2" "cr_fair c" "three c"
  shows "fold (\<lambda>f c. class_drop c f (frame_cost c f)) new c =
    c\<lparr>cr_class_bytes := (cr_class_bytes c)[2 := cr_class_bytes c ! 2 - costs c new],
      cr_class_frames := (cr_class_frames c)[2 := cr_class_frames c ! 2 - length new]\<rparr>"
  using assms by (induction new arbitrary: c) (simp_all add: class_drop_def)

lemma fold_class_drop_legacy:
  "\<not> cr_fair c \<Longrightarrow> fold (\<lambda>f c. class_drop c f (frame_cost c f)) new c = c"
  by (induction new) (simp_all add: class_drop_def)

theorem packet_rolled_back:
  assumes "cr_fair c \<longrightarrow> three c" "wnc_enqueue_packet c (Some p) i oracle = (r, c')" "r \<noteq> 0"
  shows "\<exists>n. c' = c\<lparr>cr_next_id := cr_next_id c + n\<rparr>"
proof (cases "length p < 40 \<or> WN_MTU < length p")
  case True
  then have "c' = c" using assms(2) by (auto simp: wnc_enqueue_packet_def)
  then show ?thesis by (intro exI [of _ 0]) simp
next
  case False
  let ?offs = "filter (\<lambda>x. x < length p) [0, WN_DATAGRAM_MAX - 9]"
  obtain r1 c1 where run: "enqueue_fragments c p i ?offs oracle = (r1, c1)" by fastforce
  obtain new where new: "c1 = pushed c new" "\<And>f. f \<in> set new \<Longrightarrow> fr_category f = 2 \<and> \<not> fr_begun f"
    by (rule enqueue_fragments_pushed [OF assms(1) run]) blast
  let ?c2 = "(if cr_fair c1 then c1\<lparr>cr_class := (cr_class c1)[2 := take (length (cr_class c ! 2)) (cr_class c1 ! 2)]\<rparr> else c1)
    \<lparr>cr_frames := take (length (cr_frames c)) (cr_frames c1)\<rparr>"
  have eq: "wnc_enqueue_packet c (Some p) i oracle = (if r1 = 0 then (0, c1) else
      (r1, (fold (\<lambda>f c. class_drop c f (frame_cost c f)) (drop (length (cr_frames c)) (cr_frames c1)) ?c2)\<lparr>cr_queued := cr_queued c\<rparr>))"
    unfolding wnc_enqueue_packet_def option.case Let_def if_not_P [OF False] run prod.case by simp
  then have c': "c' = (fold (\<lambda>f c. class_drop c f (frame_cost c f)) (drop (length (cr_frames c)) (cr_frames c1)) ?c2)\<lparr>cr_queued := cr_queued c\<rparr>"
    using assms(2,3) by (cases "r1 = 0") (simp_all only: if_True if_False Pair_inject prod.inject refl simp_thms)
  have cat: "\<forall>f \<in> set new. fr_category f = 2" using new(2) by blast
  have "c' = c\<lparr>cr_next_id := cr_next_id c + length new\<rparr>"
  proof (cases "cr_fair c")
    case True
    then show ?thesis unfolding c' new(1) using assms(1) fold_class_drop [OF cat] by (simp add: pushed_def)
  next
    case False
    then show ?thesis unfolding c' new(1) by (simp add: pushed_def fold_class_drop_legacy del: frame_cost_def)
  qed
  then show ?thesis by blast
qed

end
