(* ===== verification/Carrier_Link.thy ===== *)
theory Carrier_Link
  imports Peer_Carrier
begin

text \<open>
  One direction of a link between two carriers of \<open>components/wendy_net_peer/src/carrier.c\<close>: one end queues
  and writes frames, a lossless byte stream carries what was written, the other end reads it in pieces of any
  size. The relation \<open>link\<close> is every interleaving of these operations. What was accepted is delivered, each
  message once, whole, and in the order in which its flow accepted it.
\<close>

section \<open>What the sender owes\<close>

text \<open>A message is what was asked to be sent: control or not, priority or not, and the payload.\<close>

type_synonym sent_message = "bool \<times> bool \<times> bytes"

fun wire :: "bool \<Rightarrow> sent_message \<Rightarrow> bytes" where
  "wire operator (control, priority, p) = frame_bytes operator control p"

fun entry_of :: "bool \<Rightarrow> sent_message \<Rightarrow> entry" where
  "entry_of operator (control, priority, p) = (category_of control priority, priority, frame_bytes operator control p)"

fun message_of :: "entry \<Rightarrow> sent_message" where
  "message_of (k, priority, d) = (k = 1, priority, drop (if k = 1 then 9 else 5) d)"

fun message_flow :: "bool \<Rightarrow> sent_message \<Rightarrow> nat" where
  "message_flow fair (control, priority, p) = (if fair then category_of control priority else if priority then 0 else 1)"

abbreviation of_message_flow :: "bool \<Rightarrow> nat \<Rightarrow> sent_message list \<Rightarrow> sent_message list" where
  "of_message_flow fair k ms \<equiv> filter (\<lambda>m. message_flow fair m = k) ms"

fun may_send :: "nat \<Rightarrow> sent_message \<Rightarrow> bool" where
  "may_send control_limit (control, priority, p) \<longleftrightarrow> p \<noteq> [] \<and> length p \<le> (if control then control_limit else WN_DATAGRAM_MAX)"

definition queued_messages :: "wnc_carrier \<Rightarrow> sent_message list" where
  "queued_messages c = map (message_of \<circ> st) (cr_frames c)"

definition frame_valid :: "wnc_carrier \<Rightarrow> wnc_frame \<Rightarrow> bool" where
  "frame_valid c f \<longleftrightarrow> st f = entry_of (cr_operator_router c) (message_of (st f)) \<and> may_send (cr_control_limit c) (message_of (st f))"

definition tx_ok :: "wnc_carrier \<Rightarrow> sent_message list \<Rightarrow> sent_message list \<Rightarrow> bytes \<Rightarrow> bool" where
  "tx_ok c accepted finished out \<longleftrightarrow> carrier_ok c \<and> (\<forall>f \<in> set (cr_frames c). frame_valid c f) \<and>
     (\<forall>m \<in> set finished. may_send (cr_control_limit c) m) \<and>
     (\<forall>k. of_message_flow (cr_fair c) k accepted = of_message_flow (cr_fair c) k (finished @ queued_messages c)) \<and>
     out = concat (map (wire (cr_operator_router c)) finished) @ partial (cr_frames c)"

lemma message_of_entry [simp]: "message_of (entry_of operator m) = m"
  by (cases m) (auto simp: category_of_def frame_bytes_def wn_put32_def)

lemma flow_entry [simp]: "flow fair (entry_of operator m) = message_flow fair m"
  by (cases m) simp

lemma frame_valid_flow: "frame_valid c f \<Longrightarrow> message_flow fair (message_of (st f)) = flow fair (st f)"
  unfolding frame_valid_def by (metis flow_entry)

lemma frame_valid_wire: "frame_valid c f \<Longrightarrow> wire (cr_operator_router c) (message_of (st f)) = fr_data f"
  unfolding frame_valid_def by (cases "message_of (st f)") (auto simp: st_def)

lemma queued_flow:
  assumes "\<forall>f \<in> set (cr_frames c). frame_valid c f"
  shows "of_message_flow fair k (queued_messages c) = map message_of (of_flow fair k (map st (cr_frames c)))"
proof -
  have "of_message_flow fair k (map (message_of \<circ> st) fs) = map message_of (of_flow fair k (map st fs))"
    if "\<forall>f \<in> set fs. frame_valid c f" for fs
    using that by (induction fs) (auto simp: frame_valid_flow)
  with assms show ?thesis by (simp add: queued_messages_def)
qed

lemma enqueue_tx:
  assumes "tx_ok c accepted finished out" "enqueue c (Some p) control priority allocated = (0, c')"
  shows "tx_ok c' (accepted @ [(control, priority, p)]) finished out"
proof -
  let ?e = "(category_of control priority, priority, frame_bytes (cr_operator_router c) control p)"
  note tx = assms(1) [unfolded tx_ok_def]
  note e = enqueue_ok [OF conjunct1 [OF tx] assms(2)]
  have entry: "?e = entry_of (cr_operator_router c) (control, priority, p)" by simp
  have st: "st (new_frame c p control priority) = entry_of (cr_operator_router c) (control, priority, p)"
    by (simp add: st_def new_frame_def)
  have "may_send (cr_control_limit c) (control, priority, p)" unfolding may_send.simps by (rule conjI [OF e(7,8)])
  then have "frame_valid c (new_frame c p control priority)" unfolding frame_valid_def st message_of_entry by (rule conjI [OF refl])
  then have valid: "\<forall>f \<in> set (cr_frames c'). frame_valid c f" unfolding e(9) using tx by simp
  then have valid': "\<forall>f \<in> set (cr_frames c'). frame_valid c' f" by (simp add: frame_valid_def e(4,5))
  have "of_message_flow (cr_fair c) k (queued_messages c') = of_message_flow (cr_fair c) k (queued_messages c @ [(control, priority, p)])" for k
    using queued_flow [OF valid', of "cr_fair c" k] queued_flow [of c "cr_fair c" k] tx
    unfolding e(6) [of k] entry by (simp add: filter_append del: entry_of.simps message_of.simps)
  then show ?thesis using tx valid' e(1-5) by (simp add: tx_ok_def)
qed

text \<open>The messages that a packet becomes.\<close>

definition packet_offsets :: "bytes \<Rightarrow> nat list" where
  "packet_offsets p = filter (\<lambda>x. x < length p) [0, WN_DATAGRAM_MAX - 9]"

definition packet_messages :: "bytes \<Rightarrow> u32 \<Rightarrow> nat list \<Rightarrow> sent_message list" where
  "packet_messages p i offs = map (\<lambda>x. (False, False, wn_fragment (Some p) i x)) offs"

lemma enqueue_fragments_tx:
  assumes "tx_ok c accepted finished out" "enqueue_fragments c p i offs oracle = (0, c')"
  shows "tx_ok c' (accepted @ packet_messages p i offs) finished out"
  using assms
proof (induction offs arbitrary: c accepted "oracle")
  case Nil
  then show ?case by (simp add: packet_messages_def)
next
  case (Cons offset offs)
  let ?d = "wn_fragment (Some p) i offset"
  obtain r1 c1 where e: "enqueue c (Some ?d) False False (oracle \<noteq> [] \<and> oracle ! 0) = (r1, c1)" by fastforce
  have r1: "r1 = 0" and rest: "enqueue_fragments c1 p i offs (drop 1 oracle) = (0, c')"
    using Cons.prems(2) e by (auto simp: Let_def wnc_enqueue_def split: if_splits)
  show ?case using Cons.IH [OF enqueue_tx [OF Cons.prems(1) e [unfolded r1]] rest] by (simp add: packet_messages_def)
qed

lemma packet_accepted_run:
  assumes "wnc_enqueue_packet c (Some p) i oracle = (0, c')"
  shows "enqueue_fragments c p i (packet_offsets p) oracle = (0, c')"
proof (cases "length p < 40 \<or> WN_MTU < length p")
  case True
  with assms show ?thesis by (simp add: wnc_enqueue_packet_def)
next
  case False
  obtain r1 c1 where run: "enqueue_fragments c p i (packet_offsets p) oracle = (r1, c1)" by fastforce
  from assms show ?thesis
    unfolding wnc_enqueue_packet_def option.case Let_def if_not_P [OF False] packet_offsets_def [symmetric] run prod.case
    by (cases "r1 = 0") simp_all
qed

lemma carrier_ok_three: "carrier_ok c \<Longrightarrow> cr_fair c \<Longrightarrow> three c"
  by (simp add: carrier_ok_def classes_ok_def)

lemma next_id_tx:
  assumes "tx_ok c accepted finished out"
  shows "tx_ok (c\<lparr>cr_next_id := cr_next_id c + n\<rparr>) accepted finished out"
  using assms
  by (auto simp: tx_ok_def carrier_ok_def frames_ok_def classes_ok_def legacy_ok_def frame_valid_def queued_messages_def trans_less_add1 Let_def)

lemma frame_valid_st:
  assumes "map st fs = map st gs" "\<forall>g \<in> set gs. frame_valid c g"
  shows "\<forall>f \<in> set fs. frame_valid c f"
proof
  fix f assume "f \<in> set fs"
  then have "st f \<in> st ` set gs" using assms(1) by (metis image_eqI set_map)
  then show "frame_valid c f" using assms(2) by (auto simp: frame_valid_def)
qed

lemma frame_valid_cong:
  "cr_operator_router c' = cr_operator_router c \<Longrightarrow> cr_control_limit c' = cr_control_limit c \<Longrightarrow> frame_valid c' = frame_valid c"
  by (simp add: frame_valid_def fun_eq_iff)

text \<open>Progress on the frame in front changes no entry, so only the bytes on the wire grow.\<close>

lemma progress_tx:
  assumes "tx_ok c accepted finished out" "carrier_ok c'" "map st (cr_frames c') = map st (cr_frames (choose_frame c))"
    and "cr_operator_router c' = cr_operator_router c" "cr_control_limit c' = cr_control_limit c" "cr_fair c' = cr_fair c"
    and "partial (cr_frames c') = partial (cr_frames c) @ bs"
  shows "tx_ok c' accepted finished (out @ bs)"
proof -
  note tx = assms(1) [unfolded tx_ok_def]
  have ok: "carrier_ok c" using tx by simp
  note ch = choose_ok [OF ok]
  have "\<forall>f \<in> set (cr_frames (choose_frame c)). frame_valid c f" using tx unfolding ch(4) by simp
  then have valid: "\<forall>f \<in> set (cr_frames c'). frame_valid c' f"
    using frame_valid_st [OF assms(3), of c] frame_valid_cong [OF assms(4,5)] by simp
  have "of_message_flow (cr_fair c) k (queued_messages c') = of_message_flow (cr_fair c) k (queued_messages c)" for k
    using queued_flow [OF valid, of "cr_fair c" k] queued_flow [of c "cr_fair c" k] tx ch(3) [of k] assms(3) by simp
  then show ?thesis using tx valid assms by (simp add: tx_ok_def)
qed

lemma finish_tx:
  assumes "tx_ok c accepted finished out" "carrier_ok c'" "cr_frames (choose_frame c) = f # fs" "cr_frames c' = fs"
    and "cr_operator_router c' = cr_operator_router c" "cr_control_limit c' = cr_control_limit c" "cr_fair c' = cr_fair c"
  shows "tx_ok c' accepted (finished @ [message_of (st f)]) (out @ drop (fr_offset f) (fr_data f))"
proof -
  note tx = assms(1) [unfolded tx_ok_def]
  have ok: "carrier_ok c" using tx by simp
  note ch = choose_ok [OF ok]
  have all: "\<forall>f \<in> set (cr_frames (choose_frame c)). frame_valid c f" using tx unfolding ch(4) by simp
  then have f: "frame_valid c f" and valid: "\<forall>f \<in> set (cr_frames c'). frame_valid c' f"
    using frame_valid_cong [OF assms(5,6)] assms(3,4) by simp_all
  have "of_message_flow (cr_fair c) k (message_of (st f) # queued_messages c') = of_message_flow (cr_fair c) k (queued_messages c)" for k
    using queued_flow [OF valid, of "cr_fair c" k] queued_flow [of c "cr_fair c" k] tx ch(3) [of k, symmetric] assms(3,4)
      frame_valid_flow [OF f, of "cr_fair c"] by (simp split: if_splits)
  then have flows: "of_message_flow (cr_fair c) k accepted = of_message_flow (cr_fair c) k (finished @ message_of (st f) # queued_messages c')" for k
    using tx by simp
  have "partial fs = []" using ch(1) assms(3) by (cases fs) (auto simp: carrier_ok_def frames_ok_def partial_def)
  moreover have "partial (cr_frames c) = take (fr_offset f) (fr_data f)" using ch(2) assms(3) by (simp add: partial_def)
  ultimately have "out @ drop (fr_offset f) (fr_data f) =
      concat (map (wire (cr_operator_router c)) (finished @ [message_of (st f)])) @ partial (cr_frames c')"
    using tx frame_valid_wire [OF f] assms(4) by simp
  moreover have "may_send (cr_control_limit c) (message_of (st f))" using f by (simp add: frame_valid_def)
  ultimately show ?thesis using tx valid flows assms(2,5-7) by (simp add: tx_ok_def)
qed

lemma write_tx:
  assumes "tx_ok c accepted finished out" "pump_write c now write = (r, bs, c')"
  shows "tx_ok c' accepted (finished @ (if length (cr_frames c') < length (cr_frames c)
    then [message_of (st (cr_frames (choose_frame c) ! 0))] else [])) (out @ bs)"
proof -
  have ok: "carrier_ok c" using assms(1) by (simp add: tx_ok_def)
  note ch = choose_ok [OF ok]
  obtain ffs where ffs: "choose_frame c = c\<lparr>cr_frames := ffs\<rparr>" using ch(5) by blast
  show ?thesis
    using ok assms(2)
  proof (cases rule: pump_write_cases)
    case (same fs)
    have "length fs = length (cr_frames c)" using arg_cong [OF same(5), of length] ch(6) by simp
    with same progress_tx [OF assms(1), of c' "[]"] show ?thesis by simp
  next
    case (some f fs n)
    have "map st (cr_frames c') = map st (cr_frames (choose_frame c))" by (simp add: some(1,6) st_def)
    moreover have "partial (cr_frames c') = partial (cr_frames c) @ bs"
      using ch(2) by (simp add: some(1,4,6) partial_def take_add)
    moreover have "length (cr_frames c') = length (cr_frames c)" using ch(6) by (simp add: some(1,6))
    moreover have "cr_operator_router c' = cr_operator_router c" "cr_control_limit c' = cr_control_limit c" "cr_fair c' = cr_fair c"
      by (subst some(7), simp)+
    ultimately show ?thesis using progress_tx [OF assms(1) some(5)] by simp
  next
    case (all f fs)
    have "length (cr_frames c') < length (cr_frames c)" using ch(6) by (simp add: all(1,4))
    moreover have "cr_operator_router c' = cr_operator_router c" "cr_control_limit c' = cr_control_limit c" "cr_fair c' = cr_fair c"
      by (simp_all add: all(5) ffs finish_frame_def class_drop_def Let_def)
    ultimately show ?thesis using finish_tx [OF assms(1) all(3,1,4)] all(1,2) by simp
  qed
qed

section \<open>What the receiver has of the stream\<close>

definition rx_bytes :: "wnc_carrier \<Rightarrow> bytes" where
  "rx_bytes r = cr_header r @ (case cr_body r of None \<Rightarrow> [] | Some b \<Rightarrow> b)"

definition rx_ok :: "wnc_carrier \<Rightarrow> bool" where
  "rx_ok r \<longleftrightarrow> \<not> cr_rx_discard r \<and>
     (if length (cr_header r) < 5 then cr_body r = None \<and> cr_body_have r = 0 \<and> \<not> cr_rx_paused r
      else length (cr_header r) = 5 \<and> cr_body_size r = unat (wn_get32 (drop 1 (cr_header r))) \<and>
        (\<exists>b. cr_body r = Some b \<and> cr_body_have r = length b \<and> length b \<le> cr_body_size r \<and>
          (cr_rx_paused r \<longleftrightarrow> length b = cr_body_size r)))"

text \<open>What the receiver of frames may change on the carrier: anything but the frame being read and the limits.\<close>

definition rx_same :: "wnc_carrier \<Rightarrow> wnc_carrier \<Rightarrow> bool" where
  "rx_same c c' \<longleftrightarrow> cr_header c' = cr_header c \<and> cr_body c' = cr_body c \<and> cr_body_size c' = cr_body_size c \<and>
     cr_body_have c' = cr_body_have c \<and> cr_rx_paused c' = cr_rx_paused c \<and> cr_rx_discard c' = cr_rx_discard c \<and>
     cr_operator_router c' = cr_operator_router c \<and> cr_control_limit c' = cr_control_limit c"

fun plain :: "sent_message \<Rightarrow> bool \<times> bytes" where
  "plain (control, priority, p) = (control, p)"

lemma frame_layout:
  fixes operator control :: bool
  assumes "p \<noteq> []" "length p \<le> 65536"
  defines "sz \<equiv> length p + (if control then 4 else 0)" and "d \<equiv> frame_bytes operator control p"
  shows "length d = 5 + sz" "length (take 5 d) = 5" "unat (wn_get32 (drop 1 (take 5 d))) = sz"
    "d ! 0 = (if operator then (if control then 5 else 4) else (if control then 1 else 2))"
    "drop (if control then 9 else 5) d = p" "control \<Longrightarrow> unat (wn_get32 (drop 5 d)) = sz - 4"
proof -
  have "sz < 2 ^ 32" using assms(2) by (simp add: sz_def)
  then have sz: "unat (of_nat sz :: u32) = sz" by (simp add: unat_of_nat)
  have lp: "unat (of_nat (length p) :: u32) = length p" using assms(2) by (simp add: unat_of_nat)
  have d: "d = (if operator then (if control then 5 else 4) else (if control then 1 else 2)) # wn_put32 (of_nat sz) @
      (if control then wn_put32 (of_nat (length p)) else []) @ p"
    by (simp add: d_def frame_bytes_def sz_def)
  show "length d = 5 + sz" "length (take 5 d) = 5" by (simp_all add: d sz_def)
  have "drop 1 (take 5 d) = wn_put32 (of_nat sz)" by (simp add: d)
  then show "unat (wn_get32 (drop 1 (take 5 d))) = sz" using sz wn_get32_put32 [of "of_nat sz" "[]"] by simp
  show "d ! 0 = (if operator then (if control then 5 else 4) else (if control then 1 else 2))" by (simp add: d)
  show "drop (if control then 9 else 5) d = p" by (simp add: d wn_put32_def)
  have "control \<Longrightarrow> drop 5 d = wn_put32 (of_nat (length p)) @ p" by (simp add: d)
  then show "control \<Longrightarrow> unat (wn_get32 (drop 5 d)) = sz - 4" using lp by (simp add: sz_def)
qed

text \<open>The bytes in flight: whole frames, then a proper prefix of one.\<close>

definition in_flight :: "bool \<Rightarrow> nat \<Rightarrow> sent_message list \<Rightarrow> bytes \<Rightarrow> bool" where
  "in_flight operator limit ms part \<longleftrightarrow> (\<forall>m \<in> set ms. may_send limit m) \<and>
     (\<exists>m n. may_send limit m \<and> n < length (wire operator m) \<and> part = take n (wire operator m))"

lemma in_flight_first:
  assumes "in_flight operator limit ms part"
  obtains m rest where "may_send limit m" "ms = m # rest" "concat (map (wire operator) ms) @ part = wire operator m @ concat (map (wire operator) rest) @ part"
    | m n where "may_send limit m" "ms = []" "concat (map (wire operator) ms) @ part = take n (wire operator m)" "n < length (wire operator m)"
  using assms by (cases ms) (auto simp: in_flight_def)

lemma in_flight_prefix:
  assumes "in_flight operator limit ms part" "have @ channel = concat (map (wire operator) ms) @ part"
  obtains m where "may_send limit m" "\<And>n. n \<le> length (have @ channel) \<Longrightarrow> n \<le> length (wire operator m) \<Longrightarrow> take n (have @ channel) = take n (wire operator m)"
    "length (wire operator m) \<le> length (have @ channel) \<Longrightarrow> \<exists>rest. ms = m # rest"
  using assms(1)
proof (cases rule: in_flight_first)
  case (1 m rest)
  show thesis by (rule that [of m]) (simp_all add: 1 assms(2))
next
  case (2 m n)
  have "have @ channel = take n (wire operator m)" unfolding assms(2) by (rule 2(3))
  then show thesis using 2(4) by (intro that [of m]) (simp_all add: 2(1,2) min_def)
qed

text \<open>
  The receiver of frames keeps what is being read. Its context is the list of the messages it took: each
  call that it answers with 0 adds the payload and the flag it was called with.
\<close>

type_synonym verdict = "wnc_carrier \<Rightarrow> bytes \<Rightarrow> bool \<Rightarrow> int \<times> wnc_carrier"

definition keeps_rx :: "verdict \<Rightarrow> bool" where
  "keeps_rx f \<longleftrightarrow> (\<forall>c p control. rx_same c (snd (f c p control)))"

definition recording :: "verdict \<Rightarrow> (bool \<times> bytes) list receiver" where
  "recording f = (\<lambda>log c p control. case f c p control of
     (q, c') \<Rightarrow> (q, if q = 0 then log @ [(control, p)] else log, c'))"

lemma sendable_layout:
  assumes "may_send limit (control, priority, p)" "limit \<le> 65536"
  shows "p \<noteq> []" "length p \<le> 65536" "control \<Longrightarrow> length p \<le> limit" "\<not> control \<Longrightarrow> length p \<le> WN_DATAGRAM_MAX"
  using assms by (auto simp: WN_DATAGRAM_MAX_def split: if_splits)

lemma deliver_step:
  assumes "length (cr_header r) = 5" "cr_body r = Some b" "length b = cr_body_size r" "cr_body_have r = length b"
    and "cr_body_size r = unat (wn_get32 (drop 1 (cr_header r)))" "\<not> cr_rx_discard r"
    and m: "cr_header r @ b = wire (cr_operator_router r) m" "may_send limit m" "limit \<le> 65536"
    and "keeps_rx f" "deliver_frame r (recording f) log = (res, log', r')" "0 \<le> res"
  shows "rx_ok r'" "cr_operator_router r' = cr_operator_router r" "cr_control_limit r' = cr_control_limit r"
    "rx_bytes r' = (if cr_header r' = [] then [] else rx_bytes r)"
    "log' = log @ (if cr_header r' = [] then [plain m] else [])"
proof -
  obtain control priority p where mm: "m = (control, priority, p)" by (cases m)
  note l = sendable_layout [OF m(2,3) [unfolded mm]]
  let ?d = "frame_bytes (cr_operator_router r) control p"
  have d: "cr_header r @ b = ?d" using m(1) mm by simp
  note fl = frame_layout [OF l(1,2), where operator = "cr_operator_router r" and control = control, folded d]
  have b: "drop 5 (cr_header r @ b) = b" using assms(1) by simp
  have c0: "(cr_header r ! 0 = (if cr_operator_router r then 5 else 1)) = control"
    using fl(4) assms(1) by (auto simp: nth_append split: if_splits)
  have "drop 9 (cr_header r @ b) = drop 4 b" using assms(1) by simp
  then have payload: "drop (if control then 4 else 0) b = p" using fl(5) b by (cases control) simp_all
  have sz: "length b = length p + (if control then 4 else 0)" using fl(1) assms(1) by simp
  have len: "control \<Longrightarrow> unat (wn_get32 b) = cr_body_size r - 4" using fl(6) b assms(3) sz by simp
  obtain q c1 where rc: "f r p control = (q, c1)" by fastforce
  have same: "rx_same r c1" using assms(10) rc unfolding keeps_rx_def by (metis snd_conv)
  have eq: "deliver_frame r (recording f) log = (if 0 < q then (0, log, c1\<lparr>cr_rx_paused := True\<rparr>)
      else if q < 0 then (- 1, log, c1) else (1, log @ [(control, p)], reset_rx c1))"
    using len by (auto simp: deliver_frame_def Let_def c0 assms(2) payload recording_def rc)
  consider "r' = c1\<lparr>cr_rx_paused := True\<rparr>" "log' = log" | "r' = reset_rx c1" "log' = log @ [(control, p)]"
    using eq assms(11,12) by (auto split: if_splits)
  then have "rx_ok r' \<and> cr_operator_router r' = cr_operator_router r \<and> cr_control_limit r' = cr_control_limit r \<and>
      rx_bytes r' = (if cr_header r' = [] then [] else rx_bytes r) \<and> log' = log @ (if cr_header r' = [] then [plain m] else [])"
  proof cases
    case 1
    then show ?thesis using same assms(1-6) by (auto simp: rx_ok_def rx_same_def rx_bytes_def)
  next
    case 2
    then show ?thesis using same by (simp add: rx_ok_def rx_same_def rx_bytes_def reset_rx_def mm)
  qed
  then show "rx_ok r'" "cr_operator_router r' = cr_operator_router r" "cr_control_limit r' = cr_control_limit r"
    "rx_bytes r' = (if cr_header r' = [] then [] else rx_bytes r)"
    "log' = log @ (if cr_header r' = [] then [plain m] else [])" by simp_all
qed

text \<open>A read in the header: the fifth byte opens the body.\<close>

lemma open_step:
  assumes "length (cr_header r) = 5" "cr_header r = take 5 (wire (cr_operator_router r) m)" "may_send limit m"
    and "limit \<le> cr_control_limit r" "limit \<le> 65536" "cr_body_have r = 0" "\<not> cr_rx_paused r"
    and "open_body r allocated = (res, r')" "0 \<le> res"
  shows "rx_ok r'" "rx_bytes r' = cr_header r" "cr_operator_router r' = cr_operator_router r"
    "cr_control_limit r' = cr_control_limit r" "cr_header r' \<noteq> []"
proof -
  obtain control priority p where mm: "m = (control, priority, p)" by (cases m)
  note l = sendable_layout [OF assms(3,5) [unfolded mm]]
  let ?d = "frame_bytes (cr_operator_router r) control p"
  have h: "cr_header r = take 5 ?d" using assms(2) mm by simp
  note fl = frame_layout [OF l(1,2), where operator = "cr_operator_router r" and control = control, folded h]
  have kind: "cr_header r ! 0 = (if cr_operator_router r then (if control then 5 else 4) else (if control then 1 else 2))"
    using fl(4) h by simp
  let ?sz = "length p + (if control then 4 else 0)"
  have lim: "control \<Longrightarrow> \<not> (?sz < 5 \<or> cr_control_limit r + 4 < ?sz)" "\<not> control \<Longrightarrow> \<not> (?sz = 0 \<or> WN_DATAGRAM_MAX < ?sz)"
    using l assms(4) by auto
  have sz: "unat (wn_get32 (drop (Suc 0) (cr_header r))) = ?sz" using fl(3) by simp
  have "r' = r\<lparr>cr_rx_discard := False, cr_body_size := ?sz, cr_body := Some []\<rparr>"
    using assms(8,9) lim by (cases control; cases "cr_operator_router r")
      (auto simp: open_body_def Let_def sz kind split: if_splits)
  then show "rx_ok r'" "rx_bytes r' = cr_header r" "cr_operator_router r' = cr_operator_router r"
    "cr_control_limit r' = cr_control_limit r" "cr_header r' \<noteq> []"
    using assms(1,6,7) sz l(1) by (auto simp: rx_ok_def rx_bytes_def)
qed

text \<open>The header in hand says how long the frame in flight is.\<close>

lemma header_says:
  assumes "in_flight operator limit ms part" "h @ b @ channel = concat (map (wire operator) ms) @ part" "length h = 5" "limit \<le> 65536"
  obtains m where "may_send limit m" "length (wire operator m) = 5 + unat (wn_get32 (drop 1 h))" "h = take 5 (wire operator m)"
    "length b = unat (wn_get32 (drop 1 h)) \<Longrightarrow> \<exists>rest. ms = m # rest \<and> h @ b = wire operator m \<and> channel = concat (map (wire operator) rest) @ part"
proof -
  obtain m where m: "may_send limit m" "\<And>n. n \<le> length (h @ b @ channel) \<Longrightarrow> n \<le> length (wire operator m) \<Longrightarrow> take n (h @ b @ channel) = take n (wire operator m)"
    "length (wire operator m) \<le> length (h @ b @ channel) \<Longrightarrow> \<exists>rest. ms = m # rest"
    by (rule in_flight_prefix [OF assms(1,2)]) blast
  obtain control priority p where mm: "m = (control, priority, p)" by (cases m)
  note l = sendable_layout [OF m(1) [unfolded mm] assms(4)]
  note fl = frame_layout [OF l(1,2), where operator = operator and control = control]
  have "5 \<le> length (wire operator m)" using fl(1) mm by simp
  then have h: "h = take 5 (wire operator m)" using m(2) [of 5] assms(3) by simp
  have len: "length (wire operator m) = 5 + unat (wn_get32 (drop 1 h))" using fl(1,3) h mm by simp
  show thesis
  proof (rule that [OF m(1) len h])
    assume full: "length b = unat (wn_get32 (drop 1 h))"
    then have n: "length (wire operator m) = length (h @ b)" using len assms(3) by simp
    then obtain rest where rest: "ms = m # rest" using m(3) by fastforce
    have "h @ b = take (length (h @ b)) (h @ b @ channel)" by simp
    also have "\<dots> = take (length (h @ b)) (wire operator m)" by (rule m(2)) (simp_all add: n)
    also have "\<dots> = wire operator m" using n by simp
    finally have w: "h @ b = wire operator m" .
    moreover have "(h @ b) @ channel = wire operator m @ concat (map (wire operator) rest) @ part" using assms(2) rest by simp
    ultimately have "channel = concat (map (wire operator) rest) @ part" by (simp only: same_append_eq)
    with w rest show "\<exists>rest. ms = m # rest \<and> h @ b = wire operator m \<and> channel = concat (map (wire operator) rest) @ part" by blast
  qed
qed

lemma full_step:
  assumes "length (cr_header r) = 5" "cr_body r = Some b" "length b = cr_body_size r" "cr_body_have r = length b"
    and "cr_body_size r = unat (wn_get32 (drop 1 (cr_header r)))" "\<not> cr_rx_discard r"
    and "in_flight (cr_operator_router r) limit ms part" "limit \<le> 65536"
    and "cr_header r @ b @ channel = concat (map (wire (cr_operator_router r)) ms) @ part"
    and "keeps_rx f" "deliver_frame r (recording f) log = (res, log', r')" "0 \<le> res"
  shows "\<exists>j. rx_ok r' \<and> cr_operator_router r' = cr_operator_router r \<and> cr_control_limit r' = cr_control_limit r \<and>
    rx_bytes r' @ channel = concat (map (wire (cr_operator_router r)) (drop j ms)) @ part \<and>
    log' = log @ map plain (take j ms)"
proof -
  obtain m rest where m: "may_send limit m" "ms = m # rest" "cr_header r @ b = wire (cr_operator_router r) m"
    "channel = concat (map (wire (cr_operator_router r)) rest) @ part"
    using header_says [OF assms(7,9,1,8)] assms(3,5) by metis
  note d = deliver_step [OF assms(1-6) m(3,1) assms(8,10-12)]
  have b: "rx_bytes r = wire (cr_operator_router r) m" using m(3) assms(2) by (simp add: rx_bytes_def)
  show ?thesis
  proof (cases "cr_header r' = []")
    case True
    then show ?thesis using d m by (intro exI [of _ 1]) simp
  next
    case False
    then show ?thesis using d b m by (intro exI [of _ 0]) simp
  qed
qed

text \<open>One read of at most what is in flight, with every result but an error.\<close>

lemma read_step:
  assumes "rx_ok r" "in_flight (cr_operator_router r) limit ms part" "limit \<le> cr_control_limit r" "limit \<le> 65536"
    and "rx_bytes r @ channel = concat (map (wire (cr_operator_router r)) ms) @ part" "keeps_rx f"
    and "pump_read r now (\<lambda>_. (int k, take k channel)) allocated (recording f) log = (res, log', r')" "0 \<le> res" "k \<le> length channel"
  shows "\<exists>j. rx_ok r' \<and> cr_operator_router r' = cr_operator_router r \<and> cr_control_limit r' = cr_control_limit r \<and>
    rx_bytes r' @ drop (if cr_rx_paused r then 0 else k) channel = concat (map (wire (cr_operator_router r)) (drop j ms)) @ part \<and>
    log' = log @ map plain (take j ms)"
proof (cases "length (cr_header r) < 5")
  case True
  then have r: "cr_body r = None" "cr_body_have r = 0" "\<not> cr_rx_paused r" "\<not> cr_rx_discard r" using assms(1) by (auto simp: rx_ok_def)
  let ?r1 = "(if cr_header r = [] then r\<lparr>cr_rx_started := now\<rparr> else r)\<lparr>cr_rx_progress := now, cr_header := cr_header r @ take k channel\<rparr>"
  have k: "0 < k" "k \<le> 5 - length (cr_header r)"
    and run: "(if length (cr_header ?r1) = 5 then open_body ?r1 allocated else (1, ?r1)) = (res, r')" and none: "log' = log"
    using assms(7,8) True r by (auto simp: pump_read_def Let_def split: if_splits prod.splits)
  have stream: "cr_header ?r1 @ drop k channel = concat (map (wire (cr_operator_router r)) ms) @ part"
    using assms(5) r(1) by (simp add: rx_bytes_def)
  have len: "length (cr_header ?r1) = length (cr_header r) + k" using assms(9) by simp
  show ?thesis
  proof (cases "length (cr_header ?r1) = 5")
    case five: True
    obtain m where m: "may_send limit m" "cr_header ?r1 = take 5 (wire (cr_operator_router r) m)"
      using header_says [OF assms(2), of "cr_header ?r1" "[]" "drop k channel"] stream five assms(4) by (metis append_Nil)
    have "open_body ?r1 allocated = (res, r')" using run five by simp
    from open_step [OF five _ m(1) _ assms(4) _ _ this assms(8)] m(2) assms(3) r
    have "rx_ok r' \<and> rx_bytes r' = cr_header ?r1 \<and> cr_operator_router r' = cr_operator_router r \<and> cr_control_limit r' = cr_control_limit r"
      by simp
    then show ?thesis using stream none r(3) by (intro exI [of _ 0]) simp
  next
    case False
    then have "r' = ?r1" using run by simp
    moreover have "length (cr_header r) + k < 5" using False len k True by linarith
    ultimately show ?thesis using stream none r len by (intro exI [of _ 0]) (auto simp: rx_ok_def rx_bytes_def)
  qed
next
  case False
  then obtain b where r: "length (cr_header r) = 5" "cr_body r = Some b" "cr_body_have r = length b" "length b \<le> cr_body_size r"
    "cr_rx_paused r \<longleftrightarrow> length b = cr_body_size r" "cr_body_size r = unat (wn_get32 (drop 1 (cr_header r)))" "\<not> cr_rx_discard r"
    using assms(1) by (auto simp: rx_ok_def)
  have rb: "rx_bytes r = cr_header r @ b" using r by (simp add: rx_bytes_def)
  show ?thesis
  proof (cases "cr_rx_paused r")
    case True
    have "deliver_frame r (recording f) log = (res, log', r')" using assms(7) True by (simp add: pump_read_def)
    from full_step [OF r(1,2) _ r(3,6,7) assms(2,4) _ assms(6) this assms(8)] assms(5) True r rb
    show ?thesis by simp
  next
    case False
    let ?r1 = "r\<lparr>cr_rx_progress := now, cr_body_have := length b + k, cr_body := Some (b @ take k channel)\<rparr>"
    have k: "0 < k" "k \<le> cr_body_size r - length b"
      and run: "(if length b + k = cr_body_size r then deliver_frame ?r1 (recording f) log else (1, log, ?r1)) = (res, log', r')"
      using assms(7,8) False r(1-5,7) by (auto simp: pump_read_def Let_def split: if_splits)
    have stream: "cr_header r @ (b @ take k channel) @ drop k channel = concat (map (wire (cr_operator_router r)) ms) @ part"
      using assms(5) rb by simp
    show ?thesis
    proof (cases "length b + k = cr_body_size r")
      case True
      then have "deliver_frame ?r1 (recording f) log = (res, log', r')" using run by simp
      then have "\<exists>j. rx_ok r' \<and> cr_operator_router r' = cr_operator_router ?r1 \<and> cr_control_limit r' = cr_control_limit ?r1 \<and>
          rx_bytes r' @ drop k channel = concat (map (wire (cr_operator_router ?r1)) (drop j ms)) @ part \<and>
          log' = log @ map plain (take j ms)"
        by (intro full_step [where r = ?r1 and b = "b @ take k channel", OF _ _ _ _ _ _ _ assms(4) _ assms(6) _ assms(8)]) (use stream True assms(2,9) r in simp_all)
      then show ?thesis using False by simp
    next
      case more: False
      then have "r' = ?r1" "log' = log" using run by simp_all
      then show ?thesis using stream False more k r assms(9)
        by (intro exI [of _ 0]) (auto simp: rx_ok_def rx_bytes_def)
    qed
  qed
qed

section \<open>Both ends\<close>

text \<open>A carrier between its initialisation and its first frame.\<close>

inductive configured :: "wnc_carrier \<Rightarrow> bool" where
  init: "wnc_init header_size True small_size limit control_limit c0 = (0, c) \<Longrightarrow> configured c"
| operator_router: "configured c \<Longrightarrow> wnc_operator_router c = (0, c') \<Longrightarrow> configured c'"
| fair_scheduler: "configured c \<Longrightarrow> wnc_fair_scheduler c frames = (0, c') \<Longrightarrow> configured c'"

abbreviation turn_flags :: "wnc_carrier \<Rightarrow> bool \<times> bool" where
  "turn_flags c \<equiv> (cr_last_routing c, cr_last_metadata c)"

lemma configured_fields:
  assumes "configured c"
  shows "cr_open c \<and> cr_frames c = [] \<and> cr_queued c = 0 \<and> cr_class c = [[], [], []] \<and> cr_class_bytes c = [0, 0, 0] \<and>
    cr_class_frames c = [0, 0, 0] \<and> cr_header c = [] \<and> cr_body c = None \<and> cr_body_have c = 0 \<and> \<not> cr_rx_paused c \<and>
    \<not> cr_rx_discard c \<and> cr_control_limit c \<le> 65536 \<and> turn_flags c = (False, False) \<and> (cr_fair c \<longrightarrow> 3 * WNC_CLASS_RESERVE \<le> cr_limit c)"
  using assms
  by induction (auto simp: wnc_init_def zero_carrier_def wnc_operator_router_def wnc_fair_scheduler_def split: if_splits)

lemma configured_ok: "configured c \<Longrightarrow> carrier_ok c"
  using configured_fields [of c]
  by (auto simp: carrier_ok_def frames_ok_def classes_ok_def legacy_ok_def missing_reserve_def three_classes)

record link_state =
  lk_sender :: wnc_carrier
  lk_receiver :: wnc_carrier
  lk_accepted :: "sent_message list"
  lk_finished :: "sent_message list"
  lk_channel :: bytes
  lk_delivered :: "(bool \<times> bytes) list"
  lk_picks :: "(nat \<times> bool list) list"

text \<open>A frame is picked when it is first written: its class, and the classes that waited.\<close>

definition picked :: "wnc_carrier \<Rightarrow> (nat \<times> bool list) list" where
  "picked c = (case cr_frames (choose_frame c) of
     [] \<Rightarrow> []
   | f # _ \<Rightarrow> if fr_begun f then [] else [(fr_category f, map (waiting c) [0, 1, 2])])"

text \<open>What reading at the sender's end may change there.\<close>

definition tx_same :: "wnc_carrier \<Rightarrow> wnc_carrier \<Rightarrow> bool" where
  "tx_same c c' \<longleftrightarrow> c' = c\<lparr>cr_header := cr_header c', cr_body := cr_body c', cr_body_size := cr_body_size c',
     cr_body_have := cr_body_have c', cr_rx_paused := cr_rx_paused c', cr_rx_discard := cr_rx_discard c',
     cr_rx_started := cr_rx_started c', cr_rx_progress := cr_rx_progress c'\<rparr>"

inductive link :: "link_state \<Rightarrow> bool" where
  connect: "configured s \<Longrightarrow> configured r \<Longrightarrow> cr_operator_router r = cr_operator_router s \<Longrightarrow>
    cr_control_limit s \<le> cr_control_limit r \<Longrightarrow>
    link \<lparr>lk_sender = s, lk_receiver = r, lk_accepted = [], lk_finished = [], lk_channel = [], lk_delivered = [],
      lk_picks = []\<rparr>"
| queue: "link L \<Longrightarrow> enqueue (lk_sender L) (Some p) control priority allocated = (0, s) \<Longrightarrow>
    link (L\<lparr>lk_sender := s, lk_accepted := lk_accepted L @ [(control, priority, p)]\<rparr>)"
| packet: "link L \<Longrightarrow> wnc_enqueue_packet (lk_sender L) (Some p) i allocations = (res, s) \<Longrightarrow>
    link (L\<lparr>lk_sender := s, lk_accepted := lk_accepted L @ (if res = 0 then packet_messages p i (packet_offsets p) else [])\<rparr>)"
| send: "link L \<Longrightarrow> pump_write (lk_sender L) now write = (res, bs, s) \<Longrightarrow>
    link (L\<lparr>lk_sender := s, lk_channel := lk_channel L @ bs,
      lk_finished := lk_finished L @ (if length (cr_frames s) < length (cr_frames (lk_sender L))
        then [message_of (st (cr_frames (choose_frame (lk_sender L)) ! 0))] else []),
      lk_picks := lk_picks L @ picked (lk_sender L)\<rparr>)"
| receive: "link L \<Longrightarrow> keeps_rx f \<Longrightarrow> k \<le> length (lk_channel L) \<Longrightarrow>
    pump_read (lk_receiver L) now (\<lambda>_. (int k, take k (lk_channel L))) allocated (recording f) (lk_delivered L) =
      (res, taken, r) \<Longrightarrow> 0 \<le> res \<Longrightarrow>
    link (L\<lparr>lk_receiver := r, lk_channel := drop (if cr_rx_paused (lk_receiver L) then 0 else k) (lk_channel L),
      lk_delivered := taken\<rparr>)"
| sender_reads: "link L \<Longrightarrow> tx_same (lk_sender L) s \<Longrightarrow> link (L\<lparr>lk_sender := s\<rparr>)"
| receiver_sends: "link L \<Longrightarrow> rx_same (lk_receiver L) r \<Longrightarrow> link (L\<lparr>lk_receiver := r\<rparr>)"

definition link_ok :: "link_state \<Rightarrow> nat \<Rightarrow> bool" where
  "link_ok L n \<longleftrightarrow> (let s = lk_sender L; r = lk_receiver L in
     tx_ok s (lk_accepted L) (lk_finished L) (concat (map (wire (cr_operator_router s)) (lk_finished L)) @ partial (cr_frames s)) \<and>
     rx_ok r \<and> cr_operator_router r = cr_operator_router s \<and> cr_control_limit s \<le> cr_control_limit r \<and> cr_control_limit s \<le> 65536 \<and>
     n \<le> length (lk_finished L) \<and> lk_delivered L = map plain (take n (lk_finished L)) \<and>
     rx_bytes r @ lk_channel L = concat (map (wire (cr_operator_router s)) (drop n (lk_finished L))) @ partial (cr_frames s))"

lemma tx_in_flight:
  assumes "tx_ok s accepted finished out"
  shows "in_flight (cr_operator_router s) (cr_control_limit s) (drop n finished) (partial (cr_frames s))"
proof -
  note tx = assms [unfolded tx_ok_def]
  have "\<forall>m \<in> set (drop n finished). may_send (cr_control_limit s) m" using tx by (meson in_set_dropD)
  moreover have "\<exists>m k. may_send (cr_control_limit s) m \<and> k < length (wire (cr_operator_router s) m) \<and>
      partial (cr_frames s) = take k (wire (cr_operator_router s) m)"
  proof (cases "cr_frames s")
    case Nil
    then show ?thesis
      by (intro exI [of _ "(False, False, [0])"] exI [of _ 0]) (simp add: partial_def WN_DATAGRAM_MAX_def frame_bytes_def)
  next
    case (Cons f fs)
    then have f: "frame_valid s f" "fr_offset f < length (fr_data f)" using tx by (auto simp: carrier_ok_def frames_ok_def)
    then show ?thesis using frame_valid_wire [OF f(1)] Cons
      by (intro exI [of _ "message_of (st f)"] exI [of _ "fr_offset f"]) (simp add: partial_def frame_valid_def)
  qed
  ultimately show ?thesis by (simp add: in_flight_def)
qed

lemma packet_step:
  assumes "tx_ok c accepted finished out" "wnc_enqueue_packet c (Some p) i allocations = (res, c')"
  shows "tx_ok c' (accepted @ (if res = 0 then packet_messages p i (packet_offsets p) else [])) finished out"
    "cr_operator_router c' = cr_operator_router c \<and> cr_control_limit c' = cr_control_limit c"
proof -
  have three: "cr_fair c \<longrightarrow> three c" using assms(1) carrier_ok_three by (auto simp: tx_ok_def)
  have "tx_ok c' (accepted @ (if res = 0 then packet_messages p i (packet_offsets p) else [])) finished out \<and>
    cr_operator_router c' = cr_operator_router c \<and> cr_control_limit c' = cr_control_limit c"
  proof (cases "res = 0")
    case True
    have run: "enqueue_fragments c p i (packet_offsets p) allocations = (0, c')" using packet_accepted_run assms(2) True by simp
    obtain new where "c' = pushed c new" by (rule enqueue_fragments_pushed [OF three run])
    then show ?thesis using enqueue_fragments_tx [OF assms(1) run] True by (simp add: pushed_def Let_def)
  next
    case False
    obtain n where "c' = c\<lparr>cr_next_id := cr_next_id c + n\<rparr>" using packet_rolled_back [OF three assms(2) False] by blast
    then show ?thesis using next_id_tx [OF assms(1), of n] False by simp
  qed
  then show "tx_ok c' (accepted @ (if res = 0 then packet_messages p i (packet_offsets p) else [])) finished out"
    "cr_operator_router c' = cr_operator_router c \<and> cr_control_limit c' = cr_control_limit c" by blast+
qed

lemma pump_write_keeps:
  assumes "carrier_ok c" "pump_write c now write = (r, bs, c')"
  shows "cr_operator_router c' = cr_operator_router c" "cr_control_limit c' = cr_control_limit c"
proof -
  obtain ffs where ffs: "choose_frame c = c\<lparr>cr_frames := ffs\<rparr>" using choose_ok(5) [OF assms(1)] by blast
  have "cr_operator_router c' = cr_operator_router c \<and> cr_control_limit c' = cr_control_limit c"
    using assms
  proof (cases rule: pump_write_cases)
    case (some f fs n)
    show ?thesis by (subst (1 2) some(7)) simp
  qed (simp_all add: ffs)
  then show "cr_operator_router c' = cr_operator_router c" "cr_control_limit c' = cr_control_limit c" by blast+
qed

text \<open>The channel follows the sender: what it finished and has begun is what the other end has and will read.\<close>

lemma link_send:
  assumes "link_ok L n" "tx_ok s accepted (lk_finished L @ extra) (concat (map (wire (cr_operator_router (lk_sender L))) (lk_finished L)) @
      partial (cr_frames (lk_sender L)) @ bs)"
    and "cr_operator_router s = cr_operator_router (lk_sender L)" "cr_control_limit s = cr_control_limit (lk_sender L)"
  shows "link_ok (L\<lparr>lk_sender := s, lk_accepted := accepted, lk_channel := lk_channel L @ bs, lk_finished := lk_finished L @ extra,
      lk_picks := ps\<rparr>) n"
proof -
  have out: "concat (map (wire (cr_operator_router s)) (lk_finished L @ extra)) @ partial (cr_frames s) =
      concat (map (wire (cr_operator_router (lk_sender L))) (lk_finished L)) @ partial (cr_frames (lk_sender L)) @ bs"
    using assms(2) by (simp add: tx_ok_def)
  then have "concat (map (wire (cr_operator_router s)) extra) @ partial (cr_frames s) = partial (cr_frames (lk_sender L)) @ bs"
    using assms(3) by simp
  then show ?thesis using assms out by (simp add: link_ok_def Let_def)
qed

lemma link_receive:
  assumes "link_ok L n" "keeps_rx f" "k \<le> length (lk_channel L)" "0 \<le> res"
    and "pump_read (lk_receiver L) now (\<lambda>_. (int k, take k (lk_channel L))) allocated (recording f) (lk_delivered L) =
      (res, taken, r)"
  shows "\<exists>n. link_ok (L\<lparr>lk_receiver := r, lk_channel := drop (if cr_rx_paused (lk_receiver L) then 0 else k) (lk_channel L),
      lk_delivered := taken\<rparr>) n"
proof -
  let ?s = "lk_sender L" and ?r = "lk_receiver L" and ?ms = "drop n (lk_finished L)"
  note L = assms(1) [unfolded link_ok_def Let_def]
  have op: "cr_operator_router ?r = cr_operator_router ?s" using L by simp
  have fl: "in_flight (cr_operator_router ?r) (cr_control_limit ?s) ?ms (partial (cr_frames ?s))"
    unfolding op using L by (blast intro: tx_in_flight)
  obtain j where j: "rx_ok r" "cr_operator_router r = cr_operator_router ?r" "cr_control_limit r = cr_control_limit ?r"
    "rx_bytes r @ drop (if cr_rx_paused ?r then 0 else k) (lk_channel L) =
      concat (map (wire (cr_operator_router ?r)) (drop j ?ms)) @ partial (cr_frames ?s)"
    "taken = lk_delivered L @ map plain (take j ?ms)"
    using read_step [OF _ fl _ _ _ assms(2,5,4,3)] L by auto
  obtain N where N: "drop j ?ms = drop N (lk_finished L)" "take n (lk_finished L) @ take j ?ms = take N (lk_finished L)" "N \<le> length (lk_finished L)"
  proof (rule that)
    let ?n = "n + min j (length ?ms)"
    show "drop j ?ms = drop ?n (lk_finished L)" by (cases "j \<le> length ?ms") (auto simp: add.commute min_def)
    show "take n (lk_finished L) @ take j ?ms = take ?n (lk_finished L)" using L by (auto simp: take_add min_def)
    show "?n \<le> length (lk_finished L)" using L by auto
  qed
  have "taken = map plain (take N (lk_finished L))"
    using L j(5) N(2) by (metis map_append)
  moreover have "tx_ok ?s (lk_accepted L) (lk_finished L) (concat (map (wire (cr_operator_router ?s)) (lk_finished L)) @ partial (cr_frames ?s))"
    "cr_control_limit ?s \<le> cr_control_limit ?r" "cr_control_limit ?s \<le> 65536" using L by blast+
  ultimately show ?thesis using j(1-3) j(4) [unfolded N(1) op] N(3) op
    by (intro exI [of _ N]) (simp add: link_ok_def Let_def)
qed

lemma tx_same_cases:
  assumes "tx_same c c'"
  obtains h b sz hv pa di st' pr where "c' = c\<lparr>cr_header := h, cr_body := b, cr_body_size := sz, cr_body_have := hv,
      cr_rx_paused := pa, cr_rx_discard := di, cr_rx_started := st', cr_rx_progress := pr\<rparr>"
  using assms unfolding tx_same_def by blast

lemma tx_same_ok:
  assumes "tx_ok c accepted finished out" "tx_same c c'"
  shows "tx_ok c' accepted finished out" "cr_operator_router c' = cr_operator_router c"
    "cr_control_limit c' = cr_control_limit c" "cr_frames c' = cr_frames c"
proof -
  obtain h b sz hv pa di st' pr where c': "c' = c\<lparr>cr_header := h, cr_body := b, cr_body_size := sz, cr_body_have := hv,
      cr_rx_paused := pa, cr_rx_discard := di, cr_rx_started := st', cr_rx_progress := pr\<rparr>"
    by (rule tx_same_cases [OF assms(2)])
  show "tx_ok c' accepted finished out" using assms(1)
    by (cases "cr_fair c") (auto simp: c' tx_ok_def carrier_ok_def frames_ok_def classes_ok_def legacy_ok_def frame_valid_def queued_messages_def)
  show "cr_operator_router c' = cr_operator_router c" "cr_control_limit c' = cr_control_limit c" "cr_frames c' = cr_frames c"
    by (simp_all add: c')
qed

lemma rx_same_ok: "rx_same r r' \<Longrightarrow> rx_ok r' = rx_ok r \<and> rx_bytes r' = rx_bytes r"
  by (simp add: rx_same_def rx_ok_def rx_bytes_def)

theorem link_invariant:
  assumes "link L"
  shows "\<exists>n. link_ok L n"
  using assms
proof induction
  case (connect s r)
  note c = configured_fields [OF connect(1)] configured_fields [OF connect(2)]
  have "tx_ok s [] [] []"
    using c(1) configured_ok [OF connect(1)] by (simp add: tx_ok_def queued_messages_def partial_def)
  then show ?case using c connect(3,4)
    by (intro exI [of _ 0]) (simp add: link_ok_def Let_def partial_def rx_ok_def rx_bytes_def)
next
  case (queue L p control priority allocated s)
  then obtain n where n: "link_ok L n" by blast
  note L = n [unfolded link_ok_def Let_def]
  have ok: "carrier_ok (lk_sender L)" using L by (simp add: tx_ok_def)
  note e = enqueue_ok [OF ok queue(2)]
  have tx: "tx_ok s (lk_accepted L @ [(control, priority, p)]) (lk_finished L @ [])
      (concat (map (wire (cr_operator_router (lk_sender L))) (lk_finished L)) @ partial (cr_frames (lk_sender L)) @ [])"
    using enqueue_tx [OF conjunct1 [OF L] queue(2)] by simp
  show ?case using link_send [OF n tx e(4,5), of "lk_picks L"] by (intro exI [of _ n]) simp
next
  case (packet L p i allocations res s)
  then obtain n where n: "link_ok L n" by blast
  note L = n [unfolded link_ok_def Let_def]
  note e = packet_step [OF conjunct1 [OF L] packet(2)]
  show ?case using link_send [OF n, of s _ "[]" "[]" "lk_picks L"] e by (intro exI [of _ n]) simp
next
  case (send L now w res bs s)
  then obtain n where n: "link_ok L n" by blast
  note L = n [unfolded link_ok_def Let_def]
  have ok: "carrier_ok (lk_sender L)" using L by (simp add: tx_ok_def)
  show ?case using link_send [OF n, of s "lk_accepted L" _ _ "lk_picks L @ picked (lk_sender L)"] write_tx [OF conjunct1 [OF L] send(2)] pump_write_keeps [OF ok send(2)]
    by (intro exI [of _ n]) simp
next
  case (receive L f k now allocated res taken r)
  then obtain n where "link_ok L n" by blast
  then show ?case by (rule link_receive [OF _ receive(2,3,5,4)])
next
  case (sender_reads L s)
  then obtain n where n: "link_ok L n" by blast
  note L = n [unfolded link_ok_def Let_def]
  show ?case using link_send [OF n, of s "lk_accepted L" "[]" "[]" "lk_picks L"] tx_same_ok [OF conjunct1 [OF L] sender_reads(2)]
    by (intro exI [of _ n]) simp
next
  case (receiver_sends L r)
  then obtain n where "link_ok L n" by blast
  then show ?case using receiver_sends(2) rx_same_ok [OF receiver_sends(2)]
    by (intro exI [of _ n]) (simp add: link_ok_def Let_def rx_same_def)
qed

section \<open>Shares\<close>

text \<open>The choice of a class from the two flags and the classes that wait, and what a turn does to the flags.\<close>

definition pick_from :: "bool \<times> bool \<Rightarrow> bool list \<Rightarrow> nat" where
  "pick_from flags w =
     (if \<not> fst flags \<and> w ! 0 then 0 else if \<not> snd flags \<and> w ! 1 then 1 else if w ! 2 then 2
      else if w ! 1 then 1 else if w ! 0 then 0 else 3)"

definition turn :: "nat \<Rightarrow> bool \<times> bool \<Rightarrow> bool \<times> bool" where
  "turn k flags = (k = 0, if k \<noteq> 0 then k = 1 else snd flags)"

definition flags_after :: "(nat \<times> bool list) list \<Rightarrow> bool \<times> bool" where
  "flags_after ps = fold (\<lambda>p. turn (fst p)) ps (False, False)"

primrec fair_from :: "bool \<times> bool \<Rightarrow> (nat \<times> bool list) list \<Rightarrow> bool" where
  "fair_from flags [] = True"
| "fair_from flags (p # ps) = (fst p = pick_from flags (snd p) \<and> fair_from (turn (fst p) flags) ps)"

lemma fair_from_append: "fair_from flags (ps @ qs) = (fair_from flags ps \<and> fair_from (fold (\<lambda>p. turn (fst p)) ps flags) qs)"
  by (induction ps arbitrary: flags) simp_all

lemma four_turns:
  assumes "fair_from flags [p, q, r, s]" "j < 3" "snd p ! j" "snd q ! j" "snd r ! j" "snd s ! j"
  shows "j \<in> {fst p, fst q, fst r, fst s}"
proof -
  from \<open>j < 3\<close> consider "j = 0" | "j = 1" | "j = 2" by linarith
  then show ?thesis using assms by cases (auto simp: pick_from_def turn_def split: if_splits)
qed

definition begun_head :: "wnc_carrier \<Rightarrow> bool" where
  "begun_head c \<longleftrightarrow> cr_frames c \<noteq> [] \<and> fr_begun (cr_frames c ! 0)"

definition picks_ok :: "wnc_carrier \<Rightarrow> (nat \<times> bool list) list \<Rightarrow> bool" where
  "picks_ok c ps \<longleftrightarrow> (cr_fair c \<longrightarrow> fair_from (False, False) ps \<and>
     (if begun_head c then ps \<noteq> [] \<and> fst (last ps) = fr_category (cr_frames c ! 0) \<and> turn_flags c = flags_after (butlast ps)
      else turn_flags c = flags_after ps))"

lemma pick_class_from: "pick_class c = pick_from (turn_flags c) (map (waiting c) [0, 1, 2])"
  by (simp add: pick_class_def pick_from_def)

lemma pump_write_begun:
  assumes "pump_write c now w = (r, bs, c')" "cr_frames (choose_frame c) = f # fs" "length (cr_frames c') = length (f # fs)"
  shows "begun_head c'"
  using assms by (auto simp: pump_write_def Let_def begun_head_def split: if_splits)

lemma picks_same_head:
  assumes "picks_ok c ps" "cr_fair c' = cr_fair c" "turn_flags c' = turn_flags c" "cr_frames c' = cr_frames c @ new" "\<forall>f \<in> set new. \<not> fr_begun f"
  shows "picks_ok c' ps"
proof -
  have "begun_head c' = begun_head c \<and> (begun_head c \<longrightarrow> cr_frames c' ! 0 = cr_frames c ! 0)"
    using assms(4,5) by (cases "cr_frames c"; cases new) (auto simp: begun_head_def nth_append)
  then show ?thesis using assms(1-3) by (simp add: picks_ok_def)
qed

lemma picks_legacy: "\<not> cr_fair c \<Longrightarrow> picks_ok c ps"
  by (simp add: picks_ok_def)

lemma flags_after_last: "qs \<noteq> [] \<Longrightarrow> flags_after qs = turn (fst (last qs)) (flags_after (butlast qs))"
  by (cases qs rule: rev_cases) (simp_all add: flags_after_def)

text \<open>The frame that a write works on is the one of the last pick.\<close>

lemma picked_last:
  assumes "carrier_ok c" "cr_fair c" "picks_ok c ps" "cr_frames (choose_frame c) = f # fs"
  defines "qs \<equiv> ps @ picked c"
  shows "qs \<noteq> []" "fst (last qs) = fr_category f" "turn_flags c = flags_after (butlast qs)" "fair_from (False, False) qs"
proof -
  obtain ffs where ffs: "choose_frame c = c\<lparr>cr_frames := ffs\<rparr>"
    "begun_head c \<Longrightarrow> ffs = cr_frames c"
    "ffs \<noteq> [] \<Longrightarrow> \<not> fr_begun (cr_frames c ! 0) \<Longrightarrow> fr_category (ffs ! 0) = pick_class c"
    using choose_frame_frames [OF assms(1)] assms(2) unfolding begun_head_def by metis
  then have ffs_eq: "ffs = f # fs" using assms(4) by simp
  have set: "set ffs = set (cr_frames c)" using choose_ok(4) [OF assms(1)] ffs(1) by simp
  then have f: "f \<in> set (cr_frames c)" "cr_frames c \<noteq> []" using ffs_eq by auto
  have "qs \<noteq> [] \<and> fst (last qs) = fr_category f \<and> turn_flags c = flags_after (butlast qs) \<and> fair_from (False, False) qs"
  proof (cases "begun_head c")
    case True
    then have fr: "cr_frames c = f # fs" using ffs(2) ffs_eq by simp
    then have "f = cr_frames c ! 0" "fr_begun f" using True by (simp_all add: begun_head_def)
    then show ?thesis using assms(2,3) True by (simp add: qs_def picked_def assms(4) picks_ok_def)
  next
    case False
    then have head: "\<not> fr_begun (cr_frames c ! 0)" using f by (simp add: begun_head_def)
    have "\<forall>g \<in> set (drop 1 (cr_frames c)). \<not> fr_begun g" using assms(1) by (simp add: carrier_ok_def frames_ok_def)
    then have nb: "\<not> fr_begun f" using f head by (cases "cr_frames c") auto
    have "fr_category f = pick_class c" using ffs(3) head ffs_eq by simp
    then show ?thesis using assms(2,3) False nb
      by (simp add: qs_def picked_def assms(4) picks_ok_def fair_from_append pick_class_from flags_after_def)
  qed
  then show "qs \<noteq> []" "fst (last qs) = fr_category f" "turn_flags c = flags_after (butlast qs)" "fair_from (False, False) qs"
    by simp_all
qed

lemma write_picks:
  assumes "carrier_ok c" "picks_ok c ps" "pump_write c now w = (r, bs, c')"
  shows "picks_ok c' (ps @ picked c)"
proof (cases "cr_fair c \<and> cr_frames (choose_frame c) \<noteq> []")
  case True
  then obtain f fs where ch: "cr_frames (choose_frame c) = f # fs" by (cases "cr_frames (choose_frame c)") auto
  define qs where "qs = ps @ picked c"
  note q = picked_last [OF assms(1) _ assms(2) ch, folded qs_def, OF conjunct1 [OF True]]
  obtain ffs where ffs: "choose_frame c = c\<lparr>cr_frames := ffs\<rparr>" using choose_ok(5) [OF assms(1)] by blast
  have begun: "picks_ok c' qs" if "c' = c\<lparr>cr_frames := gs\<rparr>" "map st gs = map st (f # fs)" for gs
  proof -
    have "length gs = length (f # fs)" using arg_cong [OF that(2), of length] by simp
    then have "begun_head c'" using pump_write_begun [OF assms(3) ch] that(1) by simp
    moreover have "fr_category (gs ! 0) = fr_category f" using that(2) by (cases gs) (auto simp: st_def)
    ultimately show ?thesis using q that(1) by (simp add: picks_ok_def)
  qed
  from assms(1,3) have "picks_ok c' qs"
  proof (cases rule: pump_write_cases)
    case (same gs)
    then show ?thesis using begun ch by simp
  next
    case (some g gs n)
    then show ?thesis using begun [OF some(7)] ch by (simp add: st_def)
  next
    case (all g gs)
    then have c': "c' = finish_frame (choose_frame c) f" "cr_frames c' = fs" using ch by simp_all
    have "\<not> begun_head c'" using choose_ok(1) [OF assms(1)] ch c'(2)
      by (cases fs) (auto simp: begun_head_def carrier_ok_def frames_ok_def)
    moreover have "turn_flags c' = turn (fr_category f) (turn_flags c)" "cr_fair c' = cr_fair c"
      using True by (simp_all add: c'(1) ffs finish_frame_def class_drop_def Let_def turn_def)
    ultimately show ?thesis using q flags_after_last [OF q(1)] True by (simp add: picks_ok_def)
  qed
  then show ?thesis by (simp add: qs_def)
next
  case False
  show ?thesis
  proof (cases "cr_fair c")
    case fair: True
    then have none: "cr_frames (choose_frame c) = []" "cr_frames c = []"
      using False choose_ok(4) [OF assms(1)] by auto
    then have "choose_frame c = c" by (simp add: choose_frame_def)
    then show ?thesis using none assms(2,3) by (simp add: picked_def pump_write_def)
  next
    case legacy: False
    obtain ffs where ffs: "choose_frame c = c\<lparr>cr_frames := ffs\<rparr>" using choose_ok(5) [OF assms(1)] by blast
    from assms(1,3) have "cr_fair c' = cr_fair c"
    proof (cases rule: pump_write_cases)
      case (some g gs n)
      show ?thesis by (subst some(7)) simp
    qed (simp_all add: ffs)
    with legacy show ?thesis by (simp add: picks_legacy)
  qed
qed

lemma link_picks:
  assumes "link L"
  shows "picks_ok (lk_sender L) (lk_picks L)"
  using assms
proof induction
  case (connect s r)
  then show ?case using configured_fields [OF connect(1)] by (simp add: picks_ok_def begun_head_def flags_after_def)
next
  case (queue L p control priority allocated s)
  obtain n where "link_ok L n" using link_invariant [OF queue(1)] by blast
  then have ok: "carrier_ok (lk_sender L)" by (simp add: link_ok_def Let_def tx_ok_def)
  have s: "s = append_frame (lk_sender L) (new_frame (lk_sender L) p control priority)"
    using enqueue_accepted [OF queue(2)] by (metis option.inject)
  show ?case
  proof (cases "cr_fair (lk_sender L)")
    case True
    then show ?thesis using picks_same_head [OF queue(3), of s "[new_frame (lk_sender L) p control priority]"]
      by (simp add: s append_frame_def Let_def new_frame_def)
  next
    case False
    then show ?thesis using enqueue_ok(3) [OF ok queue(2)] by (simp add: picks_legacy)
  qed
next
  case (packet L p i allocations res s)
  obtain n where "link_ok L n" using link_invariant [OF packet(1)] by blast
  then have ok: "carrier_ok (lk_sender L)" by (simp add: link_ok_def Let_def tx_ok_def)
  have three: "cr_fair (lk_sender L) \<longrightarrow> three (lk_sender L)" using carrier_ok_three [OF ok] by blast
  show ?case
  proof (cases "res = 0")
    case True
    have run: "enqueue_fragments (lk_sender L) p i (packet_offsets p) allocations = (0, s)" using packet_accepted_run packet(2) True by simp
    obtain new where new: "s = pushed (lk_sender L) new" "\<And>f. f \<in> set new \<Longrightarrow> fr_category f = 2 \<and> \<not> fr_begun f"
      by (rule enqueue_fragments_pushed [OF three run]) blast
    then show ?thesis using picks_same_head [OF packet(3), of s new] by (simp add: pushed_def Let_def)
  next
    case False
    obtain n where "s = (lk_sender L)\<lparr>cr_next_id := cr_next_id (lk_sender L) + n\<rparr>" using packet_rolled_back [OF three packet(2) False] by blast
    then show ?thesis using picks_same_head [OF packet(3), of s "[]"] by simp
  qed
next
  case (send L now w res bs s)
  obtain n where "link_ok L n" using link_invariant [OF send(1)] by blast
  then have ok: "carrier_ok (lk_sender L)" by (simp add: link_ok_def Let_def tx_ok_def)
  show ?case using write_picks [OF ok send(3,2)] by simp
next
  case (sender_reads L s)
  have "cr_fair s = cr_fair (lk_sender L)" "turn_flags s = turn_flags (lk_sender L)" "cr_frames s = cr_frames (lk_sender L)"
    by (rule tx_same_cases [OF sender_reads(2)], simp)+
  then show ?case using picks_same_head [OF sender_reads(3), of s "[]"] by simp
qed simp_all

section \<open>Runs\<close>

text \<open>Operations of a link as functions, for runs that can be evaluated.\<close>

datatype link_op = Queue bool bool bytes | Send nat | Receive nat

fun link_do :: "link_op \<Rightarrow> link_state \<Rightarrow> link_state" where
  "link_do (Queue control priority p) L =
     (case enqueue (lk_sender L) (Some p) control priority True of
        (res, s) \<Rightarrow> if res = 0 then L\<lparr>lk_sender := s, lk_accepted := lk_accepted L @ [(control, priority, p)]\<rparr> else L)"
| "link_do (Send n) L =
     (case pump_write (lk_sender L) 0 (\<lambda>d. int (min n (length d))) of
        (res, bs, s) \<Rightarrow> L\<lparr>lk_sender := s, lk_channel := lk_channel L @ bs,
          lk_finished := lk_finished L @ (if length (cr_frames s) < length (cr_frames (lk_sender L))
            then [message_of (st (cr_frames (choose_frame (lk_sender L)) ! 0))] else []),
          lk_picks := lk_picks L @ picked (lk_sender L)\<rparr>)"
| "link_do (Receive k) L =
     (case pump_read (lk_receiver L) 0 (\<lambda>_. (int k, take k (lk_channel L))) True (recording (\<lambda>c p control. (0, c)))
             (lk_delivered L) of
        (res, taken, r) \<Rightarrow> if 0 \<le> res \<and> k \<le> length (lk_channel L)
          then L\<lparr>lk_receiver := r, lk_channel := drop (if cr_rx_paused (lk_receiver L) then 0 else k) (lk_channel L),
                 lk_delivered := taken\<rparr> else L)"

lemma link_do: "link L \<Longrightarrow> link (link_do op L)"
proof (cases op)
  case (Queue control priority p)
  assume "link L"
  then show ?thesis using link.queue [of L p control priority True] by (auto simp: Queue split: prod.splits)
next
  case (Send n)
  assume "link L"
  then show ?thesis using link.send [of L 0 "\<lambda>d. int (min n (length d))"] by (auto simp: Send split: prod.splits)
next
  case (Receive k)
  assume "link L"
  have "keeps_rx (\<lambda>c p control. (0, c))" by (simp add: keeps_rx_def rx_same_def)
  with \<open>link L\<close> show ?thesis using link.receive [of L "\<lambda>c p control. (0, c)" k 0 True] by (auto simp: Receive split: prod.splits)
qed

definition idle_carrier :: wnc_carrier where
  "idle_carrier = snd (wnc_fair_scheduler (snd (wnc_init 64 True 1100 8192 1024 (zero_carrier 64))) 4)"

definition idle_link :: link_state where
  "idle_link = \<lparr>lk_sender = idle_carrier, lk_receiver = idle_carrier, lk_accepted = [], lk_finished = [], lk_channel = [],
     lk_delivered = [], lk_picks = []\<rparr>"

lemma idle_configured: "configured idle_carrier"
proof -
  let ?c = "snd (wnc_init 64 True 1100 8192 1024 (zero_carrier 64))"
  have "configured ?c"
    by (rule configured.init [of 64 1100 8192 1024 "zero_carrier 64"]) (simp add: wnc_init_def WN_DATAGRAM_MAX_def)
  then show ?thesis
    by (rule configured.fair_scheduler [of _ 4]) (simp add: idle_carrier_def wnc_fair_scheduler_def wnc_init_def WN_DATAGRAM_MAX_def zero_carrier_def)
qed

lemma idle_fields [simp]:
  "cr_open idle_carrier" "cr_sizeof_frame idle_carrier = 64" "cr_next_id idle_carrier = 0" "cr_frames idle_carrier = []"
  "cr_class idle_carrier = [[], [], []]" "cr_class_bytes idle_carrier = [0, 0, 0]" "cr_class_frames idle_carrier = [0, 0, 0]"
  "cr_routing_limit idle_carrier = 4" "cr_fair idle_carrier" "\<not> cr_last_routing idle_carrier" "\<not> cr_last_metadata idle_carrier"
  "\<not> cr_operator_router idle_carrier" "cr_small_size idle_carrier = 1100" "cr_limit idle_carrier = 8192"
  "cr_control_limit idle_carrier = 1024" "cr_queued idle_carrier = 0" "cr_header idle_carrier = []" "cr_body idle_carrier = None"
  "cr_body_size idle_carrier = 0" "cr_body_have idle_carrier = 0" "\<not> cr_rx_paused idle_carrier" "\<not> cr_rx_discard idle_carrier"
  "cr_rx_started idle_carrier = 0" "cr_rx_progress idle_carrier = 0" "cr_stall_timeout_us idle_carrier = 5000000"
  "cr_frame_timeout_us idle_carrier = 30000000"
  by (simp_all add: idle_carrier_def wnc_init_def wnc_fair_scheduler_def zero_carrier_def WN_DATAGRAM_MAX_def)

lemmas link_evals = idle_link_def WN_DATAGRAM_MAX_def enqueue_def enqueue_bound_def class_reserve_def category_of_def new_frame_def
  append_frame_def frame_bytes_def pump_write_def choose_frame_def pick_class_def finish_frame_def class_drop_def expired_def
  picked_def st_def pump_read_def open_body_def deliver_frame_def reset_rx_def recording_def rx_bytes_def Let_def
  three_classes wn_get32_put32 [where rest = "[]", simplified] queued_messages_def

lemma link_run: "link (fold link_do ops idle_link)"
proof -
  have "link L \<Longrightarrow> link (fold link_do ops L)" for L by (induction ops arbitrary: L) (simp_all add: link_do)
  moreover have "link idle_link" unfolding idle_link_def by (rule link.connect) (simp_all add: idle_configured)
  ultimately show ?thesis by blast
qed

text \<open>
  C35: Over a link of two carriers, in any interleaving of queueing, partial writes and partial reads, what the
  other end's receiver was called with and took are whole messages with their control flag, each once and in the
  order the sender finished them; within a flow (a class of
  the fair scheduler, a priority of the legacy one) they are finished in the order they were accepted; and when
  nothing is queued or in flight, everything accepted was delivered.
\<close>

theorem link_in_order:
  assumes "link L"
  shows "\<exists>n. lk_delivered L = map plain (take n (lk_finished L)) \<and>
    (\<forall>k. of_message_flow (cr_fair (lk_sender L)) k (lk_accepted L) =
      of_message_flow (cr_fair (lk_sender L)) k (lk_finished L @ queued_messages (lk_sender L))) \<and>
    (cr_frames (lk_sender L) = [] \<and> lk_channel L = [] \<and> cr_header (lk_receiver L) = [] \<longrightarrow>
      lk_delivered L = map plain (lk_finished L))"
proof -
  obtain n where "link_ok L n" using link_invariant [OF assms] by blast
  note L = this [unfolded link_ok_def Let_def]
  have tx: "tx_ok (lk_sender L) (lk_accepted L) (lk_finished L)
      (concat (map (wire (cr_operator_router (lk_sender L))) (lk_finished L)) @ partial (cr_frames (lk_sender L)))" using L by blast
  have "lk_delivered L = map plain (lk_finished L)"
    if "cr_frames (lk_sender L) = []" "lk_channel L = []" "cr_header (lk_receiver L) = []"
  proof -
    have "cr_body (lk_receiver L) = None" using L that(3) by (simp add: rx_ok_def)
    then have "concat (map (wire (cr_operator_router (lk_sender L))) (drop n (lk_finished L))) = []"
      using L that by (simp add: rx_bytes_def)
    moreover have "wire operator m \<noteq> []" for operator m by (cases m) (simp add: frame_bytes_def)
    ultimately have "drop n (lk_finished L) = []" by (cases "drop n (lk_finished L)") auto
    then show ?thesis using L by simp
  qed
  then show ?thesis using L tx by (intro exI [of _ n]) (simp add: tx_ok_def)
qed

lemma link_in_order_witness:
  "\<exists>L. link L \<and> lk_accepted L = [(False, False, [7, 8]), (True, False, [9])] \<and> lk_delivered L = map plain (lk_finished L) \<and>
    lk_finished L = [(False, False, [7, 8]), (True, False, [9])]"
proof -
  define L where "L = fold link_do [Queue False False [7, 8], Send 3, Queue True False [9], Send 100, Send 100, Receive 5, Receive 1,
    Receive 1, Receive 5, Receive 5] idle_link"
  have L: "link L" unfolding L_def by (rule link_run)
  have idle: "cr_frames (lk_sender L) = [] \<and> lk_channel L = [] \<and> cr_header (lk_receiver L) = []"
    by (simp add: L_def link_evals)
  have logs: "lk_accepted L = [(False, False, [7, 8]), (True, False, [9])]" "lk_finished L = [(False, False, [7, 8]), (True, False, [9])]"
    by (simp_all add: L_def link_evals)
  have "lk_delivered L = map plain (lk_finished L)" using link_in_order [OF L] idle by blast
  with L logs show ?thesis by blast
qed

text \<open>
  C36: The fair scheduler starves no class: of any four frames it starts in a row, one is of a class that had
  a frame waiting all along.
\<close>

theorem fair_share:
  assumes "link L" "cr_fair (lk_sender L)" "lk_picks L = earlier @ [p, q, r, s] @ later"
    and "k < WNC_CLASSES" "snd p ! k" "snd q ! k" "snd r ! k" "snd s ! k"
  shows "k \<in> {fst p, fst q, fst r, fst s}"
proof -
  have "fair_from (False, False) (earlier @ [p, q, r, s] @ later)"
    using link_picks [OF assms(1)] assms(2,3) by (simp add: picks_ok_def)
  then have "fair_from (fold (\<lambda>p. turn (fst p)) earlier (False, False)) [p, q, r, s]"
    by (simp only: fair_from_append)
  then show ?thesis by (rule four_turns [OF _ assms(4-8)])
qed



lemma fair_share_witness:
  "\<exists>L. link L \<and> map fst (lk_picks L) = [0, 1, 0, 2] \<and> 2 \<in> {0, 1, 0, fst (lk_picks L ! 3)}"
proof -
  define L where "L = fold link_do [Queue False False [7, 8], Queue False True [1], Queue False True [2], Queue True False [3], Send 100,
    Send 100, Send 100, Send 100] idle_link"
  have L: "link L" unfolding L_def by (rule link_run)
  have ps: "lk_picks L = [] @ [(0, [True, True, True]), (1, [True, True, True]), (0, [True, False, True]), (2, [False, False, True])] @ []"
    and fair: "cr_fair (lk_sender L)"
    by (simp_all add: L_def link_evals)
  have "2 \<in> {fst (0 :: nat, [True, True, True]), fst (1 :: nat, [True, True, True]), fst (0 :: nat, [True, False, True]),
      fst (2 :: nat, [False, False, True])}"
    by (rule fair_share [OF L fair ps]) simp_all
  with ps L show ?thesis by (intro exI [of _ L]) simp
qed

text \<open>
  C37: A class of the fair scheduler that is within its reserve is never refused: the other classes cannot
  fill the queue so far that its frame does not fit. Only the number of routing frames is bounded besides.
\<close>

theorem reserve_admits:
  fixes L control priority p
  defines "s \<equiv> lk_sender L" and "k \<equiv> category_of control priority"
  assumes "link L" "cr_fair s" "cr_open s" "p \<noteq> []" "length p \<le> (if control then cr_control_limit s else WN_DATAGRAM_MAX)"
    and "k = WNC_ROUTE \<longrightarrow> cr_class_frames s ! WNC_ROUTE < cr_routing_limit s"
    and "cr_class_bytes s ! k + (cr_sizeof_frame s + (if control then 9 else 5) + length p) \<le> WNC_CLASS_RESERVE"
  shows "\<exists>s'. enqueue s (Some p) control priority True = (0, s') \<and> carrier_ok s'"
proof -
  obtain n where "link_ok L n" using link_invariant [OF assms(3)] by blast
  then have ok: "carrier_ok s" by (simp add: link_ok_def Let_def tx_ok_def s_def)
  then have cl: "classes_ok s" using assms(4) by (simp add: carrier_ok_def)
  have k: "k = 0 \<or> k = 1 \<or> k = 2" by (auto simp: k_def category_of_def)
  obtain a b d where bs: "cr_class_bytes s = [a, b, d]" using cl by (simp add: classes_ok_def three_classes)
  have room: "cr_queued s + class_reserve s k + (WNC_CLASS_RESERVE - cr_class_bytes s ! k) \<le> cr_limit s"
    using cl k by (auto simp: classes_ok_def missing_reserve_def class_reserve_def three_classes bs simp del: bs split: if_splits)
  then have "enqueue_bound s k control priority = Inr (cr_limit s - class_reserve s k)"
    using assms(4,8) by (cases "k = 0") (simp_all add: enqueue_bound_def)
  moreover define cost where "cost = cr_sizeof_frame s + (if control then 9 else 5) + length p"
  have "cr_queued s + cost \<le> cr_limit s - class_reserve s k" using room assms(9) unfolding cost_def by linarith
  then have "\<not> (cr_limit s - class_reserve s k < cr_queued s \<or> cr_limit s - class_reserve s k - cr_queued s < cost)" by linarith
  ultimately have "enqueue s (Some p) control priority True = (0, append_frame s (new_frame s p control priority))"
    using assms(5-7) unfolding cost_def k_def by (simp add: enqueue_def)
  then show ?thesis using enqueue_ok(1) [OF ok] by blast
qed

lemma reserve_admits_witness:
  "\<exists>L s'. link L \<and> enqueue (lk_sender L) (Some [5]) False True True = (0, s') \<and> carrier_ok s'"
proof -
  define L where "L = fold link_do [Queue False False [7, 8], Send 3] idle_link"
  have L: "link L" unfolding L_def by (rule link_run)
  have "\<exists>s'. enqueue (lk_sender L) (Some [5]) False True True = (0, s') \<and> carrier_ok s'"
    by (rule reserve_admits [OF L]) (simp_all add: L_def link_evals)
  with L show ?thesis by blast
qed

end
