(* ===== verification/Spec2Isabelle.thy ===== *)
theory Spec2Isabelle
  imports Babel_History Babel_Feasible Gossip Net_Memory Agent_Pipe Peer_Selection Carrier_Link
begin

text \<open>
  Verification of the networking components of wendy-lite, the firmware that connects ESP32 devices of a
  tenant in a mesh (Wendy Net). Paths below are under \<open>src/\<close>.

  \<^bold>\<open>The program and its parts.\<close> A device dials and accepts links, chosen from a table of candidates
  (\<open>components/wendy_net_peer/src/selection.c\<close>). Over a verified link a carrier (\<open>carrier.c\<close>) frames control
  messages and datagrams in a byte stream, fragments packets into datagrams and joins them again
  (\<open>packet.c\<close>), and hands what arrives to its receiver. Control messages are canonical CBOR, written by
  \<open>components/wendy_net_common/src/binary.c\<close> and read by \<open>components/wendy_net_peer/src/binary.c\<close>; the
  names, addresses and messages in them are those of \<open>protocol.c\<close>. Packets wait in a queue
  (\<open>packet_queue.c\<close>), and the bytes of an agent connection in a ring between two tasks (\<open>agent_pipe.c\<close>).
  Routes come from a Babel engine (\<open>components/wendy_babel\<close>), signed artifacts from a gossip pool
  (\<open>components/wendy_net_gossip\<close>). All of them allocate within ledgers (\<open>memory.c\<close>, \<open>runtime_memory.c\<close> of
  \<open>components/wendy_net_common\<close>).

  \<^bold>\<open>The theories.\<close>

  \<^item> \<open>Wendy_Prelude\<close>: machine integers, bytes, big-endian codecs (locale \<open>fixed_codec\<close>, interpreted for 16,
    32 and 64 bits), C library helpers and searches in tables of slots.
  \<^item> \<open>Fifo_Interface\<close>: what a bounded queue promises its client (locale \<open>bounded_fifo\<close>) and what follows for
    every sequence of calls. \<open>Agent_Pipe\<close> and \<open>Packet_Queue\<close> interpret it.
  \<^item> \<open>Babel_Wire\<close> (\<open>wire.c\<close>): prefixes, the encoder and the decoder. The round trip of framed packets, what
    every decoded message satisfies, and the bounds of the encoder.
  \<^item> \<open>Babel_Storage\<close> (\<open>storage.c\<close>, the state of \<open>wendy_babel.h\<close>): lazily grown tables with their
    allocator. The locales \<open>slot_table\<close> and \<open>front_array\<close> are what the engine relies on, interpreted for
    each table. The byte counter is exact and the blocks out of the allocator are those of the tables;
    compaction keeps what is live; teardown gives every block back.
  \<^item> \<open>Babel_Select\<close>, \<open>Babel_Engine\<close> (\<open>engine.c\<close>, first and second half): every function of the engine.
    \<open>Babel_Frames\<close> says what each operation leaves alone. \<open>Babel_Selection\<close>: the table after a selection is
    sorted, complete and optimal for the policy, and no prefix is lost silently. \<open>Babel_Feasible\<close>: recorded
    distances never worsen and a selected route stays feasible.
  \<^item> \<open>Babel_History\<close> (\<open>history.c\<close>): saving and restoring the feasibility history.
  \<^item> \<open>Gossip\<close> (\<open>gossip.c\<close>): objects, hints, downloads, uploads and eviction, every function.
  \<^item> \<open>Net_Memory\<close> (\<open>memory.c\<close>, \<open>runtime_memory.c\<close>): ledgers, blocks, scopes, reservations. The relation
    \<open>mem_step\<close> is one critical section or heap call of some task; in every interleaving the ledgers are
    exact, and every public operation is a run of such steps.
  \<^item> \<open>Net_Binary\<close>: the CBOR writer and the short names of keys. \<open>Peer_Utf8\<close>, \<open>Peer_Binary\<close>, \<open>Peer_Document\<close>:
    the reader accepts exactly the canonical encodings within its limits, and the queries answer for the
    value that was read.
  \<^item> \<open>Peer_Packet\<close>: fragments and reassembly. \<open>Packet_Queue\<close>: the linked queue over an explicit heap.
    \<open>Agent_Pipe\<close>: the ring, run by calls and access by access with both sides interleaved
    (\<open>produce_step\<close>, \<open>consume_step\<close>, \<open>pipe_step\<close>).
  \<^item> \<open>Peer_Protocol\<close> (\<open>protocol.c\<close>): UUIDs, addresses, host names, principals and message writers.
  \<^item> \<open>Peer_Selection\<close>: candidates; every call of the interface is a step of \<open>sel_reachable\<close>, beside the
    identities that were presented as verified.
  \<^item> \<open>Peer_Carrier\<close>: queues, the two schedulers and the pump. \<open>Carrier_Link\<close>: one direction of a link as
    the relation \<open>link\<close>; what the receiver is called with and takes is recorded by its own context.

  \<^bold>\<open>Conventions.\<close> A struct is a \<open>record\<close> with the source's fields, a linked list that no property takes
  apart is a list, an array is a list of its capacity, \<open>NULL\<close> is \<^const>\<open>None\<close>. Integers are words where the
  code may wrap, and natural numbers for sizes and counts that stay in range. A failed assertion is
  \<^const>\<open>None\<close> or a flag. What lies outside the components is a parameter: an allocator asked by call number
  or by the blocks in use, transport functions, callbacks, a platform. Hypotheses on them are named, such as
  \<open>fresh_allocator\<close>, and every property that has one also has an instance.

  \<^bold>\<open>Termination.\<close> Loops are structural or carry a measure. The reader recurses at most 17 levels, the bound
  of the code, so the level is an argument and not fuel; the walks over its token table are
  \<open>partial_function (option)\<close> and are proved to return on every document that was read. The walk over an
  array takes as many calls as it is given, and the property says how many are enough.

  \<^bold>\<open>Not modelled.\<close> The chain pointers of a carrier's frames and of the gossip lists (a list stands for them),
  a carrier pumped again after it reported an error, and the components that drive hardware, radios, TLS,
  flash or tasks: they are calls into ESP-IDF and other libraries with little of their own to state. Among
  them are the actor, router and session tasks of \<open>components/wendy_net_peer\<close>, the PKI, BLE, Wi-Fi, USB and
  serial components, the WASM runtime and its exports, the applications under \<open>main\<close>, \<open>native_apps\<close> and
  \<open>wasm_apps\<close>, and the host tools in Go, Swift, Rust and Python.
\<close>

end
